(* ===== verification/Prelude.thy ===== *)
theory Prelude
  imports Main "HOL-Library.Word" "HOL-Library.Monad_Syntax"
begin

text \<open>
  The vocabulary the component theories share: the machine integer types, byte buffers read
  with an explicit bounds check, the bit-level lemmas about words that the codecs need, and
  the interface of a self-delimiting byte codec (the locale \<open>byte_codec\<close>), which the SQLite
  varint and the fields of the Slung fact log both implement.
\<close>

unbundle bit_operations_syntax

section \<open>Types\<close>

type_synonym u8 = "8 word"
type_synonym u16 = "16 word"
type_synonym u32 = "32 word"
type_synonym u64 = "64 word"

type_synonym bytes = "u8 list"

section \<open>Buffers\<close>

text \<open>
  A buffer of the program is a list of bytes. A read at an offset is \<open>None\<close> past the end, so
  a model that reads outside the buffer it was given says so in its result.
\<close>

definition byte_at :: "bytes \<Rightarrow> nat \<Rightarrow> u8 option" where
  "byte_at p i = (if i < length p then Some (p ! i) else None)"

lemma byte_at_simps [simp]:
  "byte_at [] n = None"
  "byte_at (x # xs) 0 = Some x"
  "byte_at (x # xs) (Suc m) = byte_at xs m"
  "byte_at (x # xs) 1 = byte_at xs 0"
  "byte_at (x # xs) (numeral k) = byte_at xs (pred_numeral k)"
  by (simp_all add: byte_at_def numeral_eq_Suc)

lemma byte_at_append:
  "byte_at (xs @ ys) i = (if i < length xs then byte_at xs i else byte_at ys (i - length xs))"
  by (auto simp: byte_at_def nth_append)

section \<open>Words\<close>

lemma unat_drop_bit_div: "unat (drop_bit n v) = unat v div 2 ^ n" for v :: "'a::len word"
  by (subst unat_drop_bit_eq) (rule drop_bit_eq_div)

lemma word_high_bit:
  "8 \<le> n \<Longrightarrow> \<not> bit (a :: u8) n"
  "16 \<le> n \<Longrightarrow> \<not> bit (b :: u16) n"
  "32 \<le> n \<Longrightarrow> \<not> bit (c :: u32) n"
  "64 \<le> n \<Longrightarrow> \<not> bit (d :: u64) n"
  by (auto dest: bit_imp_le_length)

lemma sint8_nonneg_iff: "0 \<le> sint b \<longleftrightarrow> \<not> bit b 7" for b :: u8
  using bit_last_iff [of b] by (auto simp: word_sless_alt)

lemma and_0x80_eq_0: "a AND 0x80 = 0 \<longleftrightarrow> \<not> bit a 7" for a :: u32
proof -
  have "a AND 0x80 = a AND push_bit 7 1" by simp
  also have "\<dots> = 0 \<longleftrightarrow> \<not> bit a 7" by (simp only: and_exp_eq_0_iff_not_bit push_bit_eq_mult mult_1)
  finally show ?thesis .
qed

lemma and_0x80_eq_0_u8: "a AND 0x80 = 0 \<longleftrightarrow> \<not> bit a 7" for a :: u8
proof -
  have "a AND 0x80 = a AND push_bit 7 1" by simp
  also have "\<dots> = 0 \<longleftrightarrow> \<not> bit a 7" by (simp only: and_exp_eq_0_iff_not_bit push_bit_eq_mult mult_1)
  finally show ?thesis .
qed

lemma and_u32_mask_iff: "v AND 0xffffffff = v \<longleftrightarrow> v \<le> 0xffffffff" for v :: u64
  using mask_eq_iff [of v 32] by (auto simp: mask_eq_decr_exp word_le_def)

text \<open>
  Two words are equal when they agree at each bit; stated over the explicit list of positions,
  so that the simplifier evaluates shifts and masks position by position.
\<close>

lemma upt_32: "[0..<32] = ([0, 1, 2, 3, 4, 5, 6, 7, 8, 9, 10, 11, 12, 13, 14, 15, 16, 17, 18, 19, 20, 21, 22, 23,
     24, 25, 26, 27, 28, 29, 30, 31] :: nat list)"
  by (simp add: upt_rec)

lemma u32_bitI:
  assumes "list_all (\<lambda>n. bit a n = bit b n)
    [0, 1, 2, 3, 4, 5, 6, 7, 8, 9, 10, 11, 12, 13, 14, 15, 16, 17, 18, 19, 20, 21, 22, 23,
     24, 25, 26, 27, 28, 29, 30, 31]"
  shows "a = (b :: u32)"
proof (rule bit_word_eqI)
  fix n assume "n < LENGTH(32)"
  then have "n \<in> set [0..<32]" by simp
  with assms show "bit a n = bit b n"
    unfolding list_all_iff upt_32 [symmetric] by blast
qed

lemma upt_64: "[0..<64] = ([0, 1, 2, 3, 4, 5, 6, 7, 8, 9, 10, 11, 12, 13, 14, 15, 16, 17, 18, 19, 20, 21, 22, 23,
     24, 25, 26, 27, 28, 29, 30, 31, 32, 33, 34, 35, 36, 37, 38, 39, 40, 41, 42, 43, 44, 45,
     46, 47, 48, 49, 50, 51, 52, 53, 54, 55, 56, 57, 58, 59, 60, 61, 62, 63] :: nat list)"
  by (simp add: upt_rec)

lemma u64_bitI:
  assumes "list_all (\<lambda>n. bit a n = bit b n)
    [0, 1, 2, 3, 4, 5, 6, 7, 8, 9, 10, 11, 12, 13, 14, 15, 16, 17, 18, 19, 20, 21, 22, 23,
     24, 25, 26, 27, 28, 29, 30, 31, 32, 33, 34, 35, 36, 37, 38, 39, 40, 41, 42, 43, 44, 45,
     46, 47, 48, 49, 50, 51, 52, 53, 54, 55, 56, 57, 58, 59, 60, 61, 62, 63]"
  shows "a = (b :: u64)"
proof (rule bit_word_eqI)
  fix n assume "n < LENGTH(64)"
  then have "n \<in> set [0..<64]" by simp
  with assms show "bit a n = bit b n"
    unfolding list_all_iff upt_64 [symmetric] by blast
qed

section \<open>Self-delimiting byte codecs\<close>

text \<open>
  \<open>put\<close> writes a value, \<open>get\<close> reads one from the front of a buffer and reports how many bytes
  it used. The one law is that reading back what was written gives the value and consumes
  exactly the bytes written, whatever follows them.
\<close>

locale byte_codec =
  fixes put :: "'a \<Rightarrow> bytes"
    and get :: "bytes \<Rightarrow> ('a \<times> nat) option"
    and ok :: "'a \<Rightarrow> bool"
  assumes get_put: "ok v \<Longrightarrow> get (put v @ rest) = Some (v, length (put v))"
begin

lemma put_prefix_free:
  assumes "ok v" "ok w" "put v @ xs = put w @ ys"
  shows "v = w \<and> xs = ys"
proof -
  from assms(3) have "get (put v @ xs) = get (put w @ ys)" by simp
  with assms(1,2) have "v = w" by (simp add: get_put)
  with assms(3) show ?thesis by simp
qed

lemma put_inject: "ok v \<Longrightarrow> ok w \<Longrightarrow> put v = put w \<longleftrightarrow> v = w"
  using put_prefix_free [of v w "[]" "[]"] by auto

lemma concat_put_inject:
  assumes "list_all ok vs" "list_all ok ws" "length vs = length ws"
    and "concat (map put vs) @ xs = concat (map put ws) @ ys"
  shows "vs = ws \<and> xs = ys"
  using assms(3,1,2,4)
proof (induction vs ws arbitrary: xs ys rule: list_induct2)
  case Nil
  then show ?case by simp
next
  case (Cons v vs w ws)
  have ok: "ok v" "ok w" "list_all ok vs" "list_all ok ws" using Cons.prems(1,2) by simp_all
  have "put v @ (concat (map put vs) @ xs) = put w @ (concat (map put ws) @ ys)"
    using Cons.prems(3) by simp
  then have hd: "v = w" and tl: "concat (map put vs) @ xs = concat (map put ws) @ ys"
    using put_prefix_free [OF ok(1,2)] by blast+
  show ?case using Cons.IH [OF ok(3,4) tl] hd by blast
qed

end

section \<open>Allocation outcomes\<close>

text \<open>The outcomes of the allocations to come, used up in order; an empty list means that all
  of them succeed.\<close>

fun mallocs :: "bool list \<Rightarrow> bool \<times> bool list" where
  "mallocs [] = (True, [])"
| "mallocs (b # bs) = (b, bs)"

section \<open>Running a component against its specification\<close>

text \<open>
  A component is a step function that may fail (\<open>None\<close>); a specification is a total one. The
  runs collect the answers the client sees.
\<close>

fun run_ops :: "('s \<Rightarrow> 'op \<Rightarrow> ('s \<times> 'r) option) \<Rightarrow> 's \<Rightarrow> 'op list \<Rightarrow> 'r list option" where
  "run_ops step s [] = Some []"
| "run_ops step s (x # xs) =
     (case step s x of None \<Rightarrow> None
      | Some (t, r) \<Rightarrow> map_option ((#) r) (run_ops step t xs))"

fun spec_ops :: "('a \<Rightarrow> 'op \<Rightarrow> 'a \<times> 'r) \<Rightarrow> 'a \<Rightarrow> 'op list \<Rightarrow> 'r list" where
  "spec_ops spec a [] = []"
| "spec_ops spec a (x # xs) = (case spec a x of (b, r) \<Rightarrow> r # spec_ops spec b xs)"

text \<open>
  The interface of a component whose capacity bounds how many operations it takes: each step
  below the capacity answers as the specification does, keeps the invariant, commutes with the
  abstraction and uses up at most one unit of the capacity.
\<close>

locale bounded_simulation =
  fixes step :: "'s \<Rightarrow> 'op \<Rightarrow> ('s \<times> 'r) option"
    and spec :: "'a \<Rightarrow> 'op \<Rightarrow> 'a \<times> 'r"
    and abs :: "'s \<Rightarrow> 'a"
    and inv :: "'s \<Rightarrow> bool"
    and ok :: "'op \<Rightarrow> bool"
    and used :: "'s \<Rightarrow> nat"
    and cap :: nat
  assumes sim: "inv s \<Longrightarrow> used s < cap \<Longrightarrow> ok x \<Longrightarrow>
    \<exists>t. step s x = Some (t, snd (spec (abs s) x)) \<and> inv t \<and>
        abs t = fst (spec (abs s) x) \<and> used t \<le> Suc (used s)"
begin

lemma run_refines:
  assumes "inv s" "used s + length xs \<le> cap" "list_all ok xs"
  shows "run_ops step s xs = Some (spec_ops spec (abs s) xs)"
  using assms
proof (induction xs arbitrary: s)
  case (Cons x xs)
  then have "used s < cap" "ok x" by simp_all
  from sim [OF Cons.prems(1) this]
  obtain t where t: "step s x = Some (t, snd (spec (abs s) x))" "inv t"
    "abs t = fst (spec (abs s) x)" "used t \<le> Suc (used s)" by blast
  with Cons.IH [of t] Cons.prems(2,3) show ?case by (simp add: split_beta)
qed simp

end

end
