(* ===== verification/Varint.thy ===== *)
theory Varint
  imports Prelude
begin

text \<open>
  The variable-length integers of SQLite (\<open>lib/sqlite/sqlite3.c\<close>, util.c): every rowid, record
  header and cell header that Slung's \<open>module_kv\<close> table puts on a page goes through
  \<open>sqlite3PutVarint\<close> and \<open>sqlite3GetVarint\<close>. The decoder of the source is an unrolled sequence
  of shifts and masks on three 32-bit registers \<open>a\<close>, \<open>b\<close>, \<open>s\<close>; \<open>get_eq_ref\<close> shows that it is
  the plain byte-by-byte decoder \<open>varint_ref\<close>, and the round trip, the lengths and the clamping
  of the 32-bit variant follow from that.
\<close>

section \<open>Model\<close>

subsection \<open>Writing\<close>

text \<open>The buffer \<open>buf[]\<close> that the do-while loop of \<open>putVarint64\<close> fills, least significant group first.\<close>

lemma unat_drop_7: "unat (drop_bit 7 v) = unat v div 128" for v :: u64
  by (simp add: unat_drop_bit_div)

lemma unat_drop_bit_less': "v \<noteq> 0 \<Longrightarrow> unat (drop_bit 7 v) < unat v" for v :: u64
  by (simp add: unat_drop_7 word_neq_0_conv unat_gt_0)

lemma unat_drop_bit_less: "drop_bit 7 v \<noteq> 0 \<Longrightarrow> unat (drop_bit 7 v) < unat v" for v :: u64
  by (rule unat_drop_bit_less') auto

function putVarint_buf :: "u64 \<Rightarrow> bytes" where
  "putVarint_buf v =
     (let b = ucast (v AND 0x7f) OR 0x80; v' = drop_bit 7 v
      in if v' \<noteq> 0 then b # putVarint_buf v' else [b])"
  by pat_completeness auto
termination
  by (relation "measure unat") (auto intro: unat_drop_bit_less)

declare putVarint_buf.simps [simp del]

text \<open>The nine-byte case: \<open>for(i=7; i>=0; i--)\<close> writes \<open>p[i]\<close> from the low seven bits.\<close>

fun putVarint_fill :: "nat \<Rightarrow> u64 \<Rightarrow> bytes \<Rightarrow> bytes" where
  "putVarint_fill 0 v acc = acc"
| "putVarint_fill (Suc i) v acc =
     putVarint_fill i (drop_bit 7 v) ((ucast (v AND 0x7f) OR 0x80) # acc)"

definition putVarint64 :: "u64 \<Rightarrow> bytes" where
  "putVarint64 v =
     (if v AND push_bit 32 0xff000000 \<noteq> 0
      then putVarint_fill 8 (drop_bit 8 v) [ucast v]
      else case putVarint_buf v of [] \<Rightarrow> [] | b0 # bs \<Rightarrow> rev ((b0 AND 0x7f) # bs))"

definition sqlite3PutVarint :: "u64 \<Rightarrow> bytes" where
  "sqlite3PutVarint v =
     (if v \<le> 0x7f then [ucast (v AND 0x7f)]
      else if v \<le> 0x3fff then [ucast (drop_bit 7 v AND 0x7f) OR 0x80, ucast (v AND 0x7f)]
      else putVarint64 v)"

subsection \<open>Reading\<close>

abbreviation SLOT_2_0 :: u32 where "SLOT_2_0 \<equiv> 0x001fc07f"
abbreviation SLOT_4_2_0 :: u32 where "SLOT_4_2_0 \<equiv> 0xf01fc07f"

text \<open>\<open>*v = ((u64)s)<<32 | a\<close>\<close>

definition join32 :: "u32 \<Rightarrow> u32 \<Rightarrow> u64" where
  "join32 s a = push_bit 32 (ucast s) OR ucast a"

definition sqlite3GetVarint :: "bytes \<Rightarrow> (u64 \<times> nat) option" where
  "sqlite3GetVarint p = do {
     p0 \<leftarrow> byte_at p 0;
     if 0 \<le> sint p0 then Some (ucast p0, 1) else do {
     p1 \<leftarrow> byte_at p 1;
     if 0 \<le> sint p1
     then Some (ucast ((push_bit 7 (ucast (p0 AND 0x7f)) :: u32) OR ucast p1), 2) else do {
     p2 \<leftarrow> byte_at p 2;
     let a = push_bit 14 (ucast p0 :: u32) OR ucast p2; let b = (ucast p1 :: u32);
     if a AND 0x80 = 0
     then Some (ucast ((a AND SLOT_2_0) OR push_bit 7 (b AND 0x7f)), 3) else do {
     p3 \<leftarrow> byte_at p 3;
     let a = a AND SLOT_2_0; let b = push_bit 14 b OR ucast p3;
     if b AND 0x80 = 0 then Some (ucast (push_bit 7 a OR (b AND SLOT_2_0)), 4) else do {
     p4 \<leftarrow> byte_at p 4;
     let b = b AND SLOT_2_0; let s = a; let a = push_bit 14 a OR ucast p4;
     if a AND 0x80 = 0 then Some (join32 (drop_bit 18 s) (a OR push_bit 7 b), 5) else do {
     p5 \<leftarrow> byte_at p 5;
     let s = push_bit 7 s OR b; let b = push_bit 14 b OR ucast p5;
     if b AND 0x80 = 0
     then Some (join32 (drop_bit 18 s) (push_bit 7 (a AND SLOT_2_0) OR b), 6) else do {
     p6 \<leftarrow> byte_at p 6;
     let a = push_bit 14 a OR ucast p6;
     if a AND 0x80 = 0
     then Some (join32 (drop_bit 11 s) ((a AND SLOT_4_2_0) OR push_bit 7 (b AND SLOT_2_0)), 7)
     else do {
     p7 \<leftarrow> byte_at p 7;
     let a = a AND SLOT_2_0; let b = push_bit 14 b OR ucast p7;
     if b AND 0x80 = 0
     then Some (join32 (drop_bit 4 s) (push_bit 7 a OR (b AND SLOT_4_2_0)), 8) else do {
     p8 \<leftarrow> byte_at p 8;
     let a = (push_bit 15 a OR ucast p8) OR push_bit 8 (b AND SLOT_2_0);
     let s = push_bit 4 s OR drop_bit 3 (ucast p4 AND 0x7f);
     Some (join32 s a, 9)
   }}}}}}}}}"

text \<open>
  The 32-bit reader. The one-byte case is the \<open>getVarint32()\<close> macro's, which the function's
  assertion excludes.
\<close>

definition sqlite3GetVarint32 :: "bytes \<Rightarrow> (u32 \<times> nat) option" where
  "sqlite3GetVarint32 p = do {
     p0 \<leftarrow> byte_at p 0;
     p1 \<leftarrow> byte_at p 1;
     if p1 AND 0x80 = 0 then Some (push_bit 7 (ucast (p0 AND 0x7f)) OR ucast p1, 2) else do {
     p2 \<leftarrow> byte_at p 2;
     if p2 AND 0x80 = 0
     then Some (push_bit 14 (ucast (p0 AND 0x7f)) OR push_bit 7 (ucast (p1 AND 0x7f)) OR ucast p2, 3)
     else do {
     (v64, n) \<leftarrow> sqlite3GetVarint p;
     Some (if v64 AND 0xffffffff \<noteq> v64 then 0xffffffff else ucast v64, n) }}}"

function sqlite3VarintLen_loop :: "u64 \<Rightarrow> nat \<Rightarrow> nat" where
  "sqlite3VarintLen_loop v i =
     (let v' = drop_bit 7 v in if v' \<noteq> 0 then sqlite3VarintLen_loop v' (Suc i) else i)"
  by pat_completeness auto
termination
  by (relation "measure (unat \<circ> fst)") (auto intro: unat_drop_bit_less)
declare sqlite3VarintLen_loop.simps [simp del]

definition sqlite3VarintLen :: "u64 \<Rightarrow> nat" where
  "sqlite3VarintLen v = sqlite3VarintLen_loop v 1"

section \<open>The unrolled decoder is the plain one\<close>

text \<open>
  The reference: up to eight bytes give seven bits each, most significant first, a clear top
  bit ends the number, and a ninth byte gives eight bits.
\<close>

fun varint_ref :: "nat \<Rightarrow> u64 \<Rightarrow> bytes \<Rightarrow> (u64 \<times> nat) option" where
  "varint_ref k acc [] = None"
| "varint_ref k acc (x # xs) =
     (if k = 8 then Some (push_bit 8 acc OR ucast x, 9)
      else if \<not> bit x 7 then Some (push_bit 7 acc OR ucast x, Suc k)
      else varint_ref (Suc k) (push_bit 7 acc OR ucast (x AND 0x7f)) xs)"

text \<open>One line per length of the number: the bits of the registers agree with the reference.\<close>

lemma get_full:
  "\<not> bit p0 7 \<Longrightarrow> 
     sqlite3GetVarint (p0#r) = varint_ref 0 0 (p0#r)"
  "bit p0 7 \<Longrightarrow> \<not> bit p1 7 \<Longrightarrow> 
     sqlite3GetVarint (p0#p1#r) = varint_ref 0 0 (p0#p1#r)"
  "bit p0 7 \<Longrightarrow> bit p1 7 \<Longrightarrow> \<not> bit p2 7 \<Longrightarrow> 
     sqlite3GetVarint (p0#p1#p2#r) = varint_ref 0 0 (p0#p1#p2#r)"
  "bit p0 7 \<Longrightarrow> bit p1 7 \<Longrightarrow> bit p2 7 \<Longrightarrow> \<not> bit p3 7 \<Longrightarrow> 
     sqlite3GetVarint (p0#p1#p2#p3#r) = varint_ref 0 0 (p0#p1#p2#p3#r)"
  "bit p0 7 \<Longrightarrow> bit p1 7 \<Longrightarrow> bit p2 7 \<Longrightarrow> bit p3 7 \<Longrightarrow> \<not> bit p4 7 \<Longrightarrow> 
     sqlite3GetVarint (p0#p1#p2#p3#p4#r) = varint_ref 0 0 (p0#p1#p2#p3#p4#r)"
  "bit p0 7 \<Longrightarrow> bit p1 7 \<Longrightarrow> bit p2 7 \<Longrightarrow> bit p3 7 \<Longrightarrow> bit p4 7 \<Longrightarrow> \<not> bit p5 7 \<Longrightarrow> 
     sqlite3GetVarint (p0#p1#p2#p3#p4#p5#r) = varint_ref 0 0 (p0#p1#p2#p3#p4#p5#r)"
  "bit p0 7 \<Longrightarrow> bit p1 7 \<Longrightarrow> bit p2 7 \<Longrightarrow> bit p3 7 \<Longrightarrow> bit p4 7 \<Longrightarrow> bit p5 7 \<Longrightarrow> \<not> bit p6 7 \<Longrightarrow> 
     sqlite3GetVarint (p0#p1#p2#p3#p4#p5#p6#r) = varint_ref 0 0 (p0#p1#p2#p3#p4#p5#p6#r)"
  "bit p0 7 \<Longrightarrow> bit p1 7 \<Longrightarrow> bit p2 7 \<Longrightarrow> bit p3 7 \<Longrightarrow> bit p4 7 \<Longrightarrow> bit p5 7 \<Longrightarrow> bit p6 7 \<Longrightarrow> \<not> bit p7 7 \<Longrightarrow> 
     sqlite3GetVarint (p0#p1#p2#p3#p4#p5#p6#p7#r) = varint_ref 0 0 (p0#p1#p2#p3#p4#p5#p6#p7#r)"
  "bit p0 7 \<Longrightarrow> bit p1 7 \<Longrightarrow> bit p2 7 \<Longrightarrow> bit p3 7 \<Longrightarrow> bit p4 7 \<Longrightarrow> bit p5 7 \<Longrightarrow> bit p6 7 \<Longrightarrow> bit p7 7 \<Longrightarrow> 
     sqlite3GetVarint (p0#p1#p2#p3#p4#p5#p6#p7#p8#r) = varint_ref 0 0 (p0#p1#p2#p3#p4#p5#p6#p7#p8#r)"
  by (simp add: sqlite3GetVarint_def Let_def sint8_nonneg_iff and_0x80_eq_0 bit_simps join32_def,
      (rule u64_bitI, simp add: bit_simps word_high_bit)?)+

text \<open>A buffer that ends inside a number.\<close>

lemma get_none:
  "
     sqlite3GetVarint ([]) = varint_ref 0 0 ([])"
  "bit p0 7 \<Longrightarrow> 
     sqlite3GetVarint (p0#[]) = varint_ref 0 0 (p0#[])"
  "bit p0 7 \<Longrightarrow> bit p1 7 \<Longrightarrow> 
     sqlite3GetVarint (p0#p1#[]) = varint_ref 0 0 (p0#p1#[])"
  "bit p0 7 \<Longrightarrow> bit p1 7 \<Longrightarrow> bit p2 7 \<Longrightarrow> 
     sqlite3GetVarint (p0#p1#p2#[]) = varint_ref 0 0 (p0#p1#p2#[])"
  "bit p0 7 \<Longrightarrow> bit p1 7 \<Longrightarrow> bit p2 7 \<Longrightarrow> bit p3 7 \<Longrightarrow> 
     sqlite3GetVarint (p0#p1#p2#p3#[]) = varint_ref 0 0 (p0#p1#p2#p3#[])"
  "bit p0 7 \<Longrightarrow> bit p1 7 \<Longrightarrow> bit p2 7 \<Longrightarrow> bit p3 7 \<Longrightarrow> bit p4 7 \<Longrightarrow> 
     sqlite3GetVarint (p0#p1#p2#p3#p4#[]) = varint_ref 0 0 (p0#p1#p2#p3#p4#[])"
  "bit p0 7 \<Longrightarrow> bit p1 7 \<Longrightarrow> bit p2 7 \<Longrightarrow> bit p3 7 \<Longrightarrow> bit p4 7 \<Longrightarrow> bit p5 7 \<Longrightarrow> 
     sqlite3GetVarint (p0#p1#p2#p3#p4#p5#[]) = varint_ref 0 0 (p0#p1#p2#p3#p4#p5#[])"
  "bit p0 7 \<Longrightarrow> bit p1 7 \<Longrightarrow> bit p2 7 \<Longrightarrow> bit p3 7 \<Longrightarrow> bit p4 7 \<Longrightarrow> bit p5 7 \<Longrightarrow> bit p6 7 \<Longrightarrow> 
     sqlite3GetVarint (p0#p1#p2#p3#p4#p5#p6#[]) = varint_ref 0 0 (p0#p1#p2#p3#p4#p5#p6#[])"
  "bit p0 7 \<Longrightarrow> bit p1 7 \<Longrightarrow> bit p2 7 \<Longrightarrow> bit p3 7 \<Longrightarrow> bit p4 7 \<Longrightarrow> bit p5 7 \<Longrightarrow> bit p6 7 \<Longrightarrow> bit p7 7 \<Longrightarrow> 
     sqlite3GetVarint (p0#p1#p2#p3#p4#p5#p6#p7#[]) = varint_ref 0 0 (p0#p1#p2#p3#p4#p5#p6#p7#[])"
  by (simp_all add: sqlite3GetVarint_def Let_def sint8_nonneg_iff and_0x80_eq_0 bit_simps)

lemma get_long: "sqlite3GetVarint (p0#p1#p2#p3#p4#p5#p6#p7#p8#r) =
   varint_ref 0 0 (p0#p1#p2#p3#p4#p5#p6#p7#p8#r)"
  by (cases "bit p0 7", cases "bit p1 7", cases "bit p2 7", cases "bit p3 7", cases "bit p4 7",
      cases "bit p5 7", cases "bit p6 7", cases "bit p7 7")
     (simp_all only: get_full not_False_eq_True)

lemma get_short:
  "sqlite3GetVarint [] = varint_ref 0 0 [] \<and>
   sqlite3GetVarint [p0] = varint_ref 0 0 [p0] \<and>
   sqlite3GetVarint [p0, p1] = varint_ref 0 0 [p0, p1] \<and>
   sqlite3GetVarint [p0, p1, p2] = varint_ref 0 0 [p0, p1, p2] \<and>
   sqlite3GetVarint [p0, p1, p2, p3] = varint_ref 0 0 [p0, p1, p2, p3] \<and>
   sqlite3GetVarint [p0, p1, p2, p3, p4] = varint_ref 0 0 [p0, p1, p2, p3, p4] \<and>
   sqlite3GetVarint [p0, p1, p2, p3, p4, p5] = varint_ref 0 0 [p0, p1, p2, p3, p4, p5] \<and>
   sqlite3GetVarint [p0, p1, p2, p3, p4, p5, p6] = varint_ref 0 0 [p0, p1, p2, p3, p4, p5, p6] \<and>
   sqlite3GetVarint [p0, p1, p2, p3, p4, p5, p6, p7] = varint_ref 0 0 [p0, p1, p2, p3, p4, p5, p6, p7]"
  by (cases "bit p0 7", cases "bit p1 7", cases "bit p2 7", cases "bit p3 7", cases "bit p4 7",
      cases "bit p5 7", cases "bit p6 7", cases "bit p7 7")
     (simp_all only: get_full get_none not_False_eq_True)

lemma get_eq_ref: "sqlite3GetVarint p = varint_ref 0 0 p"
proof (cases "9 \<le> length p")
  case True
  then obtain p0 p1 p2 p3 p4 p5 p6 p7 p8 r where p: "p = p0#p1#p2#p3#p4#p5#p6#p7#p8#r"
    by (auto simp: Suc_le_length_iff numeral_eq_Suc)
  show ?thesis unfolding p by (rule get_long)
next
  case False
  then have "length p \<in> set [0..<9]" by simp
  then show ?thesis
    by (auto simp: upt_rec length_Suc_conv numeral_eq_Suc get_short)
qed

declare varint_ref.simps(2) [simp del]

section \<open>Round trip\<close>

lemma and_127_split: "push_bit 7 (drop_bit 7 v) OR (v AND 0x7f) = (v :: u64)"
  by (rule u64_bitI) (simp add: bit_simps)

lemma varint_digit: "ucast ((ucast (v AND 0x7f) OR 0x80 :: u8) AND 0x7f) = (v AND 0x7f :: u64)"
  by (rule u64_bitI) (simp add: bit_simps word_high_bit)

lemma varint_last: "ucast (ucast (v AND 0x7f) AND 0x7f :: u8) = (v AND 0x7f :: u64)"
  by (rule u64_bitI) (simp add: bit_simps word_high_bit)

function varint_hi :: "u64 \<Rightarrow> bytes" where
  "varint_hi v = (if v = 0 then [] else varint_hi (drop_bit 7 v) @ [ucast (v AND 0x7f) OR 0x80])"
  by pat_completeness auto
termination
  by (relation "measure unat") (auto intro: unat_drop_bit_less')
declare varint_hi.simps [simp del]

lemma varint_ref_step: "k < 8 \<Longrightarrow>
  varint_ref k acc ((ucast (v AND 0x7f) OR 0x80) # xs) = varint_ref (Suc k) (push_bit 7 acc OR (v AND 0x7f)) xs"
  by (simp add: varint_ref.simps bit_simps varint_digit)

lemma varint_ref_final: "k < 8 \<Longrightarrow>
  varint_ref k (drop_bit 7 v) (ucast (v AND 0x7f) # xs) = Some (v, Suc k)"
proof -
  have "ucast (ucast (v AND 0x7f) :: u8) = (v AND 0x7f :: u64)"
    by (rule u64_bitI) (simp add: bit_simps word_high_bit)
  moreover assume "k < 8"
  ultimately show ?thesis by (simp add: varint_ref.simps bit_simps and_127_split)
qed

lemma varint_ref_hi: "k + length (varint_hi v) \<le> 8 \<Longrightarrow>
  varint_ref k 0 (varint_hi v @ xs) = varint_ref (k + length (varint_hi v)) v xs"
proof (induction v arbitrary: xs rule: varint_hi.induct)
  case (1 v)
  show ?case
  proof (cases "v = 0")
    case False
    then have eq: "varint_hi v = varint_hi (drop_bit 7 v) @ [ucast (v AND 0x7f) OR 0x80]"
      by (subst varint_hi.simps) simp
    show ?thesis
      using "1.IH" [OF False, of "(ucast (v AND 0x7f) OR 0x80) # xs"] "1.prems"
      by (simp add: eq varint_ref_step and_127_split)
  qed (simp add: varint_hi.simps)
qed

lemma length_varint_hi: "unat v < 128 ^ n \<Longrightarrow> length (varint_hi v) \<le> n"
proof (induction n arbitrary: v)
  case 0
  then show ?case by (simp add: varint_hi.simps unat_eq_zero)
next
  case (Suc n)
  then have "unat (drop_bit 7 v) < 128 ^ n"
    by (simp add: unat_drop_7 less_mult_imp_div_less mult.commute)
  with Suc.IH have "length (varint_hi (drop_bit 7 v)) \<le> n" by simp
  then show ?case by (subst varint_hi.simps) simp
qed

lemma putVarint_buf_hi: "rev (putVarint_buf v) = varint_hi (drop_bit 7 v) @ [ucast (v AND 0x7f) OR 0x80]"
proof (induction v rule: putVarint_buf.induct)
  case (1 v)
  show ?case
    using "1.IH" [of _ "drop_bit 7 v"]
    by (subst putVarint_buf.simps) (simp add: Let_def varint_hi.simps [of "drop_bit 7 v"])
qed

lemma putVarint_fill_append: "putVarint_fill i v acc = putVarint_fill i v [] @ acc"
proof (induction i arbitrary: v acc)
  case (Suc i)
  show ?case
    by (simp, subst Suc.IH, subst (2) Suc.IH, simp)
qed simp

lemma length_putVarint_fill: "length (putVarint_fill i v acc) = i + length acc"
  by (induction i arbitrary: v acc) auto

lemma varint_ref_fill: "k + i \<le> 8 \<Longrightarrow>
  varint_ref k (drop_bit (7 * i) v) (putVarint_fill i v [] @ xs) = varint_ref (k + i) v xs"
proof (induction i arbitrary: v xs)
  case (Suc i)
  have "varint_ref k (drop_bit (7 * i) (drop_bit 7 v)) (putVarint_fill i (drop_bit 7 v) [] @
     (ucast (v AND 0x7f) OR 0x80) # xs) = varint_ref (k + i) (drop_bit 7 v) ((ucast (v AND 0x7f) OR 0x80) # xs)"
    using Suc.IH [of "drop_bit 7 v"] Suc.prems by simp
  then show ?case using Suc.prems
    by (simp add: putVarint_fill_append [of i _ "[_]"] varint_ref_step and_127_split add.commute)
qed simp

lemma and_top_byte: "v AND 0xff00000000000000 = push_bit 56 (drop_bit 56 v)" for v :: u64
  by (rule u64_bitI) (simp add: bit_simps)

lemma drop_push_drop: "drop_bit 56 (push_bit 56 (drop_bit 56 v)) = drop_bit 56 v" for v :: u64
  by (rule u64_bitI) (simp add: bit_simps word_high_bit)

lemma top_byte_zero_iff: "v AND 0xff00000000000000 = 0 \<longleftrightarrow> unat v < 2 ^ 56" for v :: u64
proof -
  have "v AND 0xff00000000000000 = 0 \<longleftrightarrow> drop_bit 56 v = 0"
    unfolding and_top_byte by (metis drop_push_drop drop_bit_of_0 push_bit_of_0)
  also have "\<dots> \<longleftrightarrow> unat v div 2 ^ 56 = 0"
    by (simp add: unat_drop_bit_div flip: unat_eq_zero)
  finally show ?thesis by (simp add: div_eq_0_iff)
qed

lemma sqlite3PutVarint_small:
  assumes "unat v < 2 ^ 56"
  shows "sqlite3PutVarint v = varint_hi (drop_bit 7 v) @ [ucast (v AND 0x7f)]"
proof -
  consider (one) "v \<le> 0x7f" | (two) "0x7f < v" "v \<le> 0x3fff" | (more) "0x3fff < v"
    by (meson not_less)
  then show ?thesis
  proof cases
    case one
    then have "drop_bit 7 v = 0"
      by (simp add: unat_drop_7 word_le_nat_alt flip: unat_eq_zero)
    with one show ?thesis by (simp add: sqlite3PutVarint_def varint_hi.simps)
  next
    case two
    then have "drop_bit 7 v \<noteq> 0" "drop_bit 7 (drop_bit 7 v) = 0"
      by (simp_all add: unat_drop_bit_div word_le_nat_alt word_less_nat_alt flip: unat_eq_zero)
    with two show ?thesis
      by (simp add: sqlite3PutVarint_def varint_hi.simps [of "drop_bit 7 v"] varint_hi.simps [of 0])
  next
    case more
    then have "\<not> v \<le> 0x7f" by (simp add: word_le_nat_alt word_less_nat_alt)
    obtain b bs where buf: "putVarint_buf v = b # bs"
      by (cases "putVarint_buf v") (auto simp: putVarint_buf.simps [of v] Let_def split: if_splits)
    have "rev bs @ [b] = varint_hi (drop_bit 7 v) @ [ucast (v AND 0x7f) OR 0x80]"
      using putVarint_buf_hi [of v] by (simp add: buf)
    moreover have "(ucast (v AND 0x7f) OR 0x80) AND 0x7f = (ucast (v AND 0x7f) :: u8)"
      by (rule bit_word_eqI) (auto simp: bit_simps less_Suc_eq numeral_eq_Suc)
    ultimately show ?thesis
      using more \<open>\<not> v \<le> 0x7f\<close> assms
      by (auto simp: sqlite3PutVarint_def putVarint64_def top_byte_zero_iff buf not_le)
  qed
qed

lemma sqlite3PutVarint_large:
  assumes "2 ^ 56 \<le> unat v"
  shows "sqlite3PutVarint v = putVarint_fill 8 (drop_bit 8 v) [] @ [ucast v]"
proof -
  have "\<not> v \<le> 0x7f" "\<not> v \<le> 0x3fff"
    using assms by (simp_all add: word_le_nat_alt)
  then show ?thesis using assms
    by (simp add: sqlite3PutVarint_def putVarint64_def top_byte_zero_iff
        putVarint_fill_append [of 8 _ "[ucast v]"])
qed

lemma get_put_varint:
  "sqlite3GetVarint (sqlite3PutVarint v @ rest) = Some (v, length (sqlite3PutVarint v))"
proof (cases "unat v < 2 ^ 56")
  case True
  then have len: "length (varint_hi (drop_bit 7 v)) \<le> 7"
    by (intro length_varint_hi) (simp add: unat_drop_7 less_mult_imp_div_less)
  then show ?thesis using True
    by (simp add: get_eq_ref sqlite3PutVarint_small varint_ref_hi varint_ref_final)
next
  case False
  have z: "drop_bit 56 (drop_bit 8 v) = 0" and j: "push_bit 8 (drop_bit 8 v) OR ucast (ucast v :: u8) = v"
    by (rule u64_bitI, simp add: bit_simps word_high_bit)+
  then show ?thesis using False varint_ref_fill [of 0 8 "drop_bit 8 v" "ucast v # rest"]
    by (simp add: get_eq_ref sqlite3PutVarint_large length_putVarint_fill varint_ref.simps)
qed

interpretation varint: byte_codec sqlite3PutVarint sqlite3GetVarint "\<lambda>_. True"
  by unfold_locales (rule get_put_varint)

section \<open>Lengths\<close>

lemma length_varint_hi_ge: "128 ^ n \<le> unat v \<Longrightarrow> Suc n \<le> length (varint_hi v)"
proof (induction n arbitrary: v)
  case 0
  then have "v \<noteq> 0" by auto
  then show ?case by (subst varint_hi.simps) simp
next
  case (Suc n)
  then have "128 ^ n \<le> unat (drop_bit 7 v)"
    by (simp add: unat_drop_7 less_eq_div_iff_mult_less_eq mult.commute)
  with Suc.IH have "Suc n \<le> length (varint_hi (drop_bit 7 v))" by simp
  moreover have "v \<noteq> 0" using Suc.prems by auto
  ultimately show ?case by (subst varint_hi.simps) simp
qed

lemma length_PutVarint_small:
  "unat v < 2 ^ 56 \<Longrightarrow> length (sqlite3PutVarint v) = Suc (length (varint_hi (drop_bit 7 v)))"
  by (simp add: sqlite3PutVarint_small)

lemma length_PutVarint_large: "2 ^ 56 \<le> unat v \<Longrightarrow> length (sqlite3PutVarint v) = 9"
  by (simp add: sqlite3PutVarint_large length_putVarint_fill)

lemma VarintLen_loop_hi: "sqlite3VarintLen_loop v i = i + length (varint_hi (drop_bit 7 v))"
proof (induction v i rule: sqlite3VarintLen_loop.induct)
  case (1 v i)
  show ?case using "1.IH" [OF refl]
    by (subst sqlite3VarintLen_loop.simps) (simp add: Let_def varint_hi.simps [of "drop_bit 7 v"])
qed

lemma VarintLen_hi: "sqlite3VarintLen v = Suc (length (varint_hi (drop_bit 7 v)))"
  by (simp add: sqlite3VarintLen_def VarintLen_loop_hi)

lemma VarintLen_large:
  assumes "2 ^ 56 \<le> unat v"
  shows "sqlite3VarintLen v = (if unat v < 2 ^ 63 then 9 else 10)"
proof -
  have "unat v < 2 ^ 64" using unsigned_less [of v] by simp
  then have hi: "unat (drop_bit 7 v) < 128 ^ 9" "128 ^ 7 \<le> unat (drop_bit 7 v)"
    using assms by (simp_all add: unat_drop_7 less_mult_imp_div_less less_eq_div_iff_mult_less_eq)
  have "length (varint_hi (drop_bit 7 v)) \<le> 9" "8 \<le> length (varint_hi (drop_bit 7 v))"
    using length_varint_hi [OF hi(1)] length_varint_hi_ge [OF hi(2)] by simp_all
  moreover have "length (varint_hi (drop_bit 7 v)) \<le> 8" if "unat v < 2 ^ 63"
    by (rule length_varint_hi) (use that in \<open>simp add: unat_drop_7 less_mult_imp_div_less\<close>)
  moreover have "Suc 8 \<le> length (varint_hi (drop_bit 7 v))" if "\<not> unat v < 2 ^ 63"
    by (rule length_varint_hi_ge) (use that in \<open>simp add: unat_drop_7 less_eq_div_iff_mult_less_eq\<close>)
  ultimately show ?thesis by (auto simp: VarintLen_hi)
qed

section \<open>The 32-bit reader\<close>

definition clamp_u32 :: "u64 \<Rightarrow> u32" where
  "clamp_u32 v = (if v \<le> 0xffffffff then ucast v else 0xffffffff)"

lemma varint2_value:
  "(push_bit 7 (ucast (p0 AND 0x7f)) OR ucast (p1 :: u8) :: u64) = ucast (push_bit 7 (ucast (p0 AND 0x7f)) OR ucast p1 :: u32)"
  by (rule u64_bitI) (simp add: bit_simps word_high_bit)

lemma varint3_value:
  "((push_bit 14 (ucast (p0 AND 0x7f)) OR push_bit 7 (ucast (p1 AND 0x7f))) OR ucast (p2 :: u8) :: u64) =
   ucast (push_bit 14 (ucast (p0 AND 0x7f)) OR push_bit 7 (ucast (p1 AND 0x7f)) OR ucast p2 :: u32)"
  by (rule u64_bitI) (simp add: bit_simps word_high_bit)

lemma clamp_u32_ucast: "clamp_u32 (ucast (x :: u32)) = x"
proof -
  have "uint x < 2 ^ 32" using uint_lt2p [of x] by simp
  moreover have "ucast (ucast x :: u64) = x" by (rule ucast_up_ucast_id) (simp add: is_up)
  ultimately show ?thesis by (simp add: clamp_u32_def word_le_def uint_up_ucast is_up)
qed

lemma clamp_u32_bind:
  "(r \<bind> (\<lambda>(v64, n). Some (if v64 AND 0xffffffff \<noteq> v64 then 0xffffffff else ucast v64, n))) =
   map_option (map_prod clamp_u32 id) r"
  by (cases r) (auto simp: clamp_u32_def and_u32_mask_iff)

lemma GetVarint32_Cons:
  assumes "bit b 7"
  shows "sqlite3GetVarint32 (b # p1 # r) = map_option (map_prod clamp_u32 id) (sqlite3GetVarint (b # p1 # r))"
proof (cases "bit p1 7")
  case False
  then show ?thesis using assms
    by (simp add: sqlite3GetVarint32_def get_eq_ref varint_ref.simps and_0x80_eq_0_u8 varint2_value
        clamp_u32_ucast)
next
  case True
  then show ?thesis using assms
    by (cases r) (simp_all add: sqlite3GetVarint32_def get_eq_ref varint_ref.simps and_0x80_eq_0_u8
        varint3_value clamp_u32_ucast clamp_u32_bind)
qed

section \<open>Four-byte big-endian integers\<close>

definition sqlite3Get4byte :: "bytes \<Rightarrow> u32 option" where
  "sqlite3Get4byte p = do {
     p0 \<leftarrow> byte_at p 0; p1 \<leftarrow> byte_at p 1; p2 \<leftarrow> byte_at p 2; p3 \<leftarrow> byte_at p 3;
     Some (push_bit 24 (ucast p0) OR push_bit 16 (ucast p1) OR push_bit 8 (ucast p2) OR ucast p3) }"

definition sqlite3Put4byte :: "u32 \<Rightarrow> bytes" where
  "sqlite3Put4byte v = [ucast (drop_bit 24 v), ucast (drop_bit 16 v), ucast (drop_bit 8 v), ucast v]"

lemma get4_put4: "sqlite3Get4byte (sqlite3Put4byte v @ rest) = Some v"
proof -
  have "push_bit 24 (ucast (ucast (drop_bit 24 v) :: u8)) OR push_bit 16 (ucast (ucast (drop_bit 16 v) :: u8)) OR
        push_bit 8 (ucast (ucast (drop_bit 8 v) :: u8)) OR ucast (ucast v :: u8) = v"
    by (rule u32_bitI) (simp add: bit_simps word_high_bit)
  then show ?thesis by (simp add: sqlite3Get4byte_def sqlite3Put4byte_def)
qed

lemma put4_get4:
  "sqlite3Get4byte [a, b, c, d] = Some v \<Longrightarrow> sqlite3Put4byte v = [a, b, c, d]"
  by (auto simp: sqlite3Get4byte_def sqlite3Put4byte_def intro!: bit_word_eqI)
     (auto simp: bit_simps word_high_bit)

interpretation be32: byte_codec sqlite3Put4byte "\<lambda>p. map_option (\<lambda>v. (v, 4)) (sqlite3Get4byte p)" "\<lambda>_. True"
  by unfold_locales (simp add: get4_put4, simp add: sqlite3Put4byte_def)

lemma VarintLen_small: "unat v < 2 ^ 56 \<Longrightarrow> sqlite3VarintLen v = length (sqlite3PutVarint v)"
proof -
  assume v: "unat v < 2 ^ 56"
  then have "length (varint_hi (drop_bit 7 v)) \<le> 7"
    by (intro length_varint_hi) (simp add: unat_drop_7 less_mult_imp_div_less)
  with v show ?thesis by (simp add: length_PutVarint_small VarintLen_hi)
qed

text \<open>The macro in front of the 32-bit reader, which reads one byte itself.\<close>

definition getVarint32 :: "bytes \<Rightarrow> (u32 \<times> nat) option" where
  "getVarint32 p = do {
     p0 \<leftarrow> byte_at p 0;
     if p0 < 0x80 then Some (ucast p0, 1) else sqlite3GetVarint32 p }"

lemma varint_ref_pos: "varint_ref k v p = Some (w, n) \<Longrightarrow> 0 < n"
  by (induction k v p rule: varint_ref.induct) (auto simp: varint_ref.simps split: if_splits)

lemma getVarint32_pos: "getVarint32 p = Some (v, n) \<Longrightarrow> 0 < n"
  by (auto simp: getVarint32_def sqlite3GetVarint32_def get_eq_ref bind_eq_Some_conv split: if_splits
      dest: varint_ref_pos)

lemma PutVarint_7bit: "unat v < 128 \<Longrightarrow> sqlite3PutVarint v = [ucast v]"
proof -
  assume v: "unat v < 128"
  have "v AND 0x7f = take_bit 7 v" by (simp add: take_bit_eq_mask mask_eq_exp_minus_1)
  also have "\<dots> = v" using v by (simp add: word_unat_eq_iff unsigned_take_bit_eq take_bit_nat_eq_self)
  finally show ?thesis using v by (simp add: sqlite3PutVarint_def word_le_nat_alt)
qed

lemma varint_hi_high: "x \<in> set (varint_hi v) \<Longrightarrow> bit x 7"
  by (induction v rule: varint_hi.induct) (subst (asm) varint_hi.simps, auto simp: bit_simps split: if_splits)

lemma word_high_bit_u8: "bit (b :: u8) 7 \<Longrightarrow> \<not> b < 0x80"
proof -
  assume "bit b 7"
  then have "bit (unat b) 7" by (simp add: bit_unsigned_iff)
  then have "odd (unat b div 2 ^ 7)" unfolding bit_iff_odd .
  moreover have "unat b < 128 \<Longrightarrow> unat b div 2 ^ 7 = 0" by simp
  ultimately have "128 \<le> unat b" by (metis even_zero not_less)
  then show ?thesis by (simp add: word_less_nat_alt)
qed

lemma get_put_varint32: "getVarint32 (sqlite3PutVarint (ucast v) @ rest) = Some (v, length (sqlite3PutVarint (ucast v)))"
proof (cases "unat v < 128")
  case True
  then have u: "unat (ucast v :: u64) = unat v" by (simp add: unsigned_ucast_eq take_bit_nat_eq_self)
  have "ucast (ucast v :: u64) = (ucast v :: u8)" by (rule bit_word_eqI) (auto simp: bit_simps)
  with True u have p: "sqlite3PutVarint (ucast v) = [ucast v :: u8]" by (simp add: PutVarint_7bit)
  have "unat (ucast v :: u8) = unat v" using True by (simp add: unsigned_ucast_eq unsigned_take_bit_eq take_bit_nat_eq_self)
  with True have "(ucast v :: u8) < 0x80" "ucast (ucast v :: u8) = v"
    by (simp_all add: word_less_nat_alt word_unat_eq_iff unsigned_ucast_eq unsigned_take_bit_eq take_bit_nat_eq_self)
  then show ?thesis by (simp add: p getVarint32_def)
next
  case False
  have "unat v < 2 ^ 32" using unsigned_less [of v] by simp
  then have u: "unat (ucast v :: u64) = unat v" "unat v < 2 ^ 32"
    by (simp_all add: unsigned_ucast_eq take_bit_nat_eq_self)
  then have small: "sqlite3PutVarint (ucast v) = varint_hi (drop_bit 7 (ucast v)) @ [ucast (ucast v AND 0x7f :: u64)]"
    by (intro sqlite3PutVarint_small) simp
  have "drop_bit 7 (ucast v :: u64) \<noteq> 0" using False u by (simp add: unat_drop_7 flip: unat_eq_zero)
  then obtain b bs where b: "varint_hi (drop_bit 7 (ucast v)) = b # bs"
    by (cases "varint_hi (drop_bit 7 (ucast v))") (auto simp: varint_hi.simps [of "drop_bit 7 (ucast v)"])
  have "bit b 7" using varint_hi_high [of b "drop_bit 7 (ucast v)"] by (simp add: b)
  then have nb: "\<not> b < 0x80" using word_high_bit_u8 by blast
  obtain p1 ps where ps: "bs @ [ucast (ucast v AND 0x7f :: u64)] @ rest = p1 # ps"
    by (cases "bs @ [ucast (ucast v AND 0x7f :: u64)] @ rest") auto
  have l: "sqlite3PutVarint (ucast v) @ rest = b # p1 # ps" unfolding small b using ps by simp
  have "getVarint32 (b # p1 # ps) = sqlite3GetVarint32 (b # p1 # ps)" using nb by (simp add: getVarint32_def)
  also have "\<dots> = map_option (map_prod clamp_u32 id) (sqlite3GetVarint (b # p1 # ps))"
    by (rule GetVarint32_Cons [OF \<open>bit b 7\<close>])
  also have "sqlite3GetVarint (b # p1 # ps) = Some (ucast v, length (sqlite3PutVarint (ucast v)))"
    using get_put_varint [of "ucast v" rest] unfolding l .
  finally show ?thesis unfolding l by (simp add: clamp_u32_ucast)
qed

section \<open>Properties\<close>

text \<open>
  C12. Reading a varint back: whatever bytes follow it, the unrolled decoder returns the 64-bit
  value that was written and consumes exactly the bytes that were written.
\<close>

theorem varint_roundtrip:
  "sqlite3GetVarint (sqlite3PutVarint v @ rest) = Some (v, length (sqlite3PutVarint v))"
  by (rule get_put_varint)

text \<open>
  C16. On every buffer, malformed or truncated ones included, the unrolled decoder of the source
  returns what the plain byte-by-byte decoder returns.
\<close>

theorem varint_decoder_equivalent: "sqlite3GetVarint p = varint_ref 0 0 p"
  by (rule get_eq_ref)

text \<open>
  C17. \<open>sqlite3VarintLen\<close> is the number of bytes \<open>sqlite3PutVarint\<close> writes (between one and nine)
  exactly for the values below \<open>2^63\<close>; above, it answers ten where nine bytes are written.
\<close>

theorem varint_length:
  "(sqlite3VarintLen v = length (sqlite3PutVarint v) \<longleftrightarrow> unat v < 2 ^ 63) \<and>
   length (sqlite3PutVarint v) \<in> {1..9}"
proof (cases "unat v < 2 ^ 56")
  case True
  then have "length (varint_hi (drop_bit 7 v)) \<le> 7"
    by (intro length_varint_hi) (simp add: unat_drop_7 less_mult_imp_div_less)
  with True show ?thesis by (simp add: length_PutVarint_small VarintLen_hi)
next
  case False
  then show ?thesis by (simp add: length_PutVarint_large VarintLen_large)
qed

text \<open>
  C18. The 32-bit reader agrees with the 64-bit one on the bytes it consumes and clamps values
  that do not fit to \<open>0xffffffff\<close>, on every buffer that does not start with a one-byte number.
\<close>

theorem varint32_clamps:
  assumes "byte_at p 0 = Some b" "b AND 0x80 \<noteq> 0"
  shows "sqlite3GetVarint32 p = map_option (map_prod clamp_u32 id) (sqlite3GetVarint p)"
proof -
  obtain q where p: "p = b # q" using assms(1) by (cases p) auto
  have b: "bit b 7" using assms(2) by (simp add: and_0x80_eq_0_u8)
  show ?thesis
  proof (cases q)
    case Nil
    then show ?thesis using b by (simp add: p sqlite3GetVarint32_def get_eq_ref varint_ref.simps)
  next
    case (Cons p1 r)
    then show ?thesis unfolding p by (simp only: GetVarint32_Cons [OF b])
  qed
qed

theorem varint32_clamps_witness:
  "sqlite3GetVarint32 [0x90, 0x80, 0x80, 0x80, 0x01] = Some (0xffffffff, 5)"
proof -
  have "sqlite3GetVarint [0x90, 0x80, 0x80, 0x80, 0x01] = Some (0x100000001, 5)"
    by (simp add: get_eq_ref varint_ref.simps)
  then show ?thesis
    by (subst varint32_clamps [of _ "0x90"]) (simp_all add: clamp_u32_def)
qed

end
