(* ===== verification/Rowset.thy ===== *)
theory Rowset
  imports Prelude "HOL-Library.Tree"
begin

text \<open>
  rowset.c: the set of 64-bit rowids behind the OR optimisation and foreign-key processing.
  Entries linked by their right pointers are lists, the entries used as tree nodes are the
  library's trees, and the forest is the list of its trees (the entry whose left pointer is null
  is \<open>Leaf\<close>). Memory comes from chunks of 42 entries; every allocation takes a
  boolean that says whether it succeeds, so out-of-memory is a branch of the model. The sorter's
  forty buckets are a list of length forty and running past the last one is \<open>None\<close>.
  Rowids are only compared, so they are integers.
\<close>

section \<open>Model\<close>

abbreviation ROWSET_ENTRY_PER_CHUNK :: nat where "ROWSET_ENTRY_PER_CHUNK \<equiv> 42"

record rowset =
  rsChunks :: nat
  rsEntry :: "int list"
  rsLast :: "int option"
  rsFresh :: nat
  rsForest :: "int tree list"
  rsSorted :: bool
  rsNext :: bool
  rsBatch :: int

definition sqlite3RowSetInit :: "nat \<Rightarrow> rowset" where
  "sqlite3RowSetInit nFresh = \<lparr>rsChunks = 0, rsEntry = [], rsLast = None, rsFresh = nFresh,
     rsForest = [], rsSorted = True, rsNext = False, rsBatch = 0\<rparr>"

definition sqlite3RowSetClear :: "rowset \<Rightarrow> rowset" where
  "sqlite3RowSetClear p = p\<lparr>rsChunks := 0, rsFresh := 0, rsEntry := [], rsLast := None,
     rsForest := [], rsSorted := True, rsNext := False\<rparr>"

definition rowSetEntryAlloc :: "bool \<Rightarrow> rowset \<Rightarrow> rowset option" where
  "rowSetEntryAlloc mem_ok p =
     (if rsFresh p = 0
      then if \<not> mem_ok then None
           else Some (p\<lparr>rsChunks := rsChunks p + 1, rsFresh := ROWSET_ENTRY_PER_CHUNK - 1\<rparr>)
      else Some (p\<lparr>rsFresh := rsFresh p - 1\<rparr>))"

definition sqlite3RowSetInsert :: "bool \<Rightarrow> rowset \<Rightarrow> int \<Rightarrow> rowset" where
  "sqlite3RowSetInsert mem_ok p rowid =
     (case rowSetEntryAlloc mem_ok p of
        None \<Rightarrow> p
      | Some p \<Rightarrow>
          (case rsLast p of
             Some v \<Rightarrow> p\<lparr>rsSorted := (if rowid \<le> v then False else rsSorted p),
                        rsEntry := rsEntry p @ [rowid], rsLast := Some rowid\<rparr>
           | None \<Rightarrow> p\<lparr>rsEntry := [rowid], rsLast := Some rowid\<rparr>))"

fun rowSetEntryMerge :: "int list \<Rightarrow> int list \<Rightarrow> int list" where
  "rowSetEntryMerge [] bs = bs"
| "rowSetEntryMerge as [] = as"
| "rowSetEntryMerge (a # as) (b # bs) =
     (if a \<le> b
      then (if a < b then [a] else []) @ (if as = [] then b # bs else rowSetEntryMerge as (b # bs))
      else b # (if bs = [] then a # as else rowSetEntryMerge (a # as) bs))"

fun rowSetBucketAdd :: "int list list \<Rightarrow> int list \<Rightarrow> int list list option" where
  "rowSetBucketAdd [] p = None"
| "rowSetBucketAdd (b # bs) p =
     (if b \<noteq> [] then map_option ((#) []) (rowSetBucketAdd bs (rowSetEntryMerge b p))
      else Some (p # bs))"

fun rowSetBucketAll :: "int list list \<Rightarrow> int list \<Rightarrow> int list list option" where
  "rowSetBucketAll bs [] = Some bs"
| "rowSetBucketAll bs (v # vs) =
     (case rowSetBucketAdd bs [v] of None \<Rightarrow> None | Some bs' \<Rightarrow> rowSetBucketAll bs' vs)"

fun rowSetBucketFold :: "int list \<Rightarrow> int list list \<Rightarrow> int list" where
  "rowSetBucketFold p [] = p"
| "rowSetBucketFold p (b # bs) =
     (if b = [] then rowSetBucketFold p bs
      else rowSetBucketFold (if p \<noteq> [] then rowSetEntryMerge p b else b) bs)"

definition rowSetEntrySort :: "int list \<Rightarrow> int list option" where
  "rowSetEntrySort xs =
     (case rowSetBucketAll (replicate 40 []) xs of
        None \<Rightarrow> None
      | Some bs \<Rightarrow> Some (rowSetBucketFold (hd bs) (tl bs)))"

fun rowSetTreeToList :: "int tree \<Rightarrow> int list" where
  "rowSetTreeToList Leaf = []"
| "rowSetTreeToList (Node l v r) =
     (if l \<noteq> Leaf then rowSetTreeToList l @ [v] else [v]) @ (if r \<noteq> Leaf then rowSetTreeToList r else [])"

fun rowSetNDeepTree :: "int list \<Rightarrow> nat \<Rightarrow> int tree \<times> int list" where
  "rowSetNDeepTree [] d = (Leaf, [])"
| "rowSetNDeepTree (x # xs) 0 = (Node Leaf x Leaf, xs)"
| "rowSetNDeepTree (x # xs) (Suc 0) = (Node Leaf x Leaf, xs)"
| "rowSetNDeepTree (x # xs) (Suc (Suc d)) =
     (case rowSetNDeepTree (x # xs) (Suc d) of
        (pLeft, []) \<Rightarrow> (pLeft, [])
      | (pLeft, y # ys) \<Rightarrow>
          (case rowSetNDeepTree ys (Suc d) of (pRight, rest) \<Rightarrow> (Node pLeft y pRight, rest)))"

lemma rowSetNDeepTree_inorder:
  "rowSetNDeepTree xs d = (t, rest) \<Longrightarrow> inorder t @ rest = xs"
  by (induction xs d arbitrary: t rest rule: rowSetNDeepTree.induct)
     (auto split: prod.splits list.splits)

lemma rowSetNDeepTree_length:
  "rowSetNDeepTree xs d = (t, rest) \<Longrightarrow> length rest \<le> length xs"
  using rowSetNDeepTree_inorder [of xs d t rest] by (metis length_append le_add2)

function rowSetListToTree_loop :: "int tree \<Rightarrow> int list \<Rightarrow> nat \<Rightarrow> int tree" where
  "rowSetListToTree_loop p [] d = p"
| "rowSetListToTree_loop p (x # xs) d =
     (case rowSetNDeepTree xs d of (r, rest) \<Rightarrow> rowSetListToTree_loop (Node p x r) rest (d + 1))"
  by pat_completeness auto
termination
  by (relation "measure (\<lambda>(p, xs, d). length xs)")
     (auto simp: less_Suc_eq_le dest!: sym [of "(_, _)"] intro: rowSetNDeepTree_length)

definition rowSetListToTree :: "int list \<Rightarrow> int tree" where
  "rowSetListToTree xs =
     (case xs of [] \<Rightarrow> Leaf | x # xs \<Rightarrow> rowSetListToTree_loop (Node Leaf x Leaf) xs 1)"

definition sqlite3RowSetNext :: "rowset \<Rightarrow> (rowset \<times> int option) option" where
  "sqlite3RowSetNext p = do {
     p \<leftarrow> (if \<not> rsNext p
          then do {
            es \<leftarrow> (if \<not> rsSorted p then rowSetEntrySort (rsEntry p) else Some (rsEntry p));
            Some (p\<lparr>rsEntry := es, rsSorted := True, rsNext := True\<rparr>) }
          else Some p);
     Some (case rsEntry p of
             [] \<Rightarrow> (p, None)
           | v # vs \<Rightarrow> (let p = p\<lparr>rsEntry := vs\<rparr>
                       in (if vs = [] then sqlite3RowSetClear p else p, Some v))) }"

fun rowSetForestAdd :: "int tree list \<Rightarrow> int list \<Rightarrow> int tree list \<times> int list option" where
  "rowSetForestAdd [] p = ([], Some p)"
| "rowSetForestAdd (t # ts) p =
     (if t = Leaf then (rowSetListToTree p # ts, None)
      else case rowSetForestAdd ts (rowSetEntryMerge (rowSetTreeToList t) p) of
             (ts', r) \<Rightarrow> (Leaf # ts', r))"

fun rowSetTreeFind :: "int tree \<Rightarrow> int \<Rightarrow> bool" where
  "rowSetTreeFind Leaf i = False"
| "rowSetTreeFind (Node l v r) i =
     (if v < i then rowSetTreeFind r i else if v > i then rowSetTreeFind l i else True)"

definition rowSetNewBatch :: "bool \<Rightarrow> rowset \<Rightarrow> rowset option" where
  "rowSetNewBatch mem_ok p =
     (if rsEntry p = [] then Some p
      else do {
        es \<leftarrow> (if \<not> rsSorted p then rowSetEntrySort (rsEntry p) else Some (rsEntry p));
        let (forest, left) = rowSetForestAdd (rsForest p) es;
        let p = p\<lparr>rsForest := forest\<rparr>;
        let p = (case left of
                   None \<Rightarrow> p
                 | Some es \<Rightarrow>
                     (case rowSetEntryAlloc mem_ok p of
                        None \<Rightarrow> p
                      | Some p \<Rightarrow> p\<lparr>rsForest := forest @ [rowSetListToTree es]\<rparr>));
        Some (p\<lparr>rsEntry := [], rsLast := None, rsSorted := True\<rparr>) })"

definition sqlite3RowSetTest :: "bool \<Rightarrow> rowset \<Rightarrow> int \<Rightarrow> int \<Rightarrow> (rowset \<times> bool) option" where
  "sqlite3RowSetTest mem_ok p iBatch iRowid = do {
     p \<leftarrow> (if iBatch \<noteq> rsBatch p
          then map_option (\<lambda>p. p\<lparr>rsBatch := iBatch\<rparr>) (rowSetNewBatch mem_ok p)
          else Some p);
     Some (p, list_ex (\<lambda>t. rowSetTreeFind t iRowid) (rsForest p)) }"

section \<open>Merging and sorting\<close>

abbreviation strict :: "int list \<Rightarrow> bool" where "strict \<equiv> sorted_wrt (<)"

lemma merge_Cons_Cons:
  "rowSetEntryMerge (a # as) (b # bs) =
     (if a < b then a # rowSetEntryMerge as (b # bs)
      else if a = b then rowSetEntryMerge as (b # bs) else b # rowSetEntryMerge (a # as) bs)"
  by (cases as; cases bs) auto

declare rowSetEntryMerge.simps(3) [simp del]

lemma merge_induct [case_names Nil1 Nil2 Cons]:
  assumes "\<And>bs. P [] bs" "\<And>a as. P (a # as) []"
    and "\<And>a as b bs. P as (b # bs) \<Longrightarrow> P (a # as) bs \<Longrightarrow> P (a # as) (b # bs)"
  shows "P as bs"
proof (induction "length as + length bs" arbitrary: as bs rule: less_induct)
  case less
  then show ?case using assms by (cases as; cases bs) auto
qed

lemma set_merge: "set (rowSetEntryMerge as bs) = set as \<union> set bs"
  by (induction as bs rule: merge_induct) (auto simp: merge_Cons_Cons)

lemma strict_merge: "strict as \<Longrightarrow> strict bs \<Longrightarrow> strict (rowSetEntryMerge as bs)"
  by (induction as bs rule: merge_induct) (auto simp: merge_Cons_Cons set_merge)

lemma merge_eq_Nil: "rowSetEntryMerge as bs = [] \<longleftrightarrow> as = [] \<and> bs = []"
  using set_merge [of as bs] by (metis Un_empty set_empty)

fun bucket_val :: "int list list \<Rightarrow> nat" where
  "bucket_val [] = 0"
| "bucket_val (b # bs) = (if b = [] then 0 else 1) + 2 * bucket_val bs"

lemma bucket_val_empty: "bucket_val (replicate n []) = 0"
  by (induction n) auto

lemma bucket_val_max: "bucket_val bs < 2 ^ length bs"
  by (induction bs) auto

abbreviation bucket_set :: "int list list \<Rightarrow> int set" where
  "bucket_set bs \<equiv> \<Union> (set ` set bs)"

lemma rowSetBucketAdd_Some:
  assumes "Suc (bucket_val bs) < 2 ^ length bs" "p \<noteq> []" "strict p" "list_all strict bs"
  shows "\<exists>bs'. rowSetBucketAdd bs p = Some bs' \<and> length bs' = length bs \<and>
     bucket_val bs' = Suc (bucket_val bs) \<and> list_all strict bs' \<and>
     bucket_set bs' = set p \<union> bucket_set bs"
  using assms
proof (induction bs arbitrary: p)
  case (Cons b bs)
  show ?case
  proof (cases "b = []")
    case False
    have "\<exists>bs'. rowSetBucketAdd bs (rowSetEntryMerge b p) = Some bs' \<and> length bs' = length bs \<and>
     bucket_val bs' = Suc (bucket_val bs) \<and> list_all strict bs' \<and>
     bucket_set bs' = set (rowSetEntryMerge b p) \<union> bucket_set bs"
      using Cons.prems False by (intro Cons.IH) (auto simp: merge_eq_Nil strict_merge)
    with False show ?thesis by (auto simp: set_merge)
  qed (use Cons.prems in auto)
qed simp

lemma rowSetBucketAll_Some:
  assumes "bucket_val bs + length xs < 2 ^ length bs" "list_all strict bs"
  shows "\<exists>bs'. rowSetBucketAll bs xs = Some bs' \<and> length bs' = length bs \<and>
     list_all strict bs' \<and> bucket_set bs' = set xs \<union> bucket_set bs"
  using assms
proof (induction xs arbitrary: bs)
  case (Cons x xs)
  from rowSetBucketAdd_Some [of bs "[x]"] Cons.prems
  obtain bs1 where 1: "rowSetBucketAdd bs [x] = Some bs1" "length bs1 = length bs"
    "bucket_val bs1 = Suc (bucket_val bs)" "list_all strict bs1" "bucket_set bs1 = {x} \<union> bucket_set bs"
    by auto
  with Cons.IH [of bs1] Cons.prems show ?case by auto
qed simp

lemma rowSetBucketFold_correct:
  "strict p \<Longrightarrow> list_all strict bs \<Longrightarrow>
   strict (rowSetBucketFold p bs) \<and> set (rowSetBucketFold p bs) = set p \<union> bucket_set bs"
  by (induction p bs rule: rowSetBucketFold.induct) (auto simp: set_merge strict_merge)

lemma rowSetEntrySort_correct:
  assumes "length xs < 2 ^ 40"
  shows "\<exists>ys. rowSetEntrySort xs = Some ys \<and> strict ys \<and> set ys = set xs"
proof -
  have "bucket_val (replicate 40 []) = 0" by (rule bucket_val_empty)
  with assms rowSetBucketAll_Some [of "replicate 40 []" xs]
  obtain bs where bs: "rowSetBucketAll (replicate 40 []) xs = Some bs" "length bs = 40"
    "list_all strict bs" "bucket_set bs = set xs"
    by (auto simp: list_all_iff)
  then obtain b bs' where "bs = b # bs'" by (cases bs) auto
  with bs rowSetBucketFold_correct [of b bs'] show ?thesis
    by (auto simp: rowSetEntrySort_def)
qed

section \<open>Trees\<close>

lemma rowSetTreeToList_inorder: "rowSetTreeToList t = inorder t"
  by (induction t) auto

lemma rowSetListToTree_loop_inorder:
  "inorder (rowSetListToTree_loop p xs d) = inorder p @ xs"
  by (induction p xs d rule: rowSetListToTree_loop.induct)
     (auto split: prod.splits dest: rowSetNDeepTree_inorder)

lemma rowSetListToTree_inorder: "inorder (rowSetListToTree xs) = xs"
  by (auto simp: rowSetListToTree_def rowSetListToTree_loop_inorder split: list.splits)

lemma rowSetTreeFind_iff: "bst t \<Longrightarrow> rowSetTreeFind t i \<longleftrightarrow> i \<in> set_tree t"
  by (induction t) auto

lemma bst_rowSetListToTree: "strict xs \<Longrightarrow> bst (rowSetListToTree xs)"
  by (simp add: bst_iff_sorted_wrt_less rowSetListToTree_inorder)

lemma set_tree_rowSetListToTree: "set_tree (rowSetListToTree xs) = set xs"
  by (metis set_inorder rowSetListToTree_inorder)

lemma strict_rowSetTreeToList: "bst t \<Longrightarrow> strict (rowSetTreeToList t)"
  by (simp add: bst_iff_sorted_wrt_less rowSetTreeToList_inorder)

lemma set_rowSetTreeToList: "set (rowSetTreeToList t) = set_tree t"
  by (simp add: rowSetTreeToList_inorder)

section \<open>The abstract set\<close>

abbreviation forest_set :: "int tree list \<Rightarrow> int set" where
  "forest_set ts \<equiv> \<Union> (set_tree ` set ts)"

lemma rowSetForestAdd_correct:
  assumes "strict p" "list_all bst ts" "rowSetForestAdd ts p = (ts', r)"
  shows "list_all bst ts' \<and>
    (case r of None \<Rightarrow> forest_set ts' = forest_set ts \<union> set p
     | Some q \<Rightarrow> strict q \<and> forest_set ts' \<union> set q = forest_set ts \<union> set p)"
  using assms
proof (induction ts p arbitrary: ts' r rule: rowSetForestAdd.induct)
  case (2 t ts p)
  show ?case
  proof (cases "t = Leaf")
    case True
    with "2.prems" show ?thesis
      by (auto simp: bst_rowSetListToTree set_tree_rowSetListToTree)
  next
    case False
    obtain ts1 r1 where 1: "rowSetForestAdd ts (rowSetEntryMerge (rowSetTreeToList t) p) = (ts1, r1)"
      by force
    with "2.prems" False have eq: "ts' = Leaf # ts1" "r = r1" by auto
    have "strict (rowSetEntryMerge (rowSetTreeToList t) p)"
      using "2.prems" by (simp add: strict_merge strict_rowSetTreeToList)
    from "2.IH" [OF False this _ 1] "2.prems" show ?thesis
      by (auto simp: eq set_merge set_rowSetTreeToList split: option.splits)
  qed
qed simp

text \<open>
  What the row set promises: \<open>visible\<close> are the rowids of the batches before the
  current one, \<open>pending\<close> those of the current one.
\<close>

record rowset_spec =
  visible :: "int set"
  pending :: "int set"
  batch :: int

datatype rowset_op = RsInsert int | RsTest int int

fun spec_step :: "rowset_spec \<Rightarrow> rowset_op \<Rightarrow> rowset_spec \<times> bool" where
  "spec_step s (RsInsert v) = (s\<lparr>pending := insert v (pending s)\<rparr>, False)"
| "spec_step s (RsTest b v) =
     (let s = (if b \<noteq> batch s
               then \<lparr>visible = visible s \<union> pending s, pending = {}, batch = b\<rparr> else s)
      in (s, v \<in> visible s))"

fun rowset_step :: "bool \<Rightarrow> rowset \<Rightarrow> rowset_op \<Rightarrow> (rowset \<times> bool) option" where
  "rowset_step mem_ok p (RsInsert v) = Some (sqlite3RowSetInsert mem_ok p v, False)"
| "rowset_step mem_ok p (RsTest b v) = sqlite3RowSetTest mem_ok p b v"

definition rowset_abs :: "rowset \<Rightarrow> rowset_spec" where
  "rowset_abs p = \<lparr>visible = forest_set (rsForest p), pending = set (rsEntry p), batch = rsBatch p\<rparr>"

definition rowset_inv :: "rowset \<Rightarrow> bool" where
  "rowset_inv p \<longleftrightarrow> \<not> rsNext p \<and>
     rsLast p = (if rsEntry p = [] then None else Some (last (rsEntry p))) \<and>
     (rsSorted p \<longrightarrow> strict (rsEntry p)) \<and> list_all bst (rsForest p)"

lemma rowset_inv_init: "rowset_inv (sqlite3RowSetInit n)"
  by (simp add: rowset_inv_def sqlite3RowSetInit_def)

lemma rowset_abs_init: "rowset_abs (sqlite3RowSetInit n) = \<lparr>visible = {}, pending = {}, batch = 0\<rparr>"
  by (simp add: rowset_abs_def sqlite3RowSetInit_def)

lemma strict_le_last: "strict xs \<Longrightarrow> y \<in> set xs \<Longrightarrow> y \<le> last xs"
  by (induction xs) (auto intro: order_less_imp_le)

lemma strict_snoc: "strict (xs @ [x]) \<longleftrightarrow> strict xs \<and> (xs \<noteq> [] \<longrightarrow> last xs < x)"
  using strict_le_last [of xs] by (cases "xs = []") (auto simp: sorted_wrt_append intro: le_less_trans)

lemma rowset_entries_sorted:
  assumes "rowset_inv p" "length (rsEntry p) < 2 ^ 40"
  obtains es where "(if \<not> rsSorted p then rowSetEntrySort (rsEntry p) else Some (rsEntry p)) = Some es"
    "strict es" "set es = set (rsEntry p)"
proof (cases "rsSorted p")
  case True
  with assms(1) that show ?thesis by (auto simp: rowset_inv_def)
next
  case False
  with rowSetEntrySort_correct [OF assms(2)] that show ?thesis by auto
qed

lemma rowSetEntryAlloc_frame:
  "rowSetEntryAlloc m p = Some q \<Longrightarrow> rsEntry q = rsEntry p \<and> rsLast q = rsLast p \<and>
     rsForest q = rsForest p \<and> rsSorted q = rsSorted p \<and> rsNext q = rsNext p \<and> rsBatch q = rsBatch p"
  by (auto simp: rowSetEntryAlloc_def split: if_splits)

lemma rowSetEntryAlloc_ok: "\<exists>q. rowSetEntryAlloc True p = Some q"
  by (simp add: rowSetEntryAlloc_def)

lemma rowset_inv_insert: "rowset_inv p \<Longrightarrow> rowset_inv (sqlite3RowSetInsert m p v)"
  by (auto simp: rowset_inv_def sqlite3RowSetInsert_def strict_snoc dest!: rowSetEntryAlloc_frame
      split: option.splits if_splits)

lemma length_insert: "rowset_inv p \<Longrightarrow> length (rsEntry (sqlite3RowSetInsert m p v)) \<le> Suc (length (rsEntry p))"
  by (auto simp: rowset_inv_def sqlite3RowSetInsert_def dest!: rowSetEntryAlloc_frame
      split: option.splits if_splits)

lemma rowset_abs_insert:
  "rowset_inv p \<Longrightarrow> rowset_abs (sqlite3RowSetInsert True p v) = fst (spec_step (rowset_abs p) (RsInsert v))"
  using rowSetEntryAlloc_ok [of p]
  by (auto simp: rowset_inv_def rowset_abs_def sqlite3RowSetInsert_def dest!: rowSetEntryAlloc_frame
      split: option.splits if_splits)

lemma rowSetNewBatch_correct:
  assumes "rowset_inv p" "length (rsEntry p) < 2 ^ 40"
  shows "\<exists>q. rowSetNewBatch m p = Some q \<and> rowset_inv q \<and> rsEntry q = [] \<and> rsBatch q = rsBatch p \<and>
    forest_set (rsForest q) \<subseteq> forest_set (rsForest p) \<union> set (rsEntry p) \<and>
    (m \<longrightarrow> forest_set (rsForest q) = forest_set (rsForest p) \<union> set (rsEntry p))"
proof (cases "rsEntry p = []")
  case True
  with assms show ?thesis by (auto simp: rowSetNewBatch_def)
next
  case False
  obtain es where es: "(if \<not> rsSorted p then rowSetEntrySort (rsEntry p) else Some (rsEntry p)) = Some es"
     "strict es" "set es = set (rsEntry p)"
    using rowset_entries_sorted [OF assms(1,2)] .
  obtain ts r where ts: "rowSetForestAdd (rsForest p) es = (ts, r)" by force
  have bst: "list_all bst (rsForest p)" and nx: "\<not> rsNext p"
    using assms(1) by (simp_all add: rowset_inv_def)
  note ts' = rowSetForestAdd_correct [OF es(2) bst ts]
  show ?thesis
  proof (cases r)
    case None
    then show ?thesis using False ts' nx
      by (simp add: rowSetNewBatch_def es(1,3) ts rowset_inv_def)
  next
    case (Some q)
    show ?thesis
    proof (cases "rowSetEntryAlloc m (p\<lparr>rsForest := ts\<rparr>)")
      case None
      moreover have "\<not> m" using None rowSetEntryAlloc_ok [of "p\<lparr>rsForest := ts\<rparr>"] by (cases m) auto
      ultimately show ?thesis using False ts' nx Some
        by (auto simp: rowSetNewBatch_def es(1,3) ts rowset_inv_def)
    next
      case (Some p')
      with rowSetEntryAlloc_frame [OF Some] \<open>r = Some q\<close> show ?thesis using False ts' nx
        by (auto simp: rowSetNewBatch_def es(1,3) ts rowset_inv_def bst_rowSetListToTree
            set_tree_rowSetListToTree)
    qed
  qed
qed

lemma rowSetTreeFind_forest:
  "list_all bst ts \<Longrightarrow> list_ex (\<lambda>t. rowSetTreeFind t v) ts \<longleftrightarrow> v \<in> forest_set ts"
  by (auto simp: list_ex_iff list_all_iff rowSetTreeFind_iff)

lemma sqlite3RowSetTest_correct:
  assumes "rowset_inv p" "length (rsEntry p) < 2 ^ 40"
  shows "\<exists>q. sqlite3RowSetTest True p b v = Some (q, snd (spec_step (rowset_abs p) (RsTest b v))) \<and>
    rowset_inv q \<and> rowset_abs q = fst (spec_step (rowset_abs p) (RsTest b v)) \<and>
    length (rsEntry q) \<le> length (rsEntry p)"
proof (cases "b = rsBatch p")
  case True
  with assms(1) show ?thesis
    by (auto simp: sqlite3RowSetTest_def rowset_abs_def rowset_inv_def rowSetTreeFind_forest)
next
  case False
  from rowSetNewBatch_correct [OF assms, of True]
  obtain q where q: "rowSetNewBatch True p = Some q" "rowset_inv q" "rsEntry q = []"
    "forest_set (rsForest q) = forest_set (rsForest p) \<union> set (rsEntry p)" by auto
  then have "list_all bst (rsForest q)" by (simp add: rowset_inv_def)
  with q False show ?thesis
    by (auto simp: sqlite3RowSetTest_def rowset_abs_def rowset_inv_def rowSetTreeFind_forest)
qed

lemma rowset_step_correct:
  assumes "rowset_inv p" "length (rsEntry p) < 2 ^ 40"
  shows "\<exists>q. rowset_step True p x = Some (q, snd (spec_step (rowset_abs p) x)) \<and> rowset_inv q \<and>
    rowset_abs q = fst (spec_step (rowset_abs p) x) \<and> length (rsEntry q) \<le> Suc (length (rsEntry p))"
proof (cases x)
  case (RsInsert v)
  then show ?thesis
    using assms rowset_inv_insert length_insert rowset_abs_insert by simp
next
  case (RsTest b v)
  from sqlite3RowSetTest_correct [OF assms, of b v] show ?thesis
    unfolding RsTest by (auto simp del: spec_step.simps)
qed

text \<open>The row set provides the interface: at most 2^40 operations, the width of the sorter.\<close>

interpretation rowset: bounded_simulation "rowset_step True" spec_step rowset_abs rowset_inv
  "\<lambda>x. True" "\<lambda>p. length (rsEntry p)" "2 ^ 40"
  by unfold_locales (rule rowset_step_correct)

lemma rowset_insert_all:
  "rowset_inv (fold (\<lambda>v p. sqlite3RowSetInsert True p v) vs (sqlite3RowSetInit k)) \<and>
   length (rsEntry (fold (\<lambda>v p. sqlite3RowSetInsert True p v) vs (sqlite3RowSetInit k))) \<le> length vs \<and>
   set (rsEntry (fold (\<lambda>v p. sqlite3RowSetInsert True p v) vs (sqlite3RowSetInit k))) = set vs"
proof (induction vs rule: rev_induct)
  case Nil
  then show ?case by (simp add: rowset_inv_init) (simp add: sqlite3RowSetInit_def)
next
  case (snoc v vs)
  let ?p = "fold (\<lambda>v p. sqlite3RowSetInsert True p v) vs (sqlite3RowSetInit k)"
  have "set (rsEntry (sqlite3RowSetInsert True ?p v)) = insert v (set (rsEntry ?p))"
    using rowset_abs_insert [of ?p v] snoc by (simp add: rowset_abs_def)
  with snoc show ?case using rowset_inv_insert [of ?p True v] length_insert [of ?p True v] by simp
qed

section \<open>Extraction in order\<close>

fun rowset_drain :: "nat \<Rightarrow> rowset \<Rightarrow> int list option" where
  "rowset_drain 0 p = Some []"
| "rowset_drain (Suc n) p =
     (case sqlite3RowSetNext p of
        None \<Rightarrow> None
      | Some (q, None) \<Rightarrow> Some []
      | Some (q, Some v) \<Rightarrow> map_option ((#) v) (rowset_drain n q))"

lemma drain_after_next:
  assumes "rsNext p" "length (rsEntry p) < n"
  shows "rowset_drain n p = Some (rsEntry p)"
  using assms
proof (induction n arbitrary: p)
  case (Suc n)
  show ?case
  proof (cases "rsEntry p")
    case Nil
    with Suc.prems show ?thesis by (simp add: sqlite3RowSetNext_def)
  next
    case (Cons v vs)
    show ?thesis
    proof (cases "vs = []")
      case True
      with Suc.prems Cons show ?thesis
        by (cases n) (simp_all add: sqlite3RowSetNext_def sqlite3RowSetClear_def)
    next
      case False
      with Suc Cons show ?thesis by (simp add: sqlite3RowSetNext_def)
    qed
  qed
qed simp

lemma rowset_drain_correct:
  assumes "rowset_inv p" "length (rsEntry p) < 2 ^ 40" "card (set (rsEntry p)) < n"
  shows "rowset_drain n p = Some (sorted_list_of_set (set (rsEntry p)))"
proof -
  obtain es where es: "(if \<not> rsSorted p then rowSetEntrySort (rsEntry p) else Some (rsEntry p)) = Some es"
     "strict es" "set es = set (rsEntry p)"
    using rowset_entries_sorted [OF assms(1,2)] .
  have sl: "sorted_list_of_set (set (rsEntry p)) = es"
    using es(2) unfolding es(3) [symmetric] by (simp add: sorted_list_of_set.idem_if_sorted_distinct strict_sorted_iff)
  have "length es < n" using assms(3) es(2,3) by (metis distinct_card strict_sorted_iff)
  obtain n' where "n = Suc n'" using assms(3) by (cases n) auto
  let ?p = "p\<lparr>rsEntry := es, rsSorted := True, rsNext := True\<rparr>"
  have "\<not> rsNext p" using assms(1) by (simp add: rowset_inv_def)
  then have "sqlite3RowSetNext p = sqlite3RowSetNext ?p"
    by (simp add: sqlite3RowSetNext_def es(1))
  then have "rowset_drain n p = rowset_drain n ?p"
    by (simp add: \<open>n = Suc n'\<close>)
  also have "\<dots> = Some es" using drain_after_next [of ?p n] \<open>length es < n\<close> by simp
  finally show ?thesis by (simp add: sl)
qed

section \<open>Allocation failures\<close>

text \<open>A failed allocation may lose elements, but what is in the set was inserted.\<close>

fun rowset_run_oom :: "rowset \<Rightarrow> (bool \<times> rowset_op) list \<Rightarrow> rowset option" where
  "rowset_run_oom p [] = Some p"
| "rowset_run_oom p ((m, x) # xs) =
     (case rowset_step m p x of None \<Rightarrow> None | Some (q, r) \<Rightarrow> rowset_run_oom q xs)"

fun inserted :: "(bool \<times> rowset_op) list \<Rightarrow> int set" where
  "inserted [] = {}"
| "inserted ((m, RsInsert v) # xs) = insert v (inserted xs)"
| "inserted ((m, RsTest b v) # xs) = inserted xs"

definition rowset_elems :: "rowset \<Rightarrow> int set" where
  "rowset_elems p = forest_set (rsForest p) \<union> set (rsEntry p)"

lemma rowset_step_oom:
  assumes "rowset_inv p" "length (rsEntry p) < 2 ^ 40"
  shows "\<exists>q r. rowset_step m p x = Some (q, r) \<and> rowset_inv q \<and> length (rsEntry q) \<le> Suc (length (rsEntry p)) \<and>
    rowset_elems q \<subseteq> rowset_elems p \<union> inserted [(m, x)]"
proof (cases x)
  case (RsInsert v)
  have "rowset_elems (sqlite3RowSetInsert m p v) \<subseteq> insert v (rowset_elems p)"
    using assms(1) by (auto simp: sqlite3RowSetInsert_def rowset_inv_def rowset_elems_def
        dest!: rowSetEntryAlloc_frame split: option.splits if_splits)
  then show ?thesis unfolding RsInsert using assms(1) rowset_inv_insert length_insert by auto
next
  case (RsTest b v)
  from rowSetNewBatch_correct [OF assms, of m]
  obtain q where q: "rowSetNewBatch m p = Some q" "rowset_inv q" "rsEntry q = []"
    "rowset_elems q \<subseteq> rowset_elems p" by (auto simp: rowset_elems_def)
  with RsTest assms(1) show ?thesis
    by (cases "b = rsBatch p") (auto simp: sqlite3RowSetTest_def rowset_inv_def rowset_elems_def)
qed

lemma rowset_run_oom_correct:
  assumes "rowset_inv p" "length (rsEntry p) + length xs \<le> 2 ^ 40"
  shows "\<exists>q. rowset_run_oom p xs = Some q \<and> rowset_inv q \<and>
    length (rsEntry q) \<le> length (rsEntry p) + length xs \<and>
    rowset_elems q \<subseteq> rowset_elems p \<union> inserted xs"
  using assms
proof (induction xs arbitrary: p)
  case (Cons a xs)
  obtain m x where a: "a = (m, x)" by force
  have "length (rsEntry p) < 2 ^ 40" using Cons.prems(2) by simp
  from rowset_step_oom [OF Cons.prems(1) this, of m x]
  obtain q r where q: "rowset_step m p x = Some (q, r)" "rowset_inv q"
    "length (rsEntry q) \<le> Suc (length (rsEntry p))" "rowset_elems q \<subseteq> rowset_elems p \<union> inserted [(m, x)]" by blast
  have ins: "inserted (a # xs) = inserted [(m, x)] \<union> inserted xs" by (cases x) (simp_all add: a)
  from Cons.IH [OF q(2)] q(3) Cons.prems(2)
  obtain q' where "rowset_run_oom q xs = Some q'" "rowset_inv q'"
    "length (rsEntry q') \<le> length (rsEntry q) + length xs"
    "rowset_elems q' \<subseteq> rowset_elems q \<union> inserted xs" by auto
  with q show ?case unfolding ins by (auto simp: a)
qed simp

lemma rowset_oom_test:
  assumes "length ops < 2 ^ 40"
    and "rowset_run_oom (sqlite3RowSetInit n) ops = Some p"
    and "sqlite3RowSetTest m p b v = Some (q, True)"
  shows "v \<in> inserted ops"
proof -
  have 0: "rowset_elems (sqlite3RowSetInit n) = {}" "rsEntry (sqlite3RowSetInit n) = []"
    by (simp_all add: rowset_elems_def sqlite3RowSetInit_def)
  have p: "rowset_inv p" "length (rsEntry p) < 2 ^ 40" "rowset_elems p \<subseteq> inserted ops"
    using rowset_run_oom_correct [OF rowset_inv_init, of n ops] assms(1,2) by (auto simp: 0)
  from rowset_step_oom [OF p(1,2), of m "RsTest b v"] assms(3)
  have q: "rowset_inv q" "rowset_elems q \<subseteq> inserted ops" using p(3) by auto
  have "list_ex (\<lambda>t. rowSetTreeFind t v) (rsForest q)"
    using assms(3) by (auto simp: sqlite3RowSetTest_def bind_eq_Some_conv split: if_splits)
  with q show ?thesis
    by (auto simp: rowset_inv_def rowSetTreeFind_forest rowset_elems_def)
qed

section \<open>Balance\<close>

lemma rowSetNDeepTree_height:
  "rowSetNDeepTree xs d = (t, rest) \<Longrightarrow> 0 < d \<Longrightarrow>
   height t \<le> d \<and> Suc (size t) \<le> 2 ^ d \<and> (rest \<noteq> [] \<longrightarrow> Suc (size t) = 2 ^ d) \<and>
   (t \<noteq> Leaf \<longrightarrow> 2 ^ (height t - 1) \<le> size t)"
proof (induction xs d arbitrary: t rest rule: rowSetNDeepTree.induct)
  case (4 x xs d)
  obtain l r1 where l: "rowSetNDeepTree (x # xs) (Suc d) = (l, r1)" by force
  note IH1 = "4.IH"(1) [OF l]
  show ?case
  proof (cases r1)
    case Nil
    with "4.prems" l IH1 show ?thesis by auto
  next
    case (Cons y ys)
    obtain r r2 where r: "rowSetNDeepTree ys (Suc d) = (r, r2)" by force
    note IH2 = "4.IH"(2) [OF l [symmetric] Cons r]
    have t: "t = Node l y r" "rest = r2" using "4.prems" by (auto simp: l r Cons)
    have "(2::nat) ^ (height t - 1) \<le> 2 ^ Suc d"
      using IH1 IH2 by (intro power_increasing) (auto simp: t)
    also have "\<dots> \<le> size t" using IH1 Cons by (simp add: t)
    finally show ?thesis using IH1 IH2 Cons by (auto simp: t)
  qed
qed auto

lemma rowSetListToTree_loop_height:
  assumes "0 < d" "height p \<le> d" "Suc (size p) = 2 ^ d"
  shows "2 ^ (height (rowSetListToTree_loop p xs d) - 1) \<le> size (rowSetListToTree_loop p xs d)"
  using assms
proof (induction p xs d rule: rowSetListToTree_loop.induct)
  case (1 p d)
  then obtain e where e: "d = Suc e" by (cases d) auto
  have "(2::nat) ^ (height p - 1) \<le> 2 ^ e"
    using 1 by (intro power_increasing) (auto simp: e)
  also have "2 ^ e \<le> size p" using 1 by (simp add: e)
  finally show ?case by simp
next
  case (2 p x xs d)
  obtain r rest where r: "rowSetNDeepTree xs d = (r, rest)" by force
  note h = rowSetNDeepTree_height [OF r "2.prems"(1)]
  show ?case
  proof (cases rest)
    case Nil
    have "(2::nat) ^ (height (Node p x r) - 1) \<le> 2 ^ d"
      using "2.prems" h by (intro power_increasing) auto
    also have "\<dots> \<le> size (Node p x r)" using "2.prems" by simp
    finally show ?thesis by (simp add: r Nil)
  next
    case (Cons a list)
    have "2 ^ (height (rowSetListToTree_loop (Node p x r) rest (d + 1)) - 1)
      \<le> size (rowSetListToTree_loop (Node p x r) rest (d + 1))"
      by (rule "2.IH" [OF r [symmetric]]) (use "2.prems" h Cons in auto)
    then show ?thesis by (simp add: r)
  qed
qed

lemma size_rowSetListToTree: "size (rowSetListToTree xs) = length xs"
  by (metis length_inorder rowSetListToTree_inorder)

lemma rowSetListToTree_height:
  "xs \<noteq> [] \<Longrightarrow> 2 ^ (height (rowSetListToTree xs) - 1) \<le> length xs"
  using rowSetListToTree_loop_height [of 1 "Node Leaf (hd xs) Leaf" "tl xs"]
  by (cases xs) (auto simp: size_rowSetListToTree [symmetric] rowSetListToTree_def)

section \<open>Properties\<close>

text \<open>
  C15. The row set is the two-generation set it promises: for every sequence of at most 2^40
  insertions and tests, started from a fresh row set, the run never fails and every test answers
  whether its rowid was inserted before the last change of batch number; the lists, the sorter
  with its forty buckets and the forest of balanced trees are invisible.
\<close>

theorem rowset_refines_batched_set:
  "length ops \<le> 2 ^ 40 \<Longrightarrow>
   run_ops (rowset_step True) (sqlite3RowSetInit n) ops =
   Some (spec_ops spec_step \<lparr>visible = {}, pending = {}, batch = 0\<rparr> ops)"
  using rowset.run_refines [of "sqlite3RowSetInit n" ops]
  by (simp add: rowset_inv_init rowset_abs_init list_all_iff) (simp add: sqlite3RowSetInit_def)

theorem rowset_refines_batched_set_witness:
  "run_ops (rowset_step True) (sqlite3RowSetInit 1)
     [RsInsert 7, RsInsert 3, RsTest 1 3, RsInsert 9, RsTest 1 9, RsTest 2 9] =
   Some [False, False, True, False, False, True]"
  using rowset_refines_batched_set [of "[RsInsert 7, RsInsert 3, RsTest 1 3, RsInsert 9, RsTest 1 9, RsTest 2 9]" 1]
  by simp

text \<open>
  C19. Draining the row set returns the inserted rowids in increasing order and once each, and
  then reports that it is empty.
\<close>

theorem rowset_drain_sorted:
  assumes "length vs < 2 ^ 40" "length vs < n"
  shows "rowset_drain n (fold (\<lambda>v p. sqlite3RowSetInsert True p v) vs (sqlite3RowSetInit k)) =
    Some (sorted_list_of_set (set vs))"
proof -
  let ?p = "fold (\<lambda>v p. sqlite3RowSetInsert True p v) vs (sqlite3RowSetInit k)"
  have "rowset_inv ?p \<and> length (rsEntry ?p) \<le> length vs \<and> set (rsEntry ?p) = set vs"
    by (rule rowset_insert_all)
  moreover have "card (set vs) < n" using card_length [of vs] assms(2) by simp
  ultimately show ?thesis using rowset_drain_correct [of ?p n] assms(1) by simp
qed

theorem rowset_drain_sorted_witness:
  "rowset_drain 9 (fold (\<lambda>v p. sqlite3RowSetInsert True p v) [5, 2, 8, 2] (sqlite3RowSetInit 0)) =
   Some [2, 5, 8]"
proof -
  have "rowset_drain 9 (fold (\<lambda>v p. sqlite3RowSetInsert True p v) [5, 2, 8, 2] (sqlite3RowSetInit 0)) =
    Some (sorted_list_of_set (set [5, 2, 8, 2]))"
    by (rule rowset_drain_sorted) simp_all
  also have "sorted_list_of_set (set [5, 2, 8, 2 :: int]) = [2, 5, 8]"
    unfolding sorted_list_of_set_sort_remdups by simp
  finally show ?thesis .
qed

text \<open>
  C20. Under any pattern of allocation failures the row set never invents an element: a test
  that answers yes was preceded by an insertion of that rowid.
\<close>

theorem rowset_oom_no_false_positive:
  assumes "length ops < 2 ^ 40"
    and "rowset_run_oom (sqlite3RowSetInit n) ops = Some p"
    and "sqlite3RowSetTest m p b v = Some (q, True)"
  shows "v \<in> inserted ops"
  using rowset_oom_test [OF assms] .

theorem rowset_oom_no_false_positive_witness:
  "\<exists>p q. rowset_run_oom (sqlite3RowSetInit 2)
       [(True, RsInsert 4), (True, RsTest 1 4), (False, RsInsert 6)] = Some p \<and>
     sqlite3RowSetTest False p 1 4 = Some (q, True) \<and>
     (4::int) \<in> inserted [(True, RsInsert 4), (True, RsTest 1 4), (False, RsInsert 6)]"
proof -
  let ?ops = "[(True, RsInsert 4), (True, RsTest 1 4), (False, RsInsert 6)]"
  obtain p q where pq: "rowset_run_oom (sqlite3RowSetInit 2) ?ops = Some p"
    "sqlite3RowSetTest False p 1 4 = Some (q, True)"
    by (simp add: sqlite3RowSetInit_def sqlite3RowSetInsert_def sqlite3RowSetTest_def
        rowSetEntryAlloc_def rowSetNewBatch_def rowSetListToTree_def)
  with rowset_oom_no_false_positive [of ?ops 2 p False 1 4 q] show ?thesis by auto
qed

text \<open>
  C21. The tree built from a sorted list holds exactly the list in order, and it is balanced:
  its height is at most one more than the binary logarithm of the number of elements, so a
  search visits that many nodes.
\<close>

theorem rowSetListToTree_balanced:
  assumes "xs \<noteq> []"
  shows "rowSetTreeToList (rowSetListToTree xs) = xs \<and>
    2 ^ (height (rowSetListToTree xs) - 1) \<le> length xs"
  using rowSetListToTree_height [OF assms] by (simp add: rowSetTreeToList_inorder rowSetListToTree_inorder)

theorem rowSetListToTree_balanced_witness:
  "rowSetTreeToList (rowSetListToTree [1, 2, 3, 4, 5]) = [1, 2, 3, 4, 5] \<and>
   height (rowSetListToTree [1, 2, 3, 4, 5 :: int]) \<le> 3"
proof -
  have "rowSetTreeToList (rowSetListToTree [1, 2, 3, 4, 5]) = [1, 2, 3, 4, 5] \<and>
    2 ^ (height (rowSetListToTree [1, 2, 3, 4, 5]) - 1) \<le> length [1, 2, 3, 4, 5 :: int]"
    by (rule rowSetListToTree_balanced) simp
  moreover have "height (rowSetListToTree [1, 2, 3, 4, 5 :: int]) = 3" by (simp add: rowSetListToTree_def numeral_2_eq_2)
  ultimately show ?thesis by simp
qed

end
