(* ===== verification/Probing.thy ===== *)
theory Probing
  imports Prelude "HOL-Library.Multiset"
begin

text \<open>
  Open addressing with linear probing, the scheme shared by the hash tables of bitvec.c and of
  the WAL index. A table is a list of slots in which 0 is the free slot; the scan for a value
  starts at its key and wraps around at the end of the table. A scan that does not end (the C
  loops have no other bound than a free slot) is \<open>None\<close>.
\<close>

fun probe :: "nat \<Rightarrow> nat list \<Rightarrow> nat \<Rightarrow> nat \<Rightarrow> nat option" where
  "probe 0 a h x = None"
| "probe (Suc n) a h x =
     (if a ! h = 0 \<or> a ! h = x then Some h else probe n a ((h + 1) mod length a) x)"

definition probe_ok :: "(nat \<Rightarrow> nat) \<Rightarrow> nat list \<Rightarrow> bool" where
  "probe_ok key a \<longleftrightarrow>
     (\<forall>k < length a. a ! k \<noteq> 0 \<longrightarrow>
        key (a ! k) < length a \<and>
        (\<forall>d < (k + length a - key (a ! k)) mod length a. a ! ((key (a ! k) + d) mod length a) \<noteq> 0))"

lemma probe_Some:
  assumes "\<exists>d < n. a ! ((h + d) mod length a) = 0 \<or> a ! ((h + d) mod length a) = x" "h < length a"
  shows "\<exists>d < n. probe n a h x = Some ((h + d) mod length a) \<and>
    (a ! ((h + d) mod length a) = 0 \<or> a ! ((h + d) mod length a) = x) \<and>
    (\<forall>e < d. a ! ((h + e) mod length a) \<noteq> 0 \<and> a ! ((h + e) mod length a) \<noteq> x)"
  using assms
proof (induction n arbitrary: h)
  case (Suc n)
  show ?case
  proof (cases "a ! h = 0 \<or> a ! h = x")
    case True
    with Suc.prems show ?thesis by (intro exI [of _ 0]) auto
  next
    case False
    let ?h = "(h + 1) mod length a"
    have shift: "(?h + d) mod length a = (h + Suc d) mod length a" for d
      by (simp add: mod_add_left_eq)
    from Suc.prems obtain d where d: "d < Suc n"
      "a ! ((h + d) mod length a) = 0 \<or> a ! ((h + d) mod length a) = x" by blast
    with False Suc.prems(2) obtain d' where d': "d = Suc d'" by (cases d) auto
    have "\<exists>d < n. a ! ((?h + d) mod length a) = 0 \<or> a ! ((?h + d) mod length a) = x"
      using d unfolding shift d' by auto
    moreover have "?h < length a" using Suc.prems(2) by (intro mod_less_divisor) auto
    ultimately obtain e where e: "e < n" "probe n a ?h x = Some ((?h + e) mod length a)"
      "a ! ((?h + e) mod length a) = 0 \<or> a ! ((?h + e) mod length a) = x"
      "\<forall>e' < e. a ! ((?h + e') mod length a) \<noteq> 0 \<and> a ! ((?h + e') mod length a) \<noteq> x"
      using Suc.IH by blast
    have "\<forall>e' < Suc e. a ! ((h + e') mod length a) \<noteq> 0 \<and> a ! ((h + e') mod length a) \<noteq> x"
    proof (intro allI impI)
      fix e' assume "e' < Suc e"
      with e(4) False Suc.prems(2) show "a ! ((h + e') mod length a) \<noteq> 0 \<and> a ! ((h + e') mod length a) \<noteq> x"
        unfolding shift by (cases e') auto
    qed
    with e False show ?thesis unfolding shift by (intro exI [of _ "Suc e"]) simp
  qed
qed simp

lemma cyclic_offset:
  assumes "h < n" "k < (n :: nat)"
  shows "(k + n - h) mod n < n" "(h + (k + n - h) mod n) mod n = k"
proof -
  show "(k + n - h) mod n < n" using assms by (intro mod_less_divisor) auto
  have "(h + (k + n - h) mod n) mod n = (h + (k + n - h)) mod n" by (simp add: mod_add_right_eq)
  then show "(h + (k + n - h) mod n) mod n = k" using assms by simp
qed

lemma offset_unique:
  assumes "h < n" "d < (n :: nat)"
  shows "((h + d) mod n + n - h) mod n = d"
proof (cases "h + d < n")
  case True
  with assms show ?thesis by simp
next
  case False
  then have "(h + d) mod n = h + d - n" using assms by (simp add: mod_if)
  then show ?thesis using assms False by simp
qed

lemma probe_correct:
  assumes "0 \<in> set a" "h < length a"
  obtains d where "d < length a" "probe (length a) a h x = Some ((h + d) mod length a)"
    "a ! ((h + d) mod length a) = 0 \<or> a ! ((h + d) mod length a) = x"
    "\<forall>e < d. a ! ((h + e) mod length a) \<noteq> 0 \<and> a ! ((h + e) mod length a) \<noteq> x"
proof -
  from assms(1) obtain k where k: "k < length a" "a ! k = 0" by (auto simp: in_set_conv_nth)
  with cyclic_offset [OF assms(2) k(1)]
  have "\<exists>d < length a. a ! ((h + d) mod length a) = 0 \<or> a ! ((h + d) mod length a) = x"
    by (intro exI [of _ "(k + length a - h) mod length a"]) simp
  from probe_Some [OF this assms(2)] that show ?thesis by blast
qed

text \<open>A scan from the key of a value ends at the value if the table holds it, and else at a
  free slot.\<close>

lemma probe_finds:
  assumes "probe_ok key a" "0 \<in> set a" "x \<noteq> 0" "key x < length a"
  obtains h where "probe (length a) a (key x) x = Some h" "h < length a"
    "a ! h = (if x \<in> set a then x else 0)"
proof -
  obtain d where d: "d < length a" "probe (length a) a (key x) x = Some ((key x + d) mod length a)"
    "a ! ((key x + d) mod length a) = 0 \<or> a ! ((key x + d) mod length a) = x"
    "\<forall>e < d. a ! ((key x + e) mod length a) \<noteq> 0 \<and> a ! ((key x + e) mod length a) \<noteq> x"
    using probe_correct [OF assms(2,4)] .
  have lt: "(key x + d) mod length a < length a" using d(1) by (intro mod_less_divisor) auto
  have "a ! ((key x + d) mod length a) = x" if mem: "x \<in> set a"
  proof (rule ccontr)
    assume ne: "a ! ((key x + d) mod length a) \<noteq> x"
    with d(3) have z: "a ! ((key x + d) mod length a) = 0" by simp
    from mem obtain k where k: "k < length a" "a ! k = x" by (auto simp: in_set_conv_nth)
    let ?o = "(k + length a - key x) mod length a"
    note o = cyclic_offset [OF assms(4) k(1)]
    have "\<not> ?o < d" using d(4) k o(2) by force
    moreover have "?o \<noteq> d" using ne k o(2) by force
    ultimately have "d < ?o" by simp
    moreover from assms(1,3) k
    have "\<forall>e < ?o. a ! ((key x + e) mod length a) \<noteq> 0" unfolding probe_ok_def by blast
    ultimately show False using z by blast
  qed
  moreover have "a ! ((key x + d) mod length a) = 0" if "x \<notin> set a"
    using d(3) that lt by (metis nth_mem)
  ultimately show ?thesis using that [OF d(2) lt] by simp
qed

text \<open>Filling the free slot a scan ends at keeps the table well formed.\<close>

lemma probe_insert:
  assumes "probe_ok key a" "0 \<in> set a" "x \<noteq> 0" "key x < length a"
    "probe (length a) a (key x) y = Some h" "a ! h = 0"
  shows "probe_ok key (a[h := x])" "h < length a"
proof -
  obtain d where d: "d < length a" "probe (length a) a (key x) y = Some ((key x + d) mod length a)"
    "\<forall>e < d. a ! ((key x + e) mod length a) \<noteq> 0 \<and> a ! ((key x + e) mod length a) \<noteq> y"
    using probe_correct [OF assms(2,4), of y] by metis
  have h: "h = (key x + d) mod length a" using assms(5) d(2) by simp
  show lt: "h < length a" unfolding h using d(1) by (intro mod_less_divisor) auto
  have nz: "a[h := x] ! m \<noteq> 0" if "a ! m \<noteq> 0" for m
    using that assms(3) lt by (cases "m = h") (auto simp: nth_list_update)
  show "probe_ok key (a[h := x])"
    unfolding probe_ok_def length_list_update
  proof (intro allI impI)
    fix k assume k: "k < length a" "a[h := x] ! k \<noteq> 0"
    show "key (a[h := x] ! k) < length a \<and>
      (\<forall>e < (k + length a - key (a[h := x] ! k)) mod length a.
         a[h := x] ! ((key (a[h := x] ! k) + e) mod length a) \<noteq> 0)"
    proof (cases "k = h")
      case True
      have "(h + length a - key x) mod length a = d"
        unfolding h by (rule offset_unique [OF assms(4) d(1)])
      with True lt d(3) nz assms(4) show ?thesis by simp
    next
      case False
      with k assms(1) nz show ?thesis by (auto simp: probe_ok_def)
    qed
  qed
qed

lemma probe_ok_empty: "probe_ok key (replicate n 0)"
  by (simp add: probe_ok_def)

text \<open>The values of a table, without repetition.\<close>

definition slot_vals :: "nat list \<Rightarrow> nat list" where
  "slot_vals a = filter (\<lambda>v. v \<noteq> 0) a"

lemma set_slot_vals: "set (slot_vals a) = set a - {0}"
  by (auto simp: slot_vals_def)

lemma length_slot_vals_free: "0 \<in> set a \<longleftrightarrow> length (slot_vals a) < length a"
  by (induction a) (auto simp: slot_vals_def le_imp_less_Suc)

lemma slot_vals_update:
  assumes "h < length a" "a ! h = 0" "x \<noteq> 0"
  shows "mset (slot_vals (a[h := x])) = add_mset x (mset (slot_vals a))"
  using assms by (induction a arbitrary: h) (auto simp: slot_vals_def nth_Cons split: nat.splits)

lemma slot_vals_insert:
  assumes "h < length a" "a ! h = 0" "x \<noteq> 0"
  shows "set (slot_vals (a[h := x])) = insert x (set (slot_vals a))"
    "length (slot_vals (a[h := x])) = Suc (length (slot_vals a))"
    "x \<notin> set a \<Longrightarrow> distinct (slot_vals a) \<Longrightarrow> distinct (slot_vals (a[h := x]))"
proof -
  note u = slot_vals_update [OF assms]
  show "set (slot_vals (a[h := x])) = insert x (set (slot_vals a))"
    using arg_cong [OF u, of set_mset] by simp
  show "length (slot_vals (a[h := x])) = Suc (length (slot_vals a))"
    using arg_cong [OF u, of size] by simp
  assume "x \<notin> set a" "distinct (slot_vals a)"
  moreover have "mset (slot_vals (a[h := x])) = mset (x # slot_vals a)" using u by simp
  ultimately show "distinct (slot_vals (a[h := x]))"
    using mset_eq_imp_distinct_iff [of "slot_vals (a[h := x])" "x # slot_vals a"]
    by (simp add: set_slot_vals)
qed

end
