(* ===== verification/Bitvec.thy ===== *)
theory Bitvec
  imports Probing
begin

text \<open>
  bitvec.c: the fixed-size set of page numbers kept by the pager and the savepoints. A vector is a
  bitmap while its size is at most 3968, else a hash table of up to 123 values, else a node with 62
  sub-vectors; the code tells them apart by \<open>iSize\<close> and \<open>iDivisor\<close>, and so
  does the model. The three members of the C union are three fields, of which the one these tests
  select is the live one (an object never reads another member without clearing it). The constants
  are those of a machine with 8-byte pointers (\<open>BITVEC_USIZE\<close> is 496). Indices are
  32-bit at the interface, where the decrement wraps, and naturals below that. The outcomes of the
  allocations to come are a list of booleans, used up in order (an empty list: all succeed).
  \<open>bitvec_set\<close> recurses on a vector the code has just restructured, so it takes fuel, and
  running out is \<open>None\<close>: two units for each of the at most four levels, ten in all,
  are proved to be enough for every 32-bit size.
\<close>

section \<open>Model\<close>

abbreviation BITVEC_NBIT :: nat where "BITVEC_NBIT \<equiv> 3968"
abbreviation BITVEC_NINT :: nat where "BITVEC_NINT \<equiv> 124"
abbreviation BITVEC_MXHASH :: nat where "BITVEC_MXHASH \<equiv> 62"
abbreviation BITVEC_NPTR :: nat where "BITVEC_NPTR \<equiv> 62"
abbreviation BITVEC_NELEM :: nat where "BITVEC_NELEM \<equiv> 496"
abbreviation (input) SQLITE_OK :: nat where "SQLITE_OK \<equiv> 0"
abbreviation (input) SQLITE_NOMEM :: nat where "SQLITE_NOMEM \<equiv> 7"

definition BITVEC_HASH :: "nat \<Rightarrow> nat" where "BITVEC_HASH x = (x * 1) mod BITVEC_NINT"

datatype bitvec =
  Bitvec (iSize: nat) (nSet: nat) (iDivisor: nat)
    (aBitmap: "u8 list") (aHash: "nat list") (apSub: "bitvec option list")

definition bitvec_new :: "nat \<Rightarrow> bitvec" where
  "bitvec_new sz = Bitvec sz 0 0 (replicate BITVEC_NELEM 0) (replicate BITVEC_NINT 0) (replicate BITVEC_NPTR None)"

definition sqlite3BitvecCreate :: "bool list \<Rightarrow> nat \<Rightarrow> bitvec option \<times> bool list" where
  "sqlite3BitvecCreate mem sz =
     (case mallocs mem of (ok, mem) \<Rightarrow> (if ok then Some (bitvec_new sz) else None, mem))"

lemma size_apSub [termination_simp]:
  assumes "bin < length sub" "sub ! bin = Some q"
  shows "size q < Suc (size_list (size_option size) sub)"
proof -
  have "Some q \<in> set sub" using assms by (metis nth_mem)
  from size_list_estimation' [OF this, of "size q" "size_option size"] show ?thesis by simp
qed

definition bitmap_test :: "u8 list \<Rightarrow> nat \<Rightarrow> bool" where
  "bitmap_test bm i \<longleftrightarrow> (bm ! (i div 8)) AND push_bit (i mod 8) 1 \<noteq> 0"

definition hash_test :: "nat list \<Rightarrow> nat \<Rightarrow> bool option" where
  "hash_test a i = map_option (\<lambda>h. a ! h = i + 1) (probe (length a) a (BITVEC_HASH i) (i + 1))"

fun bitvec_test :: "bitvec \<Rightarrow> nat \<Rightarrow> bool option" where
  "bitvec_test (Bitvec sz n d bm a sub) i =
     (if d \<noteq> 0
      then (if i div d < length sub
            then (case sub ! (i div d) of None \<Rightarrow> Some False | Some q \<Rightarrow> bitvec_test q (i mod d))
            else None)
      else if sz \<le> BITVEC_NBIT then Some (bitmap_test bm i) else hash_test a i)"

definition sqlite3BitvecTestNotNull :: "bitvec \<Rightarrow> u32 \<Rightarrow> bool option" where
  "sqlite3BitvecTestNotNull p i =
     (let i = unat (i - 1) in if i \<ge> iSize p then Some False else bitvec_test p i)"

definition sqlite3BitvecTest :: "bitvec option \<Rightarrow> u32 \<Rightarrow> bool option" where
  "sqlite3BitvecTest p i = (case p of None \<Rightarrow> Some False | Some p \<Rightarrow> sqlite3BitvecTestNotNull p i)"

definition bitmap_set :: "u8 list \<Rightarrow> nat \<Rightarrow> u8 list" where
  "bitmap_set bm i = bm[i div 8 := (bm ! (i div 8)) OR push_bit (i mod 8) 1]"

definition bitvec_divisor :: "nat \<Rightarrow> nat" where
  "bitvec_divisor sz =
     (let d = sz div BITVEC_NPTR;
          d = (if sz mod BITVEC_NPTR \<noteq> 0 then d + 1 else d)
      in if d < BITVEC_NBIT then BITVEC_NBIT else d)"

type_synonym bitvec_result = "(bitvec \<times> nat \<times> bool list) option"

fun bitvec_set_values ::
  "(bool list \<Rightarrow> bitvec \<Rightarrow> nat \<Rightarrow> bitvec_result) \<Rightarrow> bool list \<Rightarrow> bitvec \<Rightarrow> nat \<Rightarrow> nat list \<Rightarrow> bitvec_result"
where
  "bitvec_set_values st mem p rc [] = Some (p, rc, mem)"
| "bitvec_set_values st mem p rc (v # vs) =
     (if v \<noteq> 0
      then (case st mem p v of None \<Rightarrow> None
            | Some (p, r, mem) \<Rightarrow> bitvec_set_values st mem p (rc OR r) vs)
      else bitvec_set_values st mem p rc vs)"

primrec bitvec_set :: "nat \<Rightarrow> bool list \<Rightarrow> bitvec \<Rightarrow> nat \<Rightarrow> bitvec_result" where
  "bitvec_set 0 = (\<lambda>mem p i. None)"
| "bitvec_set (Suc fuel) = (\<lambda>mem p i. case p of Bitvec sz n d bm a sub \<Rightarrow>
     (let i = i - 1 in
      if sz > BITVEC_NBIT \<and> d \<noteq> 0 then
        (let bin = i div d; i = i mod d in
         case (case sub ! bin of Some q \<Rightarrow> (Some q, mem) | None \<Rightarrow> sqlite3BitvecCreate mem d) of
           (None, mem) \<Rightarrow> Some (p, SQLITE_NOMEM, mem)
         | (Some q, mem) \<Rightarrow>
             (case bitvec_set fuel mem q (i + 1) of None \<Rightarrow> None
              | Some (q, rc, mem) \<Rightarrow> Some (Bitvec sz n d bm a (sub[bin := Some q]), rc, mem)))
      else if sz \<le> BITVEC_NBIT then Some (Bitvec sz n d (bitmap_set bm i) a sub, SQLITE_OK, mem)
      else
        (let h = BITVEC_HASH i; i = i + 1;
             fin = (\<lambda>h. Some (Bitvec sz (n + 1) d bm (a[h := i]) sub, SQLITE_OK, mem));
             rehash = (\<lambda>h.
               if n \<ge> BITVEC_MXHASH then
                 (case mallocs mem of
                    (False, mem) \<Rightarrow> Some (p, SQLITE_NOMEM, mem)
                  | (True, mem) \<Rightarrow>
                      (let p = Bitvec sz n (bitvec_divisor sz) bm a (replicate BITVEC_NPTR None)
                       in case bitvec_set fuel mem p i of None \<Rightarrow> None
                          | Some (p, rc, mem) \<Rightarrow> bitvec_set_values (bitvec_set fuel) mem p rc a))
               else fin h)
         in if a ! h = 0
            then (if n < BITVEC_NINT - 1 then fin h else rehash h)
            else (case probe (length a) a h i of
                    None \<Rightarrow> None
                  | Some h \<Rightarrow> if a ! h = i then Some (p, SQLITE_OK, mem) else rehash h))))"

definition sqlite3BitvecSet :: "bool list \<Rightarrow> bitvec option \<Rightarrow> u32 \<Rightarrow> (bitvec option \<times> nat \<times> bool list) option" where
  "sqlite3BitvecSet mem p i =
     (case p of None \<Rightarrow> Some (None, SQLITE_OK, mem)
      | Some p \<Rightarrow> map_option (\<lambda>(p, rc, mem). (Some p, rc, mem)) (bitvec_set 10 mem p (unat i)))"

definition bitmap_clear :: "u8 list \<Rightarrow> nat \<Rightarrow> u8 list" where
  "bitmap_clear bm i = bm[i div 8 := (bm ! (i div 8)) AND NOT (push_bit (i mod 8) 1)]"

fun hash_rebuild :: "nat list \<Rightarrow> nat \<Rightarrow> nat \<Rightarrow> nat list \<Rightarrow> (nat list \<times> nat) option" where
  "hash_rebuild a n i [] = Some (a, n)"
| "hash_rebuild a n i (v # vs) =
     (if v \<noteq> 0 \<and> v \<noteq> i + 1
      then (case probe (length a) a (BITVEC_HASH (v - 1)) 0 of None \<Rightarrow> None
            | Some h \<Rightarrow> hash_rebuild (a[h := v]) (n + 1) i vs)
      else hash_rebuild a n i vs)"

fun bitvec_clear :: "bitvec \<Rightarrow> nat \<Rightarrow> bitvec option" where
  "bitvec_clear (Bitvec sz n d bm a sub) i =
     (if d \<noteq> 0
      then (if i div d < length sub
            then (case sub ! (i div d) of
                    None \<Rightarrow> Some (Bitvec sz n d bm a sub)
                  | Some q \<Rightarrow> map_option (\<lambda>q. Bitvec sz n d bm a (sub[i div d := Some q])) (bitvec_clear q (i mod d)))
            else None)
      else if sz \<le> BITVEC_NBIT then Some (Bitvec sz n d (bitmap_clear bm i) a sub)
      else map_option (\<lambda>(a', n). Bitvec sz n d bm a' sub) (hash_rebuild (replicate BITVEC_NINT 0) 0 i a))"

definition sqlite3BitvecClear :: "bitvec option \<Rightarrow> u32 \<Rightarrow> bitvec option option" where
  "sqlite3BitvecClear p i =
     (case p of None \<Rightarrow> Some None
      | Some p \<Rightarrow> map_option Some (bitvec_clear p (unat (i - 1))))"

definition sqlite3BitvecSize :: "bitvec \<Rightarrow> nat" where
  "sqlite3BitvecSize p = iSize p"

section \<open>Well-formed vectors\<close>

definition hash_ok :: "nat \<Rightarrow> nat \<Rightarrow> nat list \<Rightarrow> bool" where
  "hash_ok sz n a \<longleftrightarrow> length a = BITVEC_NINT \<and> probe_ok (\<lambda>v. BITVEC_HASH (v - 1)) a \<and>
     distinct (slot_vals a) \<and> length (slot_vals a) = n \<and> n < BITVEC_NINT \<and>
     list_all (\<lambda>v. v \<le> sz) (slot_vals a)"

inductive bitvec_wf :: "bitvec \<Rightarrow> bool" where
  bitmap: "sz \<le> BITVEC_NBIT \<Longrightarrow> length bm = BITVEC_NELEM \<Longrightarrow> bitvec_wf (Bitvec sz n 0 bm a sub)"
| hash: "sz > BITVEC_NBIT \<Longrightarrow> hash_ok sz n a \<Longrightarrow> bitvec_wf (Bitvec sz n 0 bm a sub)"
| sub: "sz > BITVEC_NBIT \<Longrightarrow> d = bitvec_divisor sz \<Longrightarrow> length sub = BITVEC_NPTR \<Longrightarrow>
    (\<And>q. Some q \<in> set sub \<Longrightarrow> iSize q = d \<and> bitvec_wf q) \<Longrightarrow> bitvec_wf (Bitvec sz n d bm a sub)"

definition elems :: "bitvec \<Rightarrow> nat set" where
  "elems p = {i. i < iSize p \<and> bitvec_test p i = Some True}"

section \<open>Bitmaps\<close>

lemma div8_mod8_eq: "i div 8 = j div 8 \<and> i mod 8 = j mod 8 \<longleftrightarrow> i = (j :: nat)"
  by (metis div_mult_mod_eq)

lemma bitmap_test_bit: "bitmap_test bm i \<longleftrightarrow> bit (bm ! (i div 8)) (i mod 8)"
  unfolding bitmap_test_def bit_iff_and_push_bit_not_eq_0 ..

lemma bitmap_test_set:
  assumes "i < 8 * length bm" "j < 8 * length bm"
  shows "bitmap_test (bitmap_set bm i) j \<longleftrightarrow> j = i \<or> bitmap_test bm j"
proof (cases "i div 8 = j div 8")
  case True
  have "j div 8 < length bm" using assms by auto
  then have "bitmap_test (bitmap_set bm i) j \<longleftrightarrow> bitmap_test bm j \<or> i mod 8 = j mod 8"
    by (auto simp: bitmap_test_bit bitmap_set_def True bit_simps)
  with True div8_mod8_eq [of i j] show ?thesis by auto
qed (auto simp: bitmap_test_bit bitmap_set_def)

lemma bitmap_test_clear:
  assumes "i < 8 * length bm" "j < 8 * length bm"
  shows "bitmap_test (bitmap_clear bm i) j \<longleftrightarrow> j \<noteq> i \<and> bitmap_test bm j"
proof (cases "i div 8 = j div 8")
  case True
  have "j div 8 < length bm" using assms by auto
  then have "bitmap_test (bitmap_clear bm i) j \<longleftrightarrow> bitmap_test bm j \<and> i mod 8 \<noteq> j mod 8"
    by (auto simp: bitmap_test_bit bitmap_clear_def True bit_simps)
  with True div8_mod8_eq [of i j] show ?thesis by auto
qed (auto simp: bitmap_test_bit bitmap_clear_def)

section \<open>Hash tables\<close>

lemma BITVEC_HASH_less: "BITVEC_HASH i < BITVEC_NINT"
  by (simp add: BITVEC_HASH_def)

lemma hash_ok_free: "hash_ok sz n a \<Longrightarrow> 0 \<in> set a"
  by (auto simp: hash_ok_def length_slot_vals_free)

lemma hash_test_correct:
  assumes "hash_ok sz n a"
  shows "hash_test a i = Some (i + 1 \<in> set a)"
proof -
  have "length a = BITVEC_NINT" "probe_ok (\<lambda>v. BITVEC_HASH (v - 1)) a"
    using assms by (simp_all add: hash_ok_def)
  from probe_finds [OF this(2) hash_ok_free [OF assms], of "i + 1"] this(1) BITVEC_HASH_less [of i]
  obtain h where "probe (length a) a (BITVEC_HASH i) (i + 1) = Some h"
    "a ! h = (if i + 1 \<in> set a then i + 1 else 0)" by auto
  then show ?thesis by (simp add: hash_test_def)
qed

lemma hash_insert:
  assumes "hash_ok sz n a" "n < BITVEC_NINT - 1" "i < sz" "i + 1 \<notin> set a"
    "probe (length a) a (BITVEC_HASH i) y = Some h" "a ! h = 0"
  shows "hash_ok sz (n + 1) (a[h := i + 1])" "set (a[h := i + 1]) - {0} = insert (i + 1) (set a - {0})"
proof -
  have a: "length a = BITVEC_NINT" "probe_ok (\<lambda>v. BITVEC_HASH (v - 1)) a"
    using assms by (simp_all add: hash_ok_def)
  have p: "probe_ok (\<lambda>v. BITVEC_HASH (v - 1)) (a[h := i + 1])" "h < length a"
    using probe_insert [OF a(2) hash_ok_free [OF assms(1)], of "i + 1" y h] assms(5,6) a(1)
      BITVEC_HASH_less [of i] by simp_all
  note v = slot_vals_insert [OF p(2) assms(6), of "i + 1", simplified]
  show "hash_ok sz (n + 1) (a[h := i + 1])"
    using assms p v unfolding hash_ok_def by (simp add: list_all_iff)
  show "set (a[h := i + 1]) - {0} = insert (i + 1) (set a - {0})"
    using v(1) by (simp add: set_slot_vals)
qed

lemma hash_empty: "hash_ok sz 0 (replicate BITVEC_NINT 0)"
  by (simp add: hash_ok_def probe_ok_empty slot_vals_def)

lemma hash_rebuild_correct:
  assumes "hash_ok sz n a" "n + length (slot_vals vs) < BITVEC_NINT" "list_all (\<lambda>v. v \<le> sz) (slot_vals vs)"
    "distinct (slot_vals vs)" "(set a - {0}) \<inter> set vs = {}"
  shows "\<exists>a' n'. hash_rebuild a n i vs = Some (a', n') \<and> hash_ok sz n' a' \<and>
    set a' - {0} = (set a - {0}) \<union> (set vs - {0, i + 1})"
  using assms
proof (induction vs arbitrary: a n)
  case (Cons v vs)
  show ?case
  proof (cases "v \<noteq> 0 \<and> v \<noteq> i + 1")
    case False
    with Cons.IH [OF Cons.prems(1)] Cons.prems show ?thesis by (auto simp: slot_vals_def split: if_splits)
  next
    case True
    then obtain w where w: "v = w + 1" by (cases v) auto
    have len: "length a = BITVEC_NINT" using Cons.prems(1) by (simp add: hash_ok_def)
    from probe_correct [OF hash_ok_free [OF Cons.prems(1)], of "BITVEC_HASH w" 0] len BITVEC_HASH_less [of w]
    obtain h where h: "probe (length a) a (BITVEC_HASH w) 0 = Some h" "a ! h = 0" by metis
    have v: "w + 1 \<notin> set a" "w < sz" using Cons.prems True by (auto simp: w slot_vals_def)
    have n: "n < BITVEC_NINT - 1" using Cons.prems(2) True by (simp add: slot_vals_def)
    note ins = hash_insert [OF Cons.prems(1) n v(2,1) h]
    have "(set (a[h := w + 1]) - {0}) \<inter> set vs = {}"
      unfolding ins(2) using Cons.prems(4,5) True by (auto simp: slot_vals_def w)
    then obtain a' n' where "hash_rebuild (a[h := w + 1]) (n + 1) i vs = Some (a', n')" "hash_ok sz n' a'"
      "set a' - {0} = (set (a[h := w + 1]) - {0}) \<union> (set vs - {0, i + 1})"
      using Cons.IH [OF ins(1)] Cons.prems True by (auto simp: slot_vals_def)
    moreover have "hash_rebuild a n i (v # vs) = hash_rebuild (a[h := w + 1]) (n + 1) i vs"
      using True h by (simp add: w)
    ultimately show ?thesis using True unfolding ins(2) w by auto
  qed
qed auto

section \<open>The elements of a vector\<close>

lemma bitvec_divisor_le:
  "sz \<le> BITVEC_NPTR * x \<Longrightarrow> BITVEC_NBIT \<le> x \<Longrightarrow> bitvec_divisor sz \<le> x"
proof -
  assume sz: "sz \<le> BITVEC_NPTR * x" "BITVEC_NBIT \<le> x"
  have "sz div BITVEC_NPTR < x" if "sz mod BITVEC_NPTR \<noteq> 0"
  proof -
    have "sz \<noteq> BITVEC_NPTR * x" using that by auto
    with sz(1) have "sz < x * BITVEC_NPTR" by simp
    then show ?thesis by (rule less_mult_imp_div_less)
  qed
  moreover have "sz div BITVEC_NPTR \<le> x" using sz(1) by simp
  ultimately show ?thesis using sz(2) unfolding bitvec_divisor_def Let_def by auto
qed

lemma bitvec_divisor_bounds:
  assumes "BITVEC_NBIT < sz"
  shows "0 < bitvec_divisor sz" "sz \<le> BITVEC_NPTR * bitvec_divisor sz" "bitvec_divisor sz < sz"
    "sz \<le> BITVEC_NBIT * BITVEC_NPTR ^ Suc k \<Longrightarrow> bitvec_divisor sz \<le> BITVEC_NBIT * BITVEC_NPTR ^ k"
proof -
  show "0 < bitvec_divisor sz" by (simp add: bitvec_divisor_def Let_def)
  show "sz \<le> BITVEC_NPTR * bitvec_divisor sz" "bitvec_divisor sz < sz"
    using assms unfolding bitvec_divisor_def Let_def by (auto split: if_splits)
  let ?x = "BITVEC_NBIT * BITVEC_NPTR ^ k"
  have "(1 :: nat) \<le> BITVEC_NPTR ^ k" by simp
  then have "BITVEC_NBIT \<le> ?x" by linarith
  moreover assume "sz \<le> BITVEC_NBIT * BITVEC_NPTR ^ Suc k"
  then have "sz \<le> BITVEC_NPTR * ?x" by simp
  ultimately show "bitvec_divisor sz \<le> ?x" using bitvec_divisor_le by blast
qed

lemma div_mod_bounds:
  assumes "BITVEC_NBIT < sz" "i < sz"
  shows "i div bitvec_divisor sz < BITVEC_NPTR" "i mod bitvec_divisor sz < bitvec_divisor sz"
proof -
  note b = bitvec_divisor_bounds [OF assms(1)]
  show "i mod bitvec_divisor sz < bitvec_divisor sz" using b(1) by simp
  have "i < BITVEC_NPTR * bitvec_divisor sz" using assms(2) b(2) by linarith
  then show "i div bitvec_divisor sz < BITVEC_NPTR" by (simp add: less_mult_imp_div_less)
qed

lemma bitvec_test_total:
  "bitvec_wf p \<Longrightarrow> i < iSize p \<Longrightarrow> bitvec_test p i = Some (i \<in> elems p)"
proof (induction p arbitrary: i rule: bitvec_wf.induct)
  case (bitmap sz bm n a sub)
  then show ?case by (simp add: elems_def)
next
  case (hash sz n a bm sub)
  then show ?case by (simp add: elems_def hash_test_correct)
next
  case (sub sz d sub n bm a)
  then have i: "i < sz" by simp
  note b = div_mod_bounds [OF sub.hyps(1) i] bitvec_divisor_bounds [OF sub.hyps(1)]
  have "\<exists>x. bitvec_test (Bitvec sz n d bm a sub) i = Some x"
  proof (cases "sub ! (i div d)")
    case None
    with b(1,3) sub.hyps(2,3) show ?thesis by auto
  next
    case (Some q)
    with b(1) sub.hyps(2,3) have "Some q \<in> set sub" by (metis nth_mem)
    from sub.IH [OF this] b(2) have "bitvec_test q (i mod d) = Some (i mod d \<in> elems q)"
      by (simp add: sub.hyps(2))
    with Some b(1,3) sub.hyps(2,3) show ?thesis by simp
  qed
  with i show ?case by (auto simp: elems_def simp del: bitvec_test.simps)
qed

lemma elems_bitmap: "sz \<le> BITVEC_NBIT \<Longrightarrow> elems (Bitvec sz n 0 bm a sub) = {i. i < sz \<and> bitmap_test bm i}"
  by (simp add: elems_def)

lemma elems_hash:
  "sz > BITVEC_NBIT \<Longrightarrow> hash_ok sz n a \<Longrightarrow> elems (Bitvec sz n 0 bm a sub) = {i. i + 1 \<in> set a}"
  by (force simp: elems_def hash_test_correct hash_ok_def list_all_iff set_slot_vals)

lemma elems_sub:
  assumes "sz > BITVEC_NBIT" "d = bitvec_divisor sz" "length sub = BITVEC_NPTR"
    "\<And>q. Some q \<in> set sub \<Longrightarrow> iSize q = d \<and> bitvec_wf q"
  shows "elems (Bitvec sz n d bm a sub) =
    {i. i < sz \<and> (\<exists>q. sub ! (i div d) = Some q \<and> i mod d \<in> elems q)}"
proof -
  have "bitvec_test (Bitvec sz n d bm a sub) i = Some (\<exists>q. sub ! (i div d) = Some q \<and> i mod d \<in> elems q)"
    if "i < sz" for i
  proof (cases "sub ! (i div d)")
    case None
    with that assms div_mod_bounds [OF assms(1) that] bitvec_divisor_bounds [OF assms(1)] show ?thesis by simp
  next
    case (Some q)
    with that assms(2,3) div_mod_bounds [OF assms(1) that] have "Some q \<in> set sub" by (metis nth_mem)
    with assms(4) [OF this] bitvec_test_total [of q "i mod d"] Some assms(2,3)
      div_mod_bounds [OF assms(1) that] bitvec_divisor_bounds [OF assms(1)] show ?thesis by simp
  qed
  moreover have "elems (Bitvec sz n d bm a sub) =
    {i. i < sz \<and> bitvec_test (Bitvec sz n d bm a sub) i = Some True}"
    by (simp only: elems_def bitvec.sel)
  ultimately show ?thesis by (auto simp del: bitvec_test.simps)
qed

lemma iSize_bitvec_new: "iSize (bitvec_new sz) = sz"
  by (simp add: bitvec_new_def)

lemma bitvec_new_wf: "bitvec_wf (bitvec_new sz)"
  unfolding bitvec_new_def using hash_empty by (cases "sz \<le> BITVEC_NBIT") (auto intro: bitvec_wf.intros)

lemma bitvec_new_elems: "elems (bitvec_new sz) = {}"
proof (cases "sz \<le> BITVEC_NBIT")
  case True
  then show ?thesis
    by (auto simp: bitvec_new_def elems_bitmap bitmap_test_def)
next
  case False
  then show ?thesis by (simp add: bitvec_new_def elems_hash [OF _ hash_empty])
qed

section \<open>Setting a bit\<close>

definition set_ok :: "bool list \<Rightarrow> bitvec \<Rightarrow> nat set \<Rightarrow> nat \<Rightarrow> bitvec_result \<Rightarrow> bool" where
  "set_ok mem p V rc0 r \<longleftrightarrow> (\<exists>p' rc mem'. r = Some (p', rc, mem') \<and>
     bitvec_wf p' \<and> iSize p' = iSize p \<and> (iDivisor p \<noteq> 0 \<longrightarrow> iDivisor p' \<noteq> 0) \<and>
     elems p' \<subseteq> V \<union> elems p \<and> (rc = 0 \<longrightarrow> rc0 = 0 \<and> elems p' = V \<union> elems p) \<and>
     (list_all id mem \<and> rc0 = 0 \<longrightarrow> rc = 0 \<and> list_all id mem'))"

lemma mallocs_ok: "list_all id mem \<Longrightarrow> fst (mallocs mem) \<and> list_all id (snd (mallocs mem))"
  by (cases mem) auto

lemma set_values_ok:
  assumes "\<And>mem q v. bitvec_wf q \<Longrightarrow> iSize q = sz \<Longrightarrow> iDivisor q \<noteq> 0 \<Longrightarrow> 0 < v \<Longrightarrow> v \<le> sz \<Longrightarrow>
      set_ok mem q {v - 1} 0 (st mem q v)"
    and "bitvec_wf p" "iSize p = sz" "iDivisor p \<noteq> 0" "\<forall>v \<in> set vs. v \<le> sz"
  shows "set_ok mem p ((\<lambda>v. v - 1) ` (set vs - {0})) rc (bitvec_set_values st mem p rc vs)"
  using assms(2-5)
proof (induction vs arbitrary: mem p rc)
  case Nil
  then show ?case by (simp add: set_ok_def)
next
  case (Cons v vs)
  show ?case
  proof (cases "v = 0")
    case True
    with Cons show ?thesis by simp
  next
    case False
    with assms(1) [OF Cons.prems(1-3), of v mem] Cons.prems(4)
    obtain p1 rc1 mem1 where 1: "st mem p v = Some (p1, rc1, mem1)" "bitvec_wf p1" "iSize p1 = sz" "iDivisor p1 \<noteq> 0"
      "elems p1 \<subseteq> {v - 1} \<union> elems p" "rc1 = 0 \<longrightarrow> elems p1 = {v - 1} \<union> elems p"
      "list_all id mem \<longrightarrow> rc1 = 0 \<and> list_all id mem1"
      using Cons.prems(2,3) by (auto simp: set_ok_def)
    have "set_ok mem1 p1 ((\<lambda>v. v - 1) ` (set vs - {0})) (rc OR rc1)
      (bitvec_set_values st mem1 p1 (rc OR rc1) vs)"
      using Cons.IH 1(2-4) Cons.prems(4) by simp
    moreover have "(\<lambda>v. v - 1) ` (set (v # vs) - {0}) = insert (v - 1) ((\<lambda>v. v - 1) ` (set vs - {0}))"
      using False by auto
    ultimately show ?thesis using 1 False Cons.prems(2,3) unfolding set_ok_def
      by (auto 0 3 simp: or_eq_0_iff)
  qed
qed

lemma bitvec_set_sub_step:
  assumes "sz > BITVEC_NBIT" "d \<noteq> 0"
  shows "bitvec_set (Suc f) mem (Bitvec sz n d bm a sub) (k + 1) =
    (case (case sub ! (k div d) of Some q \<Rightarrow> (Some q, mem) | None \<Rightarrow> sqlite3BitvecCreate mem d) of
       (None, mem) \<Rightarrow> Some (Bitvec sz n d bm a sub, SQLITE_NOMEM, mem)
     | (Some q, mem) \<Rightarrow>
         (case bitvec_set f mem q (k mod d + 1) of None \<Rightarrow> None
          | Some (q, rc, mem) \<Rightarrow> Some (Bitvec sz n d bm a (sub[k div d := Some q]), rc, mem)))"
  unfolding bitvec_set.simps bitvec.case Let_def add_diff_cancel_right' using assms by simp

lemma bitvec_set_hash_step:
  assumes "sz > BITVEC_NBIT"
  shows "bitvec_set (Suc f) mem (Bitvec sz n 0 bm a sub) (k + 1) =
    (let fin = (\<lambda>h. Some (Bitvec sz (n + 1) 0 bm (a[h := k + 1]) sub, SQLITE_OK, mem));
         rehash = (\<lambda>h.
               if n \<ge> BITVEC_MXHASH then
                 (case mallocs mem of
                    (False, mem) \<Rightarrow> Some (Bitvec sz n 0 bm a sub, SQLITE_NOMEM, mem)
                  | (True, mem) \<Rightarrow>
                      (case bitvec_set f mem (Bitvec sz n (bitvec_divisor sz) bm a (replicate BITVEC_NPTR None)) (k + 1) of
                         None \<Rightarrow> None
                       | Some (p, rc, mem) \<Rightarrow> bitvec_set_values (bitvec_set f) mem p rc a))
               else fin h)
     in if a ! BITVEC_HASH k = 0
        then (if n < BITVEC_NINT - 1 then fin (BITVEC_HASH k) else rehash (BITVEC_HASH k))
        else (case probe (length a) a (BITVEC_HASH k) (k + 1) of
                None \<Rightarrow> None
              | Some h \<Rightarrow> if a ! h = k + 1 then Some (Bitvec sz n 0 bm a sub, SQLITE_OK, mem) else rehash h))"
proof -
  have "(sz > BITVEC_NBIT \<and> (0::nat) \<noteq> 0) = False" "(sz \<le> BITVEC_NBIT) = False" using assms by simp_all
  then show ?thesis
    unfolding bitvec_set.simps bitvec.case Let_def add_diff_cancel_right' by (simp only: if_False)
qed

lemma set_sub_ok:
  assumes wf: "bitvec_wf p" and d: "iDivisor p \<noteq> 0" and i: "0 < i" "i \<le> iSize p"
    and child: "\<And>mem q i. bitvec_wf q \<Longrightarrow> iSize q = bitvec_divisor (iSize p) \<Longrightarrow> 0 < i \<Longrightarrow> i \<le> iSize q \<Longrightarrow>
      set_ok mem q {i - 1} 0 (bitvec_set f mem q i)"
  shows "set_ok mem p {i - 1} 0 (bitvec_set (Suc f) mem p i)"
  using wf
proof cases
  case (sub sz d sub n bm a)
  define k where "k = i - 1"
  have k: "k < sz" "i = k + 1" using i sub(1) by (simp_all add: k_def)
  note b = div_mod_bounds [OF sub(2) k(1), folded sub(3)] bitvec_divisor_bounds [OF sub(2), folded sub(3)]
  have d0: "d \<noteq> 0" using b(3) by simp
  note child = child [unfolded sub(1) bitvec.sel, folded sub(3)]
  let ?q0 = "case sub ! (k div d) of None \<Rightarrow> bitvec_new d | Some q \<Rightarrow> q"
  have q0: "bitvec_wf ?q0" "iSize ?q0 = d"
    using sub(5) b(1) sub(4) bitvec_new_wf by (auto simp: iSize_bitvec_new split: option.split) (metis nth_mem)+
  have E: "elems p = {i. i < sz \<and> (\<exists>q. sub ! (i div d) = Some q \<and> i mod d \<in> elems q)}"
    unfolding sub(1) by (rule elems_sub [OF sub(2-5)])
  have upd: "\<exists>p'. p' = Bitvec sz n d bm a (sub[k div d := Some q]) \<and> bitvec_wf p' \<and>
      (elems q \<subseteq> {k mod d} \<union> elems ?q0 \<longrightarrow> elems p' \<subseteq> {k} \<union> elems p) \<and>
      (elems q = {k mod d} \<union> elems ?q0 \<longrightarrow> elems p' = {k} \<union> elems p)"
    if q: "bitvec_wf q" "iSize q = d" for q
  proof -
    let ?s = "sub[k div d := Some q]"
    have s: "length ?s = BITVEC_NPTR" "\<And>q'. Some q' \<in> set ?s \<Longrightarrow> iSize q' = d \<and> bitvec_wf q'"
      using sub(4,5) q by (auto dest!: set_update_subset_insert [THEN subsetD])
    have E': "elems (Bitvec sz n d bm a ?s) = {i. i < sz \<and> (\<exists>q. ?s ! (i div d) = Some q \<and> i mod d \<in> elems q)}"
      by (rule elems_sub [OF sub(2,3) s])
    have in': "j \<in> elems (Bitvec sz n d bm a ?s) \<longleftrightarrow>
        j < sz \<and> (if j div d = k div d then j mod d \<in> elems q else j \<in> elems p)" for j
      using b(1) sub(4) by (auto simp: E' E)
    have inp: "j div d = k div d \<Longrightarrow> j < sz \<Longrightarrow> j \<in> elems p \<longleftrightarrow> j mod d \<in> elems ?q0" for j
      by (auto simp: E bitvec_new_elems split: option.split)
    have eq: "j div d = k div d \<Longrightarrow> j mod d = k mod d \<Longrightarrow> j = k" for j
      by (metis div_mult_mod_eq)
    have "elems p \<subseteq> {j. j < sz}" by (auto simp: E)
    with in' inp eq k(1)
    have "elems q \<subseteq> {k mod d} \<union> elems ?q0 \<Longrightarrow> elems (Bitvec sz n d bm a ?s) \<subseteq> {k} \<union> elems p"
      by (auto split: if_splits)
    moreover have "elems (Bitvec sz n d bm a ?s) = {k} \<union> elems p" if "elems q = {k mod d} \<union> elems ?q0"
    proof (rule set_eqI)
      fix j
      have "j \<in> elems p \<Longrightarrow> j < sz" using \<open>elems p \<subseteq> {j. j < sz}\<close> by auto
      with in' [of j] inp [of j] eq [of j] k(1) that
      show "j \<in> elems (Bitvec sz n d bm a ?s) \<longleftrightarrow> j \<in> {k} \<union> elems p"
        by (cases "j div d = k div d"; cases "j < sz") auto
    qed
    moreover have "bitvec_wf (Bitvec sz n d bm a ?s)" using bitvec_wf.sub [OF sub(2,3) s] .
    ultimately show ?thesis by blast
  qed
  have run: "set_ok mem p {k} 0 (case bitvec_set f mem1 ?q0 (k mod d + 1) of None \<Rightarrow> None
      | Some (q, rc, mem) \<Rightarrow> Some (Bitvec sz n d bm a (sub[k div d := Some q]), rc, mem))"
    if "list_all id mem \<longrightarrow> list_all id mem1" for mem1
  proof -
    from child [OF q0, of "k mod d + 1" mem1] b(2) q0(2)
    obtain q rc mem2 where q: "bitvec_set f mem1 ?q0 (k mod d + 1) = Some (q, rc, mem2)" "bitvec_wf q" "iSize q = d"
      "elems q \<subseteq> {k mod d} \<union> elems ?q0" "rc = 0 \<longrightarrow> elems q = {k mod d} \<union> elems ?q0"
      "list_all id mem1 \<longrightarrow> rc = 0 \<and> list_all id mem2"
      by (auto simp: set_ok_def)
    from upd [OF q(2,3)] q that show ?thesis using b(3) sub(1) by (auto simp: set_ok_def)
  qed
  show ?thesis
  proof (cases "sub ! (k div d)")
    case (Some q)
    with run [of mem] show ?thesis unfolding sub(1) k(2) bitvec_set_sub_step [OF sub(2) d0] by simp
  next
    case None
    obtain ok mem1 where m: "mallocs mem = (ok, mem1)" by force
    show ?thesis
    proof (cases ok)
      case True
      with run [of mem1] None mallocs_ok [of mem] m show ?thesis
        unfolding sub(1) k(2) bitvec_set_sub_step [OF sub(2) d0] by (simp add: sqlite3BitvecCreate_def)
    next
      case False
      then have "bitvec_set (Suc f) mem p i = Some (p, SQLITE_NOMEM, mem1)"
        unfolding sub(1) k(2) bitvec_set_sub_step [OF sub(2) d0] using None m
        by (simp add: sqlite3BitvecCreate_def)
      with False m mallocs_ok [of mem] wf show ?thesis by (auto simp: set_ok_def)
    qed
  qed
qed (use d in simp_all)

lemma bitvec_set_hash_rehash:
  assumes sz: "sz > BITVEC_NBIT" and h: "hash_ok sz n a" and k: "k < sz"
    and deep: "\<And>mem q i. bitvec_wf q \<Longrightarrow> iSize q = sz \<Longrightarrow> iDivisor q \<noteq> 0 \<Longrightarrow> 0 < i \<Longrightarrow> i \<le> sz \<Longrightarrow>
      set_ok mem q {i - 1} 0 (bitvec_set f mem q i)"
    and p0_def: "p0 = Bitvec sz n (bitvec_divisor sz) bm a (replicate BITVEC_NPTR None)"
  shows "set_ok mem (Bitvec sz n 0 bm a sub) {k} 0
    (case bitvec_set f mem p0 (k + 1) of None \<Rightarrow> None
     | Some (p, rc, mem) \<Rightarrow> bitvec_set_values (bitvec_set f) mem p rc a)"
proof -
  note b = bitvec_divisor_bounds [OF sz]
  have p0: "bitvec_wf p0" "iSize p0 = sz" "iDivisor p0 \<noteq> 0"
    using b(1) by (auto simp: p0_def intro!: bitvec_wf.sub [OF sz])
  have "elems p0 = {i. i < sz \<and> (\<exists>q. replicate BITVEC_NPTR None ! (i div bitvec_divisor sz) = Some q \<and>
      i mod bitvec_divisor sz \<in> elems q)}"
    unfolding p0_def by (rule elems_sub [OF sz refl]) auto
  with div_mod_bounds [OF sz] have e0: "elems p0 = {}" by auto
  have E: "elems (Bitvec sz n 0 bm a sub) = (\<lambda>v. v - 1) ` (set a - {0})"
    unfolding elems_hash [OF sz h] by (force simp: image_iff)
  from deep [OF p0, of "k + 1" mem] k
  obtain p1 rc1 mem1 where 1: "bitvec_set f mem p0 (k + 1) = Some (p1, rc1, mem1)" "bitvec_wf p1"
    "iSize p1 = sz" "iDivisor p1 \<noteq> 0" "elems p1 \<subseteq> {k}" "rc1 = 0 \<longrightarrow> elems p1 = {k}"
    "list_all id mem \<longrightarrow> rc1 = 0 \<and> list_all id mem1"
    using p0 by (auto simp: set_ok_def e0)
  have "\<forall>v \<in> set a. v \<le> sz" using h by (auto simp: hash_ok_def list_all_iff set_slot_vals)
  from set_values_ok [OF deep 1(2-4) this, where mem = mem1 and rc = rc1]
  have "set_ok mem1 p1 ((\<lambda>v. v - 1) ` (set a - {0})) rc1 (bitvec_set_values (bitvec_set f) mem1 p1 rc1 a)" by simp
  then obtain p2 rc2 mem2 where 2: "bitvec_set_values (bitvec_set f) mem1 p1 rc1 a = Some (p2, rc2, mem2)"
    "bitvec_wf p2" "iSize p2 = sz"
    "elems p2 \<subseteq> (\<lambda>v. v - 1) ` (set a - {0}) \<union> elems p1"
    "rc2 = 0 \<longrightarrow> rc1 = 0 \<and> elems p2 = (\<lambda>v. v - 1) ` (set a - {0}) \<union> elems p1"
    "list_all id mem1 \<and> rc1 = 0 \<longrightarrow> rc2 = 0 \<and> list_all id mem2"
    using 1(3) by (auto simp: set_ok_def)
  show ?thesis
    unfolding set_ok_def E
  proof (intro exI conjI)
    show "(case bitvec_set f mem p0 (k + 1) of None \<Rightarrow> None
      | Some (p, rc, mem) \<Rightarrow> bitvec_set_values (bitvec_set f) mem p rc a) = Some (p2, rc2, mem2)"
      using 1(1) 2(1) by simp
    show "elems p2 \<subseteq> {k} \<union> (\<lambda>v. v - 1) ` (set a - {0})" using 1(5) 2(4) by blast
    show "rc2 = 0 \<longrightarrow> 0 = (0::nat) \<and> elems p2 = {k} \<union> (\<lambda>v. v - 1) ` (set a - {0})" using 1(6) 2(5) by blast
  qed (use 1 2 in auto)
qed

lemma set_hash_ok:
  assumes sz: "sz > BITVEC_NBIT" and h: "hash_ok sz n a" and k: "k < sz"
    and deep: "\<And>mem q i. bitvec_wf q \<Longrightarrow> iSize q = sz \<Longrightarrow> iDivisor q \<noteq> 0 \<Longrightarrow> 0 < i \<Longrightarrow> i \<le> sz \<Longrightarrow>
      set_ok mem q {i - 1} 0 (bitvec_set f mem q i)"
  shows "set_ok mem (Bitvec sz n 0 bm a sub) {k} 0 (bitvec_set (Suc f) mem (Bitvec sz n 0 bm a sub) (k + 1))"
proof -
  let ?p = "Bitvec sz n 0 bm a sub"
  have len: "length a = BITVEC_NINT" and ok: "probe_ok (\<lambda>v. BITVEC_HASH (v - 1)) a"
    using h by (simp_all add: hash_ok_def)
  from probe_finds [OF ok hash_ok_free [OF h], of "k + 1"] len BITVEC_HASH_less [of k]
  obtain s where s: "probe (length a) a (BITVEC_HASH k) (k + 1) = Some s"
    "a ! s = (if k + 1 \<in> set a then k + 1 else 0)" by auto
  let ?fin = "\<lambda>h. Some (Bitvec sz (n + 1) 0 bm (a[h := k + 1]) sub, SQLITE_OK, mem)"
  let ?re = "case mallocs mem of (False, mem) \<Rightarrow> Some (?p, SQLITE_NOMEM, mem)
      | (True, mem) \<Rightarrow> (case bitvec_set f mem (Bitvec sz n (bitvec_divisor sz) bm a (replicate BITVEC_NPTR None)) (k + 1) of
            None \<Rightarrow> None | Some (p, rc, mem) \<Rightarrow> bitvec_set_values (bitvec_set f) mem p rc a)"
  have wf: "bitvec_wf ?p" by (rule bitvec_wf.hash [OF sz h])
  have E: "elems ?p = {i. i + 1 \<in> set a}" by (rule elems_hash [OF sz h])
  have fin: "set_ok mem ?p {k} 0 (Some (Bitvec sz (n + 1) 0 bm (a[s := k + 1]) sub, 0, mem))"
    if new: "k + 1 \<notin> set a" and n: "n < BITVEC_NINT - 1"
  proof -
    from hash_insert [OF h n k new s(1)] s(2) new
    have ok': "hash_ok sz (n + 1) (a[s := k + 1])"
      and ins: "set (a[s := k + 1]) - {0} = insert (k + 1) (set a - {0})" by simp_all
    have "i + 1 \<in> set (a[s := k + 1]) \<longleftrightarrow> i = k \<or> i + 1 \<in> set a" for i
      using arg_cong [OF ins, of "\<lambda>A. i + 1 \<in> A"] by simp
    then have "elems (Bitvec sz (n + 1) 0 bm (a[s := k + 1]) sub) = {k} \<union> elems ?p"
      unfolding elems_hash [OF sz ok'] E by blast
    with bitvec_wf.hash [OF sz ok'] show ?thesis by (simp add: set_ok_def)
  qed
  have nomem: "set_ok mem ?p {k} 0 (Some (?p, SQLITE_NOMEM, mem1))" if "\<not> list_all id mem" for mem1
    using that wf by (auto simp: set_ok_def)
  have same: "set_ok mem ?p {k} 0 (Some (?p, 0, mem))" if "k + 1 \<in> set a"
    using that wf by (auto simp: set_ok_def E)
  have re: "set_ok mem ?p {k} 0 (case mallocs mem of (False, mem) \<Rightarrow> Some (?p, SQLITE_NOMEM, mem)
      | (True, mem) \<Rightarrow> (case bitvec_set f mem (Bitvec sz n (bitvec_divisor sz) bm a (replicate BITVEC_NPTR None)) (k + 1) of
            None \<Rightarrow> None | Some (p, rc, mem) \<Rightarrow> bitvec_set_values (bitvec_set f) mem p rc a))"
  proof (cases "mallocs mem")
    case (Pair ok mem1)
    have r: "set_ok mem1 ?p {k} 0 (case bitvec_set f mem1 (Bitvec sz n (bitvec_divisor sz) bm a (replicate BITVEC_NPTR None)) (k + 1) of
            None \<Rightarrow> None | Some (p, rc, mem) \<Rightarrow> bitvec_set_values (bitvec_set f) mem p rc a)"
      by (rule bitvec_set_hash_rehash [OF sz h k deep refl])
    show ?thesis
    proof (cases ok)
      case True
      with r mallocs_ok [of mem] Pair show ?thesis by (auto simp: set_ok_def)
    next
      case False
      with mallocs_ok [of mem] Pair nomem [of mem1] show ?thesis by auto
    qed
  qed
  have n: "n < BITVEC_NINT" using h by (simp add: hash_ok_def)
  show ?thesis
    unfolding bitvec_set_hash_step [OF sz] Let_def
  proof (split if_split, intro conjI impI)
    assume "a ! BITVEC_HASH k = 0"
    then have "probe (length a) a (BITVEC_HASH k) (k + 1) = Some (BITVEC_HASH k)"
      unfolding len by (simp add: numeral_eq_Suc)
    with s \<open>a ! BITVEC_HASH k = 0\<close> have "s = BITVEC_HASH k" "k + 1 \<notin> set a" by (auto split: if_splits)
    with fin re n show "set_ok mem ?p {k} 0 (if n < BITVEC_NINT - 1 then ?fin (BITVEC_HASH k)
        else if BITVEC_MXHASH \<le> n then ?re else ?fin (BITVEC_HASH k))"
      by (simp del: bitvec_set.simps)
  next
    assume "a ! BITVEC_HASH k \<noteq> 0"
    show "set_ok mem ?p {k} 0 (case probe (length a) a (BITVEC_HASH k) (k + 1) of None \<Rightarrow> None
       | Some h \<Rightarrow> if a ! h = k + 1 then Some (?p, SQLITE_OK, mem) else if BITVEC_MXHASH \<le> n then ?re else ?fin h)"
      using s fin re same by (cases "k + 1 \<in> set a"; cases "n \<ge> BITVEC_MXHASH") simp_all
  qed
qed

lemma set_bitmap_ok:
  assumes sz: "sz \<le> BITVEC_NBIT" and bm: "length bm = BITVEC_NELEM" and k: "k < sz"
  shows "set_ok mem (Bitvec sz n 0 bm a sub) {k} 0 (bitvec_set (Suc f) mem (Bitvec sz n 0 bm a sub) (k + 1))"
proof -
  have "elems (Bitvec sz n 0 (bitmap_set bm k) a sub) = {k} \<union> elems (Bitvec sz n 0 bm a sub)"
    using bitmap_test_set [of k bm] sz bm k by (auto simp: elems_bitmap)
  moreover have "bitvec_wf (Bitvec sz n 0 (bitmap_set bm k) a sub)"
    using sz bm by (auto intro: bitvec_wf.bitmap simp: bitmap_set_def)
  ultimately show ?thesis using sz by (simp add: set_ok_def Let_def)
qed

text \<open>Two units of fuel for each level of the tree are enough.\<close>

lemma bitvec_set_ok:
  "bitvec_wf p \<Longrightarrow> iSize p \<le> BITVEC_NBIT * BITVEC_NPTR ^ k \<Longrightarrow> 2 * k + 2 \<le> f \<Longrightarrow> 0 < i \<Longrightarrow> i \<le> iSize p \<Longrightarrow>
   set_ok mem p {i - 1} 0 (bitvec_set f mem p i)"
proof (induction k arbitrary: mem p f i)
  case 0
  obtain f' where f: "f = Suc f'" using "0.prems"(3) by (cases f) auto
  from "0.prems"(1) show ?case
  proof cases
    case (bitmap sz bm n a sub)
    with set_bitmap_ok [of sz bm "i - 1" mem n a sub f'] "0.prems" show ?thesis by (simp add: f)
  qed (use "0.prems" in auto)
next
  case (Suc k)
  have deep: "set_ok mem q {i - 1} 0 (bitvec_set g mem q i)"
    if "bitvec_wf q" "iSize q = iSize p" "iDivisor q \<noteq> 0" "0 < i" "i \<le> iSize p" "2 * k + 3 \<le> g" for mem q i g
  proof -
    obtain g' where g: "g = Suc g'" "2 * k + 2 \<le> g'" using \<open>2 * k + 3 \<le> g\<close> by (cases g) auto
    have "BITVEC_NBIT < iSize q" using that(1,3) by cases auto
    from bitvec_divisor_bounds(4) [OF this, of k]
    have "bitvec_divisor (iSize q) \<le> BITVEC_NBIT * BITVEC_NPTR ^ k" using Suc.prems(2) that(2) by simp
    with Suc.IH g(2) that show ?thesis unfolding g(1) by (intro set_sub_ok) auto
  qed
  obtain f' where f: "f = Suc f'" "2 * k + 3 \<le> f'" using Suc.prems(3) by (cases f) auto
  from Suc.prems(1) show ?case
  proof cases
    case (bitmap sz bm n a sub)
    with set_bitmap_ok [of sz bm "i - 1" mem n a sub f'] Suc.prems show ?thesis by (simp add: f)
  next
    case (hash sz n a bm sub)
    have "set_ok mem p {i - 1} 0 (bitvec_set (Suc f') mem p (i - 1 + 1))"
      unfolding hash(1) using deep f(2) hash Suc.prems(4,5) by (intro set_hash_ok) auto
    then show ?thesis using Suc.prems(4) by (simp add: f)
  next
    case (sub sz d sub n bm a)
    then have "iDivisor p \<noteq> 0" using bitvec_divisor_bounds(1) by auto
    with deep [of p i f] Suc.prems show ?thesis by simp
  qed
qed

section \<open>Clearing a bit\<close>

lemma bitvec_clear_ok:
  "bitvec_wf p \<Longrightarrow> i < iSize p \<Longrightarrow>
   \<exists>p'. bitvec_clear p i = Some p' \<and> bitvec_wf p' \<and> iSize p' = iSize p \<and> elems p' = elems p - {i}"
proof (induction p arbitrary: i rule: bitvec_wf.induct)
  case (bitmap sz bm n a sub)
  then have "bitmap_test (bitmap_clear bm i) j \<longleftrightarrow> j \<noteq> i \<and> bitmap_test bm j" if "j < sz" for j
    using that by (intro bitmap_test_clear) auto
  then have "elems (Bitvec sz n 0 (bitmap_clear bm i) a sub) = elems (Bitvec sz n 0 bm a sub) - {i}"
    unfolding elems_bitmap [OF bitmap.hyps(1)] by blast
  moreover have "bitvec_wf (Bitvec sz n 0 (bitmap_clear bm i) a sub)"
    using bitmap.hyps by (intro bitvec_wf.bitmap) (simp_all add: bitmap_clear_def)
  ultimately show ?case using bitmap.hyps(1) by simp
next
  case (hash sz n a bm sub)
  have v: "length a = BITVEC_NINT" "distinct (slot_vals a)" "length (slot_vals a) < BITVEC_NINT"
    "list_all (\<lambda>v. v \<le> sz) (slot_vals a)"
    using hash.hyps(2) by (simp_all add: hash_ok_def)
  have z: "set (replicate BITVEC_NINT 0) - {0} = ({} :: nat set)" by auto
  from hash_rebuild_correct [OF hash_empty, of a sz i, unfolded z] v
  obtain a' n' where r: "hash_rebuild (replicate BITVEC_NINT 0) 0 i a = Some (a', n')" "hash_ok sz n' a'"
    "set a' - {0} = set a - {0, i + 1}" by (metis Int_empty_left Un_empty_left add_0)
  have "j + 1 \<in> set a' \<longleftrightarrow> j \<noteq> i \<and> j + 1 \<in> set a" for j
    using arg_cong [OF r(3), of "\<lambda>A. j + 1 \<in> A"] by auto
  then have "elems (Bitvec sz n' 0 bm a' sub) = elems (Bitvec sz n 0 bm a sub) - {i}"
    unfolding elems_hash [OF hash.hyps(1) r(2)] elems_hash [OF hash.hyps] by blast
  with r hash.hyps(1) bitvec_wf.hash [OF hash.hyps(1) r(2)] show ?case by auto
next
  case (sub sz d sub n bm a)
  have k: "i < sz" using sub.prems by simp
  note b = div_mod_bounds [OF sub.hyps(1) k, folded sub.hyps(2)] bitvec_divisor_bounds [OF sub.hyps(1), folded sub.hyps(2)]
  let ?p = "Bitvec sz n d bm a sub"
  have sub': "\<And>q. Some q \<in> set sub \<Longrightarrow> iSize q = d \<and> bitvec_wf q" using sub.IH by blast
  have E: "elems ?p = {i. i < sz \<and> (\<exists>q. sub ! (i div d) = Some q \<and> i mod d \<in> elems q)}"
    by (rule elems_sub [OF sub.hyps sub'])
  show ?case
  proof (cases "sub ! (i div d)")
    case None
    then have "i \<notin> elems ?p" unfolding E by simp
    with None b bitvec_wf.sub [OF sub.hyps sub'] sub.hyps(3) show ?thesis by auto
  next
    case (Some q)
    with b(1) sub.hyps(3) have "Some q \<in> set sub" by (metis nth_mem)
    with sub.IH [OF this] b(2) obtain q' where q': "bitvec_clear q (i mod d) = Some q'" "bitvec_wf q'"
      "iSize q' = d" "elems q' = elems q - {i mod d}" by auto
    let ?s = "sub[i div d := Some q']"
    have s: "length ?s = BITVEC_NPTR" "\<And>q. Some q \<in> set ?s \<Longrightarrow> iSize q = d \<and> bitvec_wf q"
      using sub.hyps(3) sub' q' by (auto dest!: set_update_subset_insert [THEN subsetD])
    have E': "elems (Bitvec sz n d bm a ?s) = {i. i < sz \<and> (\<exists>q. ?s ! (i div d) = Some q \<and> i mod d \<in> elems q)}"
      by (rule elems_sub [OF sub.hyps(1,2) s])
    have eq: "j div d = i div d \<Longrightarrow> j mod d = i mod d \<Longrightarrow> j = i" for j by (metis div_mult_mod_eq)
    have "j \<in> elems (Bitvec sz n d bm a ?s) \<longleftrightarrow> j \<in> elems ?p - {i}" for j
      using b(1) sub.hyps(3) Some q'(4) eq [of j] unfolding E E' by (cases "j div d = i div d") auto
    then have "elems (Bitvec sz n d bm a ?s) = elems ?p - {i}" by blast
    moreover have "bitvec_clear ?p i = Some (Bitvec sz n d bm a ?s)" using Some q'(1) b(1,3) sub.hyps(3) by simp
    ultimately show ?thesis using bitvec_wf.sub [OF sub.hyps(1,2) s] by simp
  qed
qed

section \<open>The interface\<close>

definition bitvec_abs :: "bitvec \<Rightarrow> u32 set" where
  "bitvec_abs p = {i. i \<noteq> 0 \<and> unat i - 1 \<in> elems p}"

lemma elems_bound: "i \<in> elems p \<Longrightarrow> i < iSize p"
  by (simp add: elems_def)

lemma unat_pred: "i \<noteq> 0 \<Longrightarrow> unat (i - 1 :: u32) = unat i - 1"
  by (simp add: unat_minus_one)

lemma unat_pred_eq:
  assumes "i \<noteq> 0" "j \<noteq> (0 :: u32)"
  shows "unat j - 1 = unat i - 1 \<longleftrightarrow> j = i"
proof -
  have "0 < unat i" "0 < unat j" using assms by (simp_all add: unat_gt_0)
  then have "unat j - 1 = unat i - 1 \<longleftrightarrow> unat j = unat i" by linarith
  then show ?thesis by (simp only: word_unat_eq_iff)
qed

lemma sqlite3BitvecTest_ok:
  assumes "bitvec_wf p" "iSize p < 2 ^ 32"
  shows "sqlite3BitvecTest (Some p) i = Some (i \<in> bitvec_abs p)"
proof (cases "i = 0")
  case True
  have "unat (- 1 :: u32) = 2 ^ 32 - 1" by (simp add: unsigned_minus_1_eq_mask mask_eq_exp_minus_1)
  with True assms show ?thesis
    by (simp add: sqlite3BitvecTest_def sqlite3BitvecTestNotNull_def bitvec_abs_def)
next
  case False
  with assms bitvec_test_total [OF assms(1), of "unat i - 1"] elems_bound [of "unat i - 1" p] show ?thesis
    by (auto simp: sqlite3BitvecTest_def sqlite3BitvecTestNotNull_def bitvec_abs_def unat_pred not_le Let_def)
qed

lemma sqlite3BitvecSet_ok:
  assumes "bitvec_wf p" "iSize p < 2 ^ 32" "0 < i" "unat i \<le> iSize p"
  shows "\<exists>p' rc mem'. sqlite3BitvecSet mem (Some p) i = Some (Some p', rc, mem') \<and>
    bitvec_wf p' \<and> iSize p' = iSize p \<and> bitvec_abs p' \<subseteq> insert i (bitvec_abs p) \<and>
    (rc = SQLITE_OK \<longrightarrow> bitvec_abs p' = insert i (bitvec_abs p)) \<and>
    (list_all id mem \<longrightarrow> rc = SQLITE_OK)"
proof -
  have "i \<noteq> 0" "0 < unat i" using assms(3) by (auto simp: unat_gt_0)
  from bitvec_set_ok [OF assms(1), of 4 10 "unat i" mem] assms(2,4) this(2)
  obtain p' rc mem' where r: "bitvec_set 10 mem p (unat i) = Some (p', rc, mem')" "bitvec_wf p'" "iSize p' = iSize p"
    "elems p' \<subseteq> {unat i - 1} \<union> elems p" "rc = 0 \<longrightarrow> elems p' = {unat i - 1} \<union> elems p"
    "list_all id mem \<longrightarrow> rc = 0"
    unfolding set_ok_def by (simp del: bitvec_set.simps) blast
  have eq: "j \<noteq> 0 \<Longrightarrow> unat j - 1 = unat i - 1 \<longleftrightarrow> j = i" for j :: u32
    using unat_pred_eq [OF \<open>i \<noteq> 0\<close>] .
  have "bitvec_abs p' \<subseteq> insert i (bitvec_abs p)" using r(4) eq by (auto simp: bitvec_abs_def)
  moreover have "rc = 0 \<longrightarrow> bitvec_abs p' = insert i (bitvec_abs p)"
    using r(5) eq \<open>i \<noteq> 0\<close> by (auto simp: bitvec_abs_def)
  ultimately show ?thesis using r by (auto simp: sqlite3BitvecSet_def)
qed

lemma sqlite3BitvecClear_ok:
  assumes "bitvec_wf p" "0 < i" "unat i \<le> iSize p"
  shows "\<exists>p'. sqlite3BitvecClear (Some p) i = Some (Some p') \<and> bitvec_wf p' \<and> iSize p' = iSize p \<and>
    bitvec_abs p' = bitvec_abs p - {i}"
proof -
  have "i \<noteq> 0" "0 < unat i" using assms(2) by (auto simp: unat_gt_0)
  then have "unat i - 1 < iSize p" using assms(3) by linarith
  from bitvec_clear_ok [OF assms(1) this]
  obtain p' where p': "bitvec_clear p (unat i - 1) = Some p'" "bitvec_wf p'" "iSize p' = iSize p"
    "elems p' = elems p - {unat i - 1}" by blast
  have eq: "j \<noteq> 0 \<Longrightarrow> unat j - 1 = unat i - 1 \<longleftrightarrow> j = i" for j :: u32
    using unat_pred_eq [OF \<open>i \<noteq> 0\<close>] .
  with p' \<open>i \<noteq> 0\<close> show ?thesis by (auto simp: sqlite3BitvecClear_def bitvec_abs_def unat_pred)
qed

text \<open>What a client sees: a set of page numbers; each operation answers with a truth value
  (success, or membership).\<close>

datatype bitvec_op = BvSet u32 | BvClear u32 | BvTest u32

fun bitvec_step :: "bitvec \<Rightarrow> bitvec_op \<Rightarrow> (bitvec \<times> bool) option" where
  "bitvec_step p (BvSet i) =
     (case sqlite3BitvecSet [] (Some p) i of Some (Some p, rc, mem) \<Rightarrow> Some (p, rc = SQLITE_OK) | _ \<Rightarrow> None)"
| "bitvec_step p (BvClear i) =
     (case sqlite3BitvecClear (Some p) i of Some (Some p) \<Rightarrow> Some (p, True) | _ \<Rightarrow> None)"
| "bitvec_step p (BvTest i) = map_option (Pair p) (sqlite3BitvecTest (Some p) i)"

fun bitvec_spec :: "u32 set \<Rightarrow> bitvec_op \<Rightarrow> u32 set \<times> bool" where
  "bitvec_spec S (BvSet i) = (insert i S, True)"
| "bitvec_spec S (BvClear i) = (S - {i}, True)"
| "bitvec_spec S (BvTest i) = (S, i \<in> S)"

fun bitvec_op_ok :: "u32 \<Rightarrow> bitvec_op \<Rightarrow> bool" where
  "bitvec_op_ok sz (BvSet i) = (0 < i \<and> i \<le> sz)"
| "bitvec_op_ok sz (BvClear i) = (0 < i \<and> i \<le> sz)"
| "bitvec_op_ok sz (BvTest i) = True"

definition bitvec_inv :: "u32 \<Rightarrow> bitvec \<Rightarrow> bool" where
  "bitvec_inv sz p \<longleftrightarrow> bitvec_wf p \<and> iSize p = unat sz"

lemma unat_less_32: "unat (w :: u32) < 2 ^ 32"
  using unsigned_less [of w] by simp

lemma bitvec_inv_bound: "bitvec_inv sz p \<Longrightarrow> iSize p < 2 ^ 32"
  by (metis bitvec_inv_def of_nat_less_iff unat_less_32)

lemma bitvec_step_correct:
  assumes "bitvec_inv sz p" "bitvec_op_ok sz x"
  shows "\<exists>t. bitvec_step p x = Some (t, snd (bitvec_spec (bitvec_abs p) x)) \<and> bitvec_inv sz t \<and>
    bitvec_abs t = fst (bitvec_spec (bitvec_abs p) x)"
proof -
  have p: "bitvec_wf p" "iSize p = unat sz" "iSize p < 2 ^ 32"
    using assms(1) bitvec_inv_bound by (auto simp: bitvec_inv_def)
  show ?thesis
  proof (cases x)
    case (BvSet i)
    with assms(2) sqlite3BitvecSet_ok [OF p(1,3), of i "[]"] p(2) show ?thesis
      by (force simp: bitvec_inv_def word_le_nat_alt)
  next
    case (BvClear i)
    with assms(2) sqlite3BitvecClear_ok [OF p(1), of i] p(2) show ?thesis
      by (force simp: bitvec_inv_def word_le_nat_alt)
  next
    case (BvTest i)
    with sqlite3BitvecTest_ok [OF p(1,3), of i] assms(1) show ?thesis by simp
  qed
qed

text \<open>The bit vector provides the interface of a bounded simulation, with no bound on the number
  of operations.\<close>

interpretation bitvec: bounded_simulation bitvec_step bitvec_spec bitvec_abs "bitvec_inv sz"
  "bitvec_op_ok sz" "\<lambda>p. 0" cap for sz :: u32 and cap :: nat
  by unfold_locales (use bitvec_step_correct in fastforce)

lemma bitvec_new_inv: "bitvec_inv sz (bitvec_new (unat sz))"
  by (simp add: bitvec_inv_def bitvec_new_wf iSize_bitvec_new)

lemma bitvec_new_abs: "bitvec_abs (bitvec_new n) = {}"
  by (simp add: bitvec_abs_def bitvec_new_elems)

text \<open>Vectors that can arise, whatever allocations failed on the way.\<close>

inductive bitvec_reach :: "u32 \<Rightarrow> bitvec \<Rightarrow> bool" for sz :: u32 where
  create: "sqlite3BitvecCreate mem (unat sz) = (Some p, mem') \<Longrightarrow> bitvec_reach sz p"
| set_bit: "bitvec_reach sz p \<Longrightarrow> 0 < i \<Longrightarrow> i \<le> sz \<Longrightarrow>
    sqlite3BitvecSet mem (Some p) i = Some (Some q, rc, mem') \<Longrightarrow> bitvec_reach sz q"
| clear_bit: "bitvec_reach sz p \<Longrightarrow> 0 < i \<Longrightarrow> i \<le> sz \<Longrightarrow>
    sqlite3BitvecClear (Some p) i = Some (Some q) \<Longrightarrow> bitvec_reach sz q"

lemma bitvec_reach_inv: "bitvec_reach sz p \<Longrightarrow> bitvec_inv sz p"
proof (induction rule: bitvec_reach.induct)
  case (create mem p mem')
  then show ?case using bitvec_new_inv by (auto simp: sqlite3BitvecCreate_def split: prod.splits if_splits)
next
  case (set_bit p i mem q rc mem')
  with sqlite3BitvecSet_ok [of p i mem] bitvec_inv_bound [OF set_bit.IH] show ?case
    by (auto simp: bitvec_inv_def word_le_nat_alt)
next
  case (clear_bit p i q)
  with sqlite3BitvecClear_ok [of p i] show ?case
    by (auto simp: bitvec_inv_def word_le_nat_alt)
qed

section \<open>Properties\<close>

text \<open>
  C13. The bit vector is a set of page numbers: for every size and every sequence of
  insertions, removals and tests (insertions and removals within the size, tests anywhere), the
  run from a fresh vector never fails and answers as the set does, whichever of the bitmap, the
  hash table and the tree of sub-vectors holds the bits; the recursion of the tree is at most four
  levels deep.
\<close>

theorem bitvec_refines_set:
  assumes "list_all (bitvec_op_ok sz) ops"
  shows "run_ops bitvec_step (bitvec_new (unat sz)) ops = Some (spec_ops bitvec_spec {} ops)"
  using bitvec.run_refines [OF bitvec_new_inv, of ops "length ops" sz] assms by (simp add: bitvec_new_abs)

theorem bitvec_refines_set_witness:
  "run_ops bitvec_step (bitvec_new (unat (100000 :: u32)))
     [BvSet 7, BvSet 131, BvSet 99999, BvClear 7, BvTest 131, BvTest 7, BvTest 0] =
   Some [True, True, True, True, True, False, False]"
  using bitvec_refines_set [of 100000 "[BvSet 7, BvSet 131, BvSet 99999, BvClear 7, BvTest 131, BvTest 7, BvTest 0]"]
  by simp

text \<open>
  C22. Out of memory is safe: whatever allocations failed before, setting a bit always returns;
  when it returns OK the vector holds exactly one bit more, and when it fails no bit appears that
  was not there or being set.
\<close>

theorem bitvec_set_oom:
  assumes "bitvec_reach sz p" "0 < i" "i \<le> sz"
  shows "\<exists>p' rc mem'. sqlite3BitvecSet mem (Some p) i = Some (Some p', rc, mem') \<and>
    (rc = SQLITE_OK \<longrightarrow> (\<forall>j. sqlite3BitvecTest (Some p') j =
       (if j = i then Some True else sqlite3BitvecTest (Some p) j))) \<and>
    (\<forall>j. sqlite3BitvecTest (Some p') j = Some True \<longrightarrow> j = i \<or> sqlite3BitvecTest (Some p) j = Some True)"
proof -
  from bitvec_reach_inv [OF assms(1)] have p: "bitvec_wf p" "iSize p = unat sz" "iSize p < 2 ^ 32"
    using bitvec_inv_bound by (auto simp: bitvec_inv_def)
  from sqlite3BitvecSet_ok [OF p(1,3) assms(2), of mem] assms(3) p(2)
  obtain p' rc mem' where r: "sqlite3BitvecSet mem (Some p) i = Some (Some p', rc, mem')" "bitvec_wf p'"
    "iSize p' = iSize p" "bitvec_abs p' \<subseteq> insert i (bitvec_abs p)"
    "rc = SQLITE_OK \<longrightarrow> bitvec_abs p' = insert i (bitvec_abs p)" by (auto simp: word_le_nat_alt)
  have "sqlite3BitvecTest (Some p') j = Some (j \<in> bitvec_abs p')" for j
    using sqlite3BitvecTest_ok r(2,3) p(3) by simp
  with r sqlite3BitvecTest_ok [OF p(1,3)] show ?thesis by (auto 0 3)
qed

theorem bitvec_set_oom_witness:
  "bitvec_reach 5000 (bitvec_new 5000) \<and>
   (\<exists>p' rc mem'. sqlite3BitvecSet [False] (Some (bitvec_new 5000)) 17 = Some (Some p', rc, mem') \<and>
      (sqlite3BitvecTest (Some p') 18 = Some True \<longrightarrow> sqlite3BitvecTest (Some (bitvec_new 5000)) 18 = Some True))"
proof -
  have r: "bitvec_reach 5000 (bitvec_new 5000)"
    by (rule bitvec_reach.create [of "[]" _ _ "[]"]) (simp add: sqlite3BitvecCreate_def)
  from bitvec_set_oom [OF r, of 17 "[False]"] have "\<exists>p' rc mem'.
      sqlite3BitvecSet [False] (Some (bitvec_new 5000)) 17 = Some (Some p', rc, mem') \<and>
      (\<forall>j. sqlite3BitvecTest (Some p') j = Some True \<longrightarrow> j = 17 \<or>
         sqlite3BitvecTest (Some (bitvec_new 5000)) j = Some True)" by auto
  with r show ?thesis by fastforce
qed

end
