(* ===== verification/Text_Bytes.thy ===== *)
theory Text_Bytes
  imports Prelude
begin

text \<open>
  The byte-level text routines of global.c, util.c and func.c: the character classes, comparison
  without case, quoted identifiers and hexadecimal blob literals. Bytes are 8-bit words.
\<close>

section \<open>Character classes\<close>

definition sqlite3CtypeMap :: "u8 list" where
  "sqlite3CtypeMap =
    [0x00, 0x00, 0x00, 0x00, 0x00, 0x00, 0x00, 0x00, 0x00, 0x01, 0x01, 0x01, 0x01, 0x01, 0x00, 0x00,
     0x00, 0x00, 0x00, 0x00, 0x00, 0x00, 0x00, 0x00, 0x00, 0x00, 0x00, 0x00, 0x00, 0x00, 0x00, 0x00,
     0x01, 0x00, 0x80, 0x00, 0x40, 0x00, 0x00, 0x80, 0x00, 0x00, 0x00, 0x00, 0x00, 0x00, 0x00, 0x00,
     0x0c, 0x0c, 0x0c, 0x0c, 0x0c, 0x0c, 0x0c, 0x0c, 0x0c, 0x0c, 0x00, 0x00, 0x00, 0x00, 0x00, 0x00,
     0x00, 0x0a, 0x0a, 0x0a, 0x0a, 0x0a, 0x0a, 0x02, 0x02, 0x02, 0x02, 0x02, 0x02, 0x02, 0x02, 0x02,
     0x02, 0x02, 0x02, 0x02, 0x02, 0x02, 0x02, 0x02, 0x02, 0x02, 0x02, 0x80, 0x00, 0x00, 0x00, 0x40,
     0x80, 0x2a, 0x2a, 0x2a, 0x2a, 0x2a, 0x2a, 0x22, 0x22, 0x22, 0x22, 0x22, 0x22, 0x22, 0x22, 0x22,
     0x22, 0x22, 0x22, 0x22, 0x22, 0x22, 0x22, 0x22, 0x22, 0x22, 0x22, 0x00, 0x00, 0x00, 0x00, 0x00,
     0x40, 0x40, 0x40, 0x40, 0x40, 0x40, 0x40, 0x40, 0x40, 0x40, 0x40, 0x40, 0x40, 0x40, 0x40, 0x40,
     0x40, 0x40, 0x40, 0x40, 0x40, 0x40, 0x40, 0x40, 0x40, 0x40, 0x40, 0x40, 0x40, 0x40, 0x40, 0x40,
     0x40, 0x40, 0x40, 0x40, 0x40, 0x40, 0x40, 0x40, 0x40, 0x40, 0x40, 0x40, 0x40, 0x40, 0x40, 0x40,
     0x40, 0x40, 0x40, 0x40, 0x40, 0x40, 0x40, 0x40, 0x40, 0x40, 0x40, 0x40, 0x40, 0x40, 0x40, 0x40,
     0x40, 0x40, 0x40, 0x40, 0x40, 0x40, 0x40, 0x40, 0x40, 0x40, 0x40, 0x40, 0x40, 0x40, 0x40, 0x40,
     0x40, 0x40, 0x40, 0x40, 0x40, 0x40, 0x40, 0x40, 0x40, 0x40, 0x40, 0x40, 0x40, 0x40, 0x40, 0x40,
     0x40, 0x40, 0x40, 0x40, 0x40, 0x40, 0x40, 0x40, 0x40, 0x40, 0x40, 0x40, 0x40, 0x40, 0x40, 0x40,
     0x40, 0x40, 0x40, 0x40, 0x40, 0x40, 0x40, 0x40, 0x40, 0x40, 0x40, 0x40, 0x40, 0x40, 0x40, 0x40]"

definition sqlite3UpperToLower :: "u8 list" where
  "sqlite3UpperToLower =
    [0, 1, 2, 3, 4, 5, 6, 7, 8, 9, 10, 11, 12, 13, 14, 15,
     16, 17, 18, 19, 20, 21, 22, 23, 24, 25, 26, 27, 28, 29, 30, 31,
     32, 33, 34, 35, 36, 37, 38, 39, 40, 41, 42, 43, 44, 45, 46, 47,
     48, 49, 50, 51, 52, 53, 54, 55, 56, 57, 58, 59, 60, 61, 62, 63,
     64, 97, 98, 99, 100, 101, 102, 103, 104, 105, 106, 107, 108, 109, 110, 111,
     112, 113, 114, 115, 116, 117, 118, 119, 120, 121, 122, 91, 92, 93, 94, 95,
     96, 97, 98, 99, 100, 101, 102, 103, 104, 105, 106, 107, 108, 109, 110, 111,
     112, 113, 114, 115, 116, 117, 118, 119, 120, 121, 122, 123, 124, 125, 126, 127,
     128, 129, 130, 131, 132, 133, 134, 135, 136, 137, 138, 139, 140, 141, 142, 143,
     144, 145, 146, 147, 148, 149, 150, 151, 152, 153, 154, 155, 156, 157, 158, 159,
     160, 161, 162, 163, 164, 165, 166, 167, 168, 169, 170, 171, 172, 173, 174, 175,
     176, 177, 178, 179, 180, 181, 182, 183, 184, 185, 186, 187, 188, 189, 190, 191,
     192, 193, 194, 195, 196, 197, 198, 199, 200, 201, 202, 203, 204, 205, 206, 207,
     208, 209, 210, 211, 212, 213, 214, 215, 216, 217, 218, 219, 220, 221, 222, 223,
     224, 225, 226, 227, 228, 229, 230, 231, 232, 233, 234, 235, 236, 237, 238, 239,
     240, 241, 242, 243, 244, 245, 246, 247, 248, 249, 250, 251, 252, 253, 254, 255]"

definition sqlite3Toupper :: "u8 \<Rightarrow> u8" where
  "sqlite3Toupper x = x AND NOT (sqlite3CtypeMap ! unat x AND 0x20)"

definition sqlite3Isspace :: "u8 \<Rightarrow> bool" where
  "sqlite3Isspace x \<longleftrightarrow> sqlite3CtypeMap ! unat x AND 0x01 \<noteq> 0"

definition sqlite3Isalnum :: "u8 \<Rightarrow> bool" where
  "sqlite3Isalnum x \<longleftrightarrow> sqlite3CtypeMap ! unat x AND 0x06 \<noteq> 0"

definition sqlite3Isalpha :: "u8 \<Rightarrow> bool" where
  "sqlite3Isalpha x \<longleftrightarrow> sqlite3CtypeMap ! unat x AND 0x02 \<noteq> 0"

definition sqlite3Isdigit :: "u8 \<Rightarrow> bool" where
  "sqlite3Isdigit x \<longleftrightarrow> sqlite3CtypeMap ! unat x AND 0x04 \<noteq> 0"

definition sqlite3Isxdigit :: "u8 \<Rightarrow> bool" where
  "sqlite3Isxdigit x \<longleftrightarrow> sqlite3CtypeMap ! unat x AND 0x08 \<noteq> 0"

definition sqlite3Tolower :: "u8 \<Rightarrow> u8" where
  "sqlite3Tolower x = sqlite3UpperToLower ! unat x"

definition sqlite3Isquote :: "u8 \<Rightarrow> bool" where
  "sqlite3Isquote x \<longleftrightarrow> sqlite3CtypeMap ! unat x AND 0x80 \<noteq> 0"

lemma table_u8:
  assumes "map f tbl = map g [0..<256]"
  shows "f (tbl ! unat (x :: u8)) = g (unat x)"
proof -
  have x: "unat x < 256" using unsigned_less [of x] by simp
  have "length tbl = 256" using arg_cong [OF assms, of length] by simp
  with arg_cong [OF assms, of "\<lambda>l. l ! unat x"] x show ?thesis by simp
qed

lemma CtypeMap_space: "map (\<lambda>c. c AND 0x01 \<noteq> 0) sqlite3CtypeMap = map (\<lambda>n. n = 32 \<or> 9 \<le> n \<and> n \<le> 13) [0..<256]"
  by code_simp

lemma CtypeMap_alpha: "map (\<lambda>c. c AND 0x02 \<noteq> 0) sqlite3CtypeMap =
  map (\<lambda>n. 65 \<le> n \<and> n \<le> 90 \<or> 97 \<le> n \<and> n \<le> 122) [0..<256]"
  by code_simp

lemma CtypeMap_digit: "map (\<lambda>c. c AND 0x04 \<noteq> 0) sqlite3CtypeMap = map (\<lambda>n. 48 \<le> n \<and> n \<le> 57) [0..<256]"
  by code_simp

lemma CtypeMap_xdigit: "map (\<lambda>c. c AND 0x08 \<noteq> 0) sqlite3CtypeMap =
  map (\<lambda>n. 48 \<le> n \<and> n \<le> 57 \<or> 65 \<le> n \<and> n \<le> 70 \<or> 97 \<le> n \<and> n \<le> 102) [0..<256]"
  by code_simp

lemma CtypeMap_quote: "map (\<lambda>c. c AND 0x80 \<noteq> 0) sqlite3CtypeMap =
  map (\<lambda>n. n = 34 \<or> n = 39 \<or> n = 91 \<or> n = 96) [0..<256]"
  by code_simp

lemma UpperToLower_fold: "map (\<lambda>c. unat c) sqlite3UpperToLower =
  map (\<lambda>n. if 65 \<le> n \<and> n \<le> 90 then n + 32 else n) [0..<256]"
  by code_simp

lemma sqlite3Isspace_iff: "sqlite3Isspace x \<longleftrightarrow> unat x = 32 \<or> 9 \<le> unat x \<and> unat x \<le> 13"
  unfolding sqlite3Isspace_def by (rule table_u8 [OF CtypeMap_space])

lemma sqlite3Isalpha_iff: "sqlite3Isalpha x \<longleftrightarrow> 65 \<le> unat x \<and> unat x \<le> 90 \<or> 97 \<le> unat x \<and> unat x \<le> 122"
  unfolding sqlite3Isalpha_def by (rule table_u8 [OF CtypeMap_alpha])

lemma sqlite3Isdigit_iff: "sqlite3Isdigit x \<longleftrightarrow> 48 \<le> unat x \<and> unat x \<le> 57"
  unfolding sqlite3Isdigit_def by (rule table_u8 [OF CtypeMap_digit])

lemma sqlite3Isxdigit_iff: "sqlite3Isxdigit x \<longleftrightarrow>
  48 \<le> unat x \<and> unat x \<le> 57 \<or> 65 \<le> unat x \<and> unat x \<le> 70 \<or> 97 \<le> unat x \<and> unat x \<le> 102"
  unfolding sqlite3Isxdigit_def by (rule table_u8 [OF CtypeMap_xdigit])

lemma sqlite3Isquote_iff: "sqlite3Isquote x \<longleftrightarrow> unat x = 34 \<or> unat x = 39 \<or> unat x = 91 \<or> unat x = 96"
  unfolding sqlite3Isquote_def by (rule table_u8 [OF CtypeMap_quote])

lemma unat_sqlite3Tolower: "unat (sqlite3Tolower x) = (if 65 \<le> unat x \<and> unat x \<le> 90 then unat x + 32 else unat x)"
  unfolding sqlite3Tolower_def by (rule table_u8 [OF UpperToLower_fold])

lemma sqlite3Tolower_0: "sqlite3Tolower x = 0 \<longleftrightarrow> x = 0"
  unfolding word_unat_eq_iff unat_sqlite3Tolower by simp

section \<open>Comparison without case\<close>

text \<open>A C string is the list of its bytes before the terminator; reading at its end gives the
  terminator.\<close>

fun head0 :: "bytes \<Rightarrow> u8" where
  "head0 [] = 0"
| "head0 (c # cs) = c"

function sqlite3StrICmp :: "bytes \<Rightarrow> bytes \<Rightarrow> int" where
  "sqlite3StrICmp a b =
     (let c = head0 a; x = head0 b
      in if c = x then (if c = 0 then 0 else sqlite3StrICmp (tl a) (tl b))
         else (let d = uint (sqlite3Tolower c) - uint (sqlite3Tolower x)
               in if d \<noteq> 0 then d else sqlite3StrICmp (tl a) (tl b)))"
  by pat_completeness auto
termination
proof (relation "measure (\<lambda>(a, b). length a)", goal_cases)
  case (2 a b c x)
  then show ?case by (cases a) auto
next
  case (3 a b c x d)
  then have "c \<noteq> 0" using sqlite3Tolower_0 [of x] sqlite3Tolower_0 [of c] by (auto simp: word_uint_eq_iff)
  with 3 show ?case by (cases a) auto
qed simp

declare sqlite3StrICmp.simps [simp del]

fun sqlite3_stricmp :: "bytes option \<Rightarrow> bytes option \<Rightarrow> int" where
  "sqlite3_stricmp None None = 0"
| "sqlite3_stricmp None (Some b) = -1"
| "sqlite3_stricmp (Some a) None = 1"
| "sqlite3_stricmp (Some a) (Some b) = sqlite3StrICmp a b"

fun strnicmp_loop :: "nat \<Rightarrow> bytes \<Rightarrow> bytes \<Rightarrow> int" where
  "strnicmp_loop 0 a b = 0"
| "strnicmp_loop (Suc n) a b =
     (if head0 a \<noteq> 0 \<and> sqlite3Tolower (head0 a) = sqlite3Tolower (head0 b)
      then strnicmp_loop n (tl a) (tl b)
      else uint (sqlite3Tolower (head0 a)) - uint (sqlite3Tolower (head0 b)))"

fun sqlite3_strnicmp :: "bytes option \<Rightarrow> bytes option \<Rightarrow> int \<Rightarrow> int" where
  "sqlite3_strnicmp None None n = 0"
| "sqlite3_strnicmp None (Some b) n = -1"
| "sqlite3_strnicmp (Some a) None n = 1"
| "sqlite3_strnicmp (Some a) (Some b) n = strnicmp_loop (nat n) a b"

fun strIHash_loop :: "u8 \<Rightarrow> bytes \<Rightarrow> u8" where
  "strIHash_loop h [] = h"
| "strIHash_loop h (c # cs) = strIHash_loop (h + sqlite3Tolower c) cs"

definition sqlite3StrIHash :: "bytes option \<Rightarrow> u8" where
  "sqlite3StrIHash z = (case z of None \<Rightarrow> 0 | Some z \<Rightarrow> strIHash_loop 0 z)"

definition sqlite3Strlen30 :: "bytes option \<Rightarrow> nat" where
  "sqlite3Strlen30 z = (case z of None \<Rightarrow> 0 | Some z \<Rightarrow> length z mod 2 ^ 30)"

section \<open>Quoted strings\<close>

fun dequote_loop :: "u8 \<Rightarrow> bytes \<Rightarrow> bytes option" where
  "dequote_loop q [] = None"
| "dequote_loop q (c # cs) =
     (if c = q
      then (if head0 cs = q then map_option ((#) q) (dequote_loop q (tl cs)) else Some [])
      else map_option ((#) c) (dequote_loop q cs))"

definition sqlite3Dequote :: "bytes \<Rightarrow> bytes option" where
  "sqlite3Dequote z =
     (let quote = head0 z
      in if \<not> sqlite3Isquote quote then Some z
         else dequote_loop (if quote = 0x5b then 0x5d else quote) (tl z))"

definition sqlite3DequoteToken :: "bytes \<Rightarrow> bytes" where
  "sqlite3DequoteToken p =
     (if length p < 2 then p
      else if \<not> sqlite3Isquote (p ! 0) then p
      else if list_ex (\<lambda>i. sqlite3Isquote (p ! i)) [1..<length p - 1] then p
      else take (length p - 2) (drop 1 p))"

section \<open>Hexadecimal\<close>

definition sqlite3HexToInt :: "u8 \<Rightarrow> u8" where
  "sqlite3HexToInt h = (h + 9 * (1 AND drop_bit 6 h)) AND 0xf"

fun hexToBlob_loop :: "bytes \<Rightarrow> nat \<Rightarrow> bytes" where
  "hexToBlob_loop z 0 = []"
| "hexToBlob_loop z (Suc 0) = [push_bit 4 (sqlite3HexToInt (z ! 0)) OR sqlite3HexToInt (z ! 1)]"
| "hexToBlob_loop z (Suc (Suc n)) =
     (push_bit 4 (sqlite3HexToInt (z ! 0)) OR sqlite3HexToInt (z ! 1)) # hexToBlob_loop (drop 2 z) n"

text \<open>The buffer, its terminator included.\<close>

definition sqlite3HexToBlob :: "bool \<Rightarrow> bytes \<Rightarrow> nat \<Rightarrow> bytes option" where
  "sqlite3HexToBlob mem_ok z n = (if mem_ok then Some (hexToBlob_loop z (n - 1) @ [0]) else None)"

definition hexdigits :: bytes where
  "hexdigits = [0x30, 0x31, 0x32, 0x33, 0x34, 0x35, 0x36, 0x37, 0x38, 0x39, 0x41, 0x42, 0x43, 0x44, 0x45, 0x46]"

fun hexFunc :: "bytes \<Rightarrow> bytes" where
  "hexFunc [] = []"
| "hexFunc (c # cs) =
     hexdigits ! unat (drop_bit 4 c AND 0xf) # hexdigits ! unat (c AND 0xf) # hexFunc cs"

section \<open>Folding case\<close>

definition fold_case :: "bytes \<Rightarrow> int list" where
  "fold_case s = map (\<lambda>c. uint (sqlite3Tolower c)) s"

abbreviation nul_free :: "bytes \<Rightarrow> bool" where "nul_free s \<equiv> list_all (\<lambda>c. c \<noteq> 0) s"

lemma sqlite3Tolower_pos: "c \<noteq> 0 \<Longrightarrow> 0 < uint (sqlite3Tolower c)"
  using sqlite3Tolower_0 [of c] by (metis unat_gt_0 of_nat_0_less_iff of_nat_unat)

lemma sqlite3Tolower_zero [simp]: "sqlite3Tolower 0 = 0"
  by (simp add: sqlite3Tolower_0)

lemma StrICmp_Nil_Nil: "sqlite3StrICmp [] [] = 0"
  by (simp add: sqlite3StrICmp.simps [of "[]"])

lemma StrICmp_Nil_Cons: "x \<noteq> 0 \<Longrightarrow> sqlite3StrICmp [] (x # b) = - uint (sqlite3Tolower x)"
  using sqlite3Tolower_pos [of x] by (simp add: sqlite3StrICmp.simps [of "[]"] Let_def)

lemma StrICmp_Cons_Nil: "c \<noteq> 0 \<Longrightarrow> sqlite3StrICmp (c # a) [] = uint (sqlite3Tolower c)"
  using sqlite3Tolower_pos [of c] by (simp add: sqlite3StrICmp.simps [of "c # a"] Let_def)

lemma StrICmp_Cons_Cons: "c \<noteq> 0 \<Longrightarrow> sqlite3StrICmp (c # a) (x # b) =
  (if sqlite3Tolower c = sqlite3Tolower x then sqlite3StrICmp a b
   else uint (sqlite3Tolower c) - uint (sqlite3Tolower x))"
  by (auto simp: sqlite3StrICmp.simps [of "c # a"] Let_def word_uint_eq_iff [symmetric])

lemmas StrICmp_simps = StrICmp_Nil_Nil StrICmp_Nil_Cons StrICmp_Cons_Nil StrICmp_Cons_Cons

lemma list2_induct [case_names Nil Cons_Nil Cons_Cons]:
  assumes "\<And>b. P [] b" "\<And>x a. P (x # a) []" "\<And>x a y b. P a b \<Longrightarrow> P (x # a) (y # b)"
  shows "P a b"
  using assms by (induction a arbitrary: b) (metis list.exhaust)+

lemma StrICmp_lex:
  assumes "nul_free a" "nul_free b"
  shows "(sqlite3StrICmp a b = 0 \<longleftrightarrow> fold_case a = fold_case b) \<and>
    (sqlite3StrICmp a b < 0 \<longleftrightarrow> (fold_case a, fold_case b) \<in> lexord {(x, y). x < y}) \<and>
    (sqlite3StrICmp a b > 0 \<longleftrightarrow> (fold_case b, fold_case a) \<in> lexord {(x, y). x < y})"
  using assms
proof (induction a b rule: list2_induct)
  case (Nil b)
  then show ?case using sqlite3Tolower_pos [of "head0 b"]
    by (cases b) (auto simp: StrICmp_simps fold_case_def)
next
  case (Cons_Nil x a)
  then show ?case using sqlite3Tolower_pos [of x] by (auto simp: StrICmp_simps fold_case_def)
next
  case (Cons_Cons x a y b)
  then show ?case by (auto simp: StrICmp_simps fold_case_def word_uint_eq_iff)
qed

lemma strnicmp_take:
  "nul_free a \<Longrightarrow> nul_free b \<Longrightarrow> strnicmp_loop n a b = sqlite3StrICmp (take n a) (take n b)"
proof (induction n a b rule: strnicmp_loop.induct)
  case (1 a b)
  show ?case by (simp add: StrICmp_simps)
next
  case (2 n a b)
  then show ?case
    by (cases a; cases b) (auto simp: StrICmp_simps sqlite3Tolower_0)
qed

lemma strIHash_fold: "fold_case a = fold_case b \<Longrightarrow> strIHash_loop h a = strIHash_loop h b"
proof (induction a b arbitrary: h rule: list2_induct)
  case (Cons_Cons x a y b)
  then have "sqlite3Tolower x = sqlite3Tolower y" "fold_case a = fold_case b"
    by (simp_all add: fold_case_def word_uint_eq_iff)
  with Cons_Cons.IH show ?case by simp
qed (auto simp: fold_case_def)

section \<open>Quoting and hexadecimal\<close>

definition close_quote :: "u8 \<Rightarrow> u8" where
  "close_quote q = (if q = 0x5b then 0x5d else q)"

definition sql_quote :: "u8 \<Rightarrow> bytes \<Rightarrow> bytes" where
  "sql_quote q s = q # concat (map (\<lambda>c. if c = close_quote q then [c, c] else [c]) s) @ [close_quote q]"

lemma dequote_loop_quoted:
  "q \<noteq> 0 \<Longrightarrow> dequote_loop q (concat (map (\<lambda>c. if c = q then [c, c] else [c]) s) @ [q]) = Some s"
  by (induction s) auto

lemma hex_digit:
  assumes "n < 16"
  shows "sqlite3HexToInt (hexdigits ! n) = of_nat n"
proof -
  have "list_all (\<lambda>n. sqlite3HexToInt (hexdigits ! n) = of_nat n) [0..<16]" by code_simp
  with assms show ?thesis by (simp add: list_all_iff)
qed

lemma hex_byte:
  "push_bit 4 (sqlite3HexToInt (hexdigits ! unat (drop_bit 4 c AND 0xf))) OR
   sqlite3HexToInt (hexdigits ! unat (c AND 0xf)) = (c :: u8)"
proof -
  have "unat (x AND 0xf) < 16" for x :: u8
    using word_and_le1 [of x "0xf"] by (simp add: word_le_nat_alt)
  moreover have nibble: "x AND 0xf = take_bit 4 x" for x :: u8
    by (simp add: take_bit_eq_mask mask_eq_exp_minus_1)
  have "push_bit 4 (drop_bit 4 c AND 0xf) OR (c AND 0xf) = c"
    unfolding nibble by (rule bit_word_eqI) (auto simp: bit_simps)
  ultimately show ?thesis by (simp add: hex_digit)
qed

lemma hexToBlob_loop_hexFunc: "hexToBlob_loop (hexFunc b @ rest) (2 * length b - 1) = b"
proof (induction b)
  case (Cons c b)
  show ?case
  proof (cases b)
    case (Cons d b')
    then have "2 * length (c # b) - 1 = Suc (Suc (2 * length b - 1))" by simp
    then show ?thesis using Cons.IH by (simp only: hexFunc.simps append_Cons hexToBlob_loop.simps) (simp add: hex_byte)
  qed (simp add: hex_byte)
qed simp

lemma length_hexFunc: "length (hexFunc b) = 2 * length b"
  by (induction b) simp_all

section \<open>Properties\<close>

text \<open>
  C23. Comparison without case is the lexicographic order of the folded strings: zero exactly for
  strings equal after folding A to Z, negative and positive exactly as the order says; the
  length-limited comparison is the same on the prefixes, and equal strings have equal hashes.
\<close>

theorem stricmp_order:
  assumes "nul_free a" "nul_free b"
  shows "(sqlite3_stricmp (Some a) (Some b) = 0 \<longleftrightarrow> fold_case a = fold_case b) \<and>
    (sqlite3_stricmp (Some a) (Some b) < 0 \<longleftrightarrow> (fold_case a, fold_case b) \<in> lexord {(x, y). x < y}) \<and>
    (sqlite3_stricmp (Some a) (Some b) > 0 \<longleftrightarrow> (fold_case b, fold_case a) \<in> lexord {(x, y). x < y}) \<and>
    sqlite3_strnicmp (Some a) (Some b) n = sqlite3_stricmp (Some (take (nat n) a)) (Some (take (nat n) b)) \<and>
    (fold_case a = fold_case b \<longrightarrow> sqlite3StrIHash (Some a) = sqlite3StrIHash (Some b))"
  using StrICmp_lex [OF assms] strnicmp_take [OF assms] strIHash_fold [of a b 0]
  by (simp add: sqlite3StrIHash_def)

theorem stricmp_order_witness:
  "sqlite3_stricmp (Some [0x53, 0x71, 0x4c]) (Some [0x73, 0x51, 0x6c]) = 0 \<and>
   sqlite3StrIHash (Some [0x53, 0x71, 0x4c]) = sqlite3StrIHash (Some [0x73, 0x51, 0x6c])"
proof -
  have "fold_case [0x53, 0x71, 0x4c] = fold_case [0x73, 0x51, 0x6c]"
    by (simp add: fold_case_def uint_nat unat_sqlite3Tolower)
  with stricmp_order [of "[0x53, 0x71, 0x4c]" "[0x73, 0x51, 0x6c]" 0] show ?thesis by simp
qed

text \<open>
  C24. Removing quotes undoes quoting: for each of the four quote characters, a string quoted by
  doubling the closing quote comes back unchanged.
\<close>

theorem dequote_quote:
  assumes "sqlite3Isquote q"
  shows "sqlite3Dequote (sql_quote q s) = Some s"
proof -
  have "close_quote q \<noteq> 0" using assms by (auto simp: sqlite3Isquote_iff close_quote_def)
  from dequote_loop_quoted [OF this, of s] assms show ?thesis
    by (simp add: sqlite3Dequote_def sql_quote_def close_quote_def)
qed

theorem dequote_quote_witness:
  "sqlite3Isquote 0x27 \<and>
   sqlite3Dequote [0x27, 0x61, 0x27, 0x27, 0x62, 0x27] = Some [0x61, 0x27, 0x62]"
proof -
  have "sqlite3Isquote 0x27" by (simp add: sqlite3Isquote_iff)
  with dequote_quote [of "0x27" "[0x61, 0x27, 0x62]"] show ?thesis
    by (simp add: sql_quote_def close_quote_def)
qed

text \<open>
  C25. A blob literal written by \<open>hex()\<close> is read back as the same blob: called as the code generator
  calls it, with the digits between the quotes, the conversion fills exactly the buffer of half as
  many bytes and a terminator that it has allocated.
\<close>

theorem hexToBlob_hexFunc:
  "sqlite3HexToBlob True (hexFunc b @ [0x27]) (length (hexFunc b)) = Some (b @ [0]) \<and>
   length (b @ [0]) = length (hexFunc b) div 2 + 1"
  using hexToBlob_loop_hexFunc [of b "[0x27]"] by (simp add: sqlite3HexToBlob_def length_hexFunc)

end
