(* ===== verification/Int_Text.thy ===== *)
theory Int_Text
  imports Text_Bytes "HOL-Library.Signed_Division"
begin

text \<open>
  The integer routines of util.c: overflow-checked arithmetic on signed 64-bit integers, conversion
  between integers and text in both directions, and the logarithmic estimates of the query planner.
  A C string is the list of its bytes before the terminator (\<open>head0\<close> reads the
  terminator at its end). The clang build takes the portable branches of the code that tests
  \<open>GCC_VERSION\<close>, and a 64-bit target the ones that divide 64-bit numbers.
\<close>

type_synonym i64 = "64 word"

abbreviation LARGEST_INT64 :: i64 where "LARGEST_INT64 \<equiv> 0x7fffffffffffffff"
abbreviation SMALLEST_INT64 :: i64 where "SMALLEST_INT64 \<equiv> 0x8000000000000000"

section \<open>Checked arithmetic\<close>

text \<open>The new value of the accumulator and the return code.\<close>

definition sqlite3AddInt64 :: "i64 \<Rightarrow> i64 \<Rightarrow> i64 \<times> bool" where
  "sqlite3AddInt64 iA iB =
     (if sint iB \<ge> 0
      then (if sint iA > 0 \<and> sint (LARGEST_INT64 - iA) < sint iB then (iA, True) else (iA + iB, False))
      else (if sint iA < 0 \<and> sint (- (iA + LARGEST_INT64)) > sint (iB + 1) then (iA, True)
            else (iA + iB, False)))"

definition sqlite3SubInt64 :: "i64 \<Rightarrow> i64 \<Rightarrow> i64 \<times> bool" where
  "sqlite3SubInt64 iA iB =
     (if iB = SMALLEST_INT64
      then (if sint iA \<ge> 0 then (iA, True) else (iA - iB, False))
      else sqlite3AddInt64 iA (- iB))"

definition sqlite3MulInt64 :: "i64 \<Rightarrow> i64 \<Rightarrow> i64 \<times> bool" where
  "sqlite3MulInt64 iA iB =
     (if sint iB > 0
      then (if sint iA > sint LARGEST_INT64 sdiv sint iB then (iA, True)
            else if sint iA < sint SMALLEST_INT64 sdiv sint iB then (iA, True)
            else (iA * iB, False))
      else if sint iB < 0
      then (if sint iA > 0
            then (if sint iB < sint SMALLEST_INT64 sdiv sint iA then (iA, True) else (iA * iB, False))
            else if sint iA < 0
            then (if iB = SMALLEST_INT64 then (iA, True)
                  else if iA = SMALLEST_INT64 then (iA, True)
                  else if sint (- iA) > sint LARGEST_INT64 sdiv sint (- iB) then (iA, True)
                  else (iA * iB, False))
            else (iA * iB, False))
      else (iA * iB, False))"

definition sqlite3AbsInt32 :: "u32 \<Rightarrow> u32" where
  "sqlite3AbsInt32 x = (if sint x \<ge> 0 then x else if x = 0x80000000 then 0x7fffffff else - x)"

definition in_i64 :: "int \<Rightarrow> bool" where
  "in_i64 v \<longleftrightarrow> - (2 ^ 63) \<le> v \<and> v < 2 ^ 63"

text \<open>What a checked operation promises about the exact result.\<close>

definition checked :: "int \<Rightarrow> i64 \<Rightarrow> i64 \<times> bool \<Rightarrow> bool" where
  "checked v iA r \<longleftrightarrow> (if in_i64 v then \<not> snd r \<and> sint (fst r) = v else r = (iA, True))"

lemma sint64_bounds: "- (2 ^ 63) \<le> sint (x :: i64)" "sint (x :: i64) < 2 ^ 63"
  using sint_ge [of x] sint_lt [of x] by simp_all

lemma sint64_of_int: "in_i64 v \<Longrightarrow> sint (word_of_int v :: i64) = v"
  by (simp add: in_i64_def signed_of_int signed_take_bit_int_eq_self_iff)

lemma sint64_eqI: "(x :: i64) = word_of_int v \<Longrightarrow> in_i64 v \<Longrightarrow> sint x = v"
  using sint64_of_int by simp

lemma sint64_add: "in_i64 (sint a + sint b) \<Longrightarrow> sint (a + b :: i64) = sint a + sint b"
  by (rule sint64_eqI) simp_all

lemma sint64_diff: "in_i64 (sint a - sint b) \<Longrightarrow> sint (a - b :: i64) = sint a - sint b"
  by (rule sint64_eqI) simp_all

lemma sint64_minus: "in_i64 (- sint a) \<Longrightarrow> sint (- a :: i64) = - sint a"
  by (rule sint64_eqI) simp_all

lemma sint64_mult: "in_i64 (sint a * sint b) \<Longrightarrow> sint (a * b :: i64) = sint a * sint b"
  by (rule sint64_eqI) simp_all

lemma sint_LARGEST: "sint LARGEST_INT64 = 2 ^ 63 - 1" by simp
lemma sint_SMALLEST: "sint SMALLEST_INT64 = - (2 ^ 63)" by simp

lemma sqlite3AddInt64_checked: "checked (sint a + sint b) a (sqlite3AddInt64 a b)"
proof -
  note ba = sint64_bounds [of a] and bb = sint64_bounds [of b]
  show ?thesis
  proof (cases "sint b \<ge> 0")
    case True
    have "sint (LARGEST_INT64 - a) = 2 ^ 63 - 1 - sint a" if "sint a > 0"
      using sint64_diff [of LARGEST_INT64 a] that ba by (simp add: in_i64_def)
    with True ba bb sint64_add [of a b] show ?thesis
      by (auto simp: checked_def sqlite3AddInt64_def in_i64_def)
  next
    case False
    have 1: "sint (a + LARGEST_INT64) = sint a + (2 ^ 63 - 1)" if "sint a < 0"
      using sint64_add [of a LARGEST_INT64] that ba by (simp add: in_i64_def)
    have "sint (- (a + LARGEST_INT64)) = - (sint a + (2 ^ 63 - 1))" if "sint a < 0"
      using sint64_minus [of "a + LARGEST_INT64"] 1 that ba by (simp add: in_i64_def)
    moreover have "sint (b + 1) = sint b + 1"
      using sint64_add [of b 1] False bb by (simp add: in_i64_def)
    ultimately show ?thesis using False ba bb sint64_add [of a b]
      by (auto simp: checked_def sqlite3AddInt64_def in_i64_def)
  qed
qed

lemma sqlite3SubInt64_checked: "checked (sint a - sint b) a (sqlite3SubInt64 a b)"
proof (cases "b = SMALLEST_INT64")
  case True
  with sint64_bounds [of a] sint64_diff [of a b] show ?thesis
    by (auto simp: checked_def sqlite3SubInt64_def in_i64_def)
next
  case False
  have "sint b \<noteq> - (2 ^ 63)" using False sint_SMALLEST by (metis signed_word_eqI)
  with sint64_bounds [of b] sint64_minus [of b] have "sint (- b) = - sint b" by (simp add: in_i64_def)
  with sqlite3AddInt64_checked [of a "- b"] False show ?thesis by (simp add: sqlite3SubInt64_def)
qed

lemma div_less_iff_int: "0 < b \<Longrightarrow> L div b < x \<longleftrightarrow> L < x * (b :: int)"
proof
  assume b: "0 < b" and "L div b < x"
  then have "(L div b + 1) * b \<le> x * b" by (intro mult_right_mono) auto
  moreover have "L < (L div b + 1) * b"
    unfolding distrib_right using pos_mod_bound [OF b, of L] div_mult_mod_eq [of L b] by linarith
  ultimately show "L < x * b" by linarith
next
  assume b: "0 < b" and L: "L < x * b"
  show "L div b < x"
  proof (rule ccontr)
    assume "\<not> L div b < x"
    then have "x * b \<le> (L div b) * b" using b by (intro mult_right_mono) auto
    also have "\<dots> \<le> L" using b pos_mod_sign [OF b, of L] div_mult_mod_eq [of L b] by linarith
    finally show False using L by simp
  qed
qed

lemma sdiv_pos: "0 \<le> a \<Longrightarrow> 0 < b \<Longrightarrow> a sdiv b = a div (b :: int)"
  by (auto simp: signed_divide_int_def sgn_if)

lemma sdiv_neg_pos: "a < 0 \<Longrightarrow> 0 < b \<Longrightarrow> a sdiv b = - (- a div (b :: int))"
  by (simp add: signed_divide_int_def sgn_if)

lemma sqlite3MulInt64_checked: "checked (sint a * sint b) a (sqlite3MulInt64 a b)"
proof -
  note ba = sint64_bounds [of a] and bb = sint64_bounds [of b]
  have L: "2 ^ 63 - 1 < v \<longleftrightarrow> \<not> v < 2 ^ 63" for v :: int by linarith
  have min_iff: "x = SMALLEST_INT64 \<longleftrightarrow> sint x = - (2 ^ 63)" for x :: i64
    by (metis signed_word_eqI sint_SMALLEST)
  consider (bp) "sint b > 0" | (bn_ap) "sint b < 0" "sint a > 0" | (bn_an) "sint b < 0" "sint a < 0"
    | (z) "sint b = 0 \<or> sint a = 0 \<and> sint b < 0" by linarith
  then show ?thesis
  proof cases
    case bp
    have "sint a > sint LARGEST_INT64 sdiv sint b \<longleftrightarrow> \<not> sint a * sint b < 2 ^ 63"
      using sdiv_pos [of "2 ^ 63 - 1", OF _ bp] div_less_iff_int [OF bp, of "2 ^ 63 - 1" "sint a"] L
      unfolding sint_LARGEST by simp
    moreover have "sint a < sint SMALLEST_INT64 sdiv sint b \<longleftrightarrow> 2 ^ 63 div sint b < - sint a"
      unfolding sint_SMALLEST using sdiv_neg_pos [of "- (2 ^ 63)", OF _ bp] by auto
    then have "sint a < sint SMALLEST_INT64 sdiv sint b \<longleftrightarrow> sint a * sint b < - (2 ^ 63)"
      using div_less_iff_int [OF bp, of "2 ^ 63" "- sint a"] by auto
    ultimately show ?thesis using bp sint64_mult [of a b]
      by (auto simp: checked_def sqlite3MulInt64_def in_i64_def)
  next
    case bn_ap
    have "sint b < sint SMALLEST_INT64 sdiv sint a \<longleftrightarrow> 2 ^ 63 div sint a < - sint b"
      unfolding sint_SMALLEST using sdiv_neg_pos [of "- (2 ^ 63)", OF _ bn_ap(2)] by auto
    then have "sint b < sint SMALLEST_INT64 sdiv sint a \<longleftrightarrow> sint a * sint b < - (2 ^ 63)"
      using div_less_iff_int [OF bn_ap(2), of "2 ^ 63" "- sint b"] by (auto simp: mult.commute)
    moreover have "sint a * sint b < 2 ^ 63" using mult_pos_neg [OF bn_ap(2,1)] by simp
    ultimately show ?thesis using bn_ap sint64_mult [of a b]
      by (auto simp: checked_def sqlite3MulInt64_def in_i64_def)
  next
    case bn_an
    have pos: "0 < sint a * sint b" using bn_an by (simp add: mult_neg_neg)
    have big: "2 ^ 63 \<le> sint a * sint b" if "sint a = - (2 ^ 63) \<or> sint b = - (2 ^ 63)"
      using that bn_an by auto
    have "sint (- a) > sint LARGEST_INT64 sdiv sint (- b) \<longleftrightarrow> \<not> sint a * sint b < 2 ^ 63"
      if "sint a \<noteq> - (2 ^ 63)" "sint b \<noteq> - (2 ^ 63)"
    proof -
      have m: "sint (- a) = - sint a" "sint (- b) = - sint b"
        using sint64_minus [of a] sint64_minus [of b] ba bb bn_an that by (simp_all add: in_i64_def)
      have "0 < - sint b" using bn_an by simp
      from div_less_iff_int [OF this, of "2 ^ 63 - 1" "- sint a"] show ?thesis
        using sdiv_pos [of "2 ^ 63 - 1", OF _ \<open>0 < - sint b\<close>] L unfolding m sint_LARGEST by simp
    qed
    note over = this
    show ?thesis
    proof (cases "sint a = - (2 ^ 63) \<or> sint b = - (2 ^ 63)")
      case True
      then have "a = SMALLEST_INT64 \<or> b = SMALLEST_INT64" by (simp only: min_iff)
      moreover have "\<not> in_i64 (sint a * sint b)" using big [OF True] by (simp add: in_i64_def)
      ultimately show ?thesis using bn_an by (auto simp: checked_def sqlite3MulInt64_def)
    next
      case False
      then have "a \<noteq> SMALLEST_INT64" "b \<noteq> SMALLEST_INT64" using min_iff by blast+
      moreover have "in_i64 (sint a * sint b) \<longleftrightarrow> sint a * sint b < 2 ^ 63"
        using pos by (simp add: in_i64_def)
      moreover have "sint (- a) > sint LARGEST_INT64 sdiv sint (- b) \<longleftrightarrow> \<not> sint a * sint b < 2 ^ 63"
        using over False by blast
      ultimately show ?thesis using bn_an sint64_mult [of a b]
        unfolding checked_def sqlite3MulInt64_def by simp
    qed
  next
    case z
    then have p: "sint a * sint b = 0" by auto
    have "in_i64 0" by (simp add: in_i64_def)
    then have "checked (sint a * sint b) a (a * b, False)"
      using sint64_mult [of a b] unfolding checked_def p by simp
    moreover have "sqlite3MulInt64 a b = (a * b, False)"
    proof (cases "sint b = 0")
      case False
      with z have "\<not> 0 < sint b" "\<not> 0 < sint a" "\<not> sint a < 0" by auto
      then show ?thesis unfolding sqlite3MulInt64_def by (simp only: if_False if_cancel)
    qed (simp only: sqlite3MulInt64_def less_irrefl if_False)
    ultimately show ?thesis by simp
  qed
qed

lemma sqlite3AbsInt32_ok:
  "sint (sqlite3AbsInt32 x) = (if sint x = - (2 ^ 31) then 2 ^ 31 - 1 else \<bar>sint x\<bar>)"
proof -
  have b: "- (2 ^ 31) \<le> sint x" "sint x < 2 ^ 31" using sint_ge [of x] sint_lt [of x] by simp_all
  have "sint (0x80000000 :: u32) = - (2 ^ 31)" by simp
  then have "x = 0x80000000 \<longleftrightarrow> sint x = - (2 ^ 31)" by (metis signed_word_eqI)
  moreover have "sint (- x) = - sint x" if "sint x \<noteq> - (2 ^ 31)"
  proof -
    have "- x = word_of_int (- sint x)" by simp
    then have "sint (- x) = signed_take_bit 31 (- sint x)" by (simp only: signed_of_int) simp
    also have "\<dots> = - sint x" using b that by (intro signed_take_bit_int_eq_self) auto
    finally show ?thesis .
  qed
  ultimately show ?thesis using b by (auto simp: sqlite3AbsInt32_def)
qed

section \<open>Logarithmic estimates\<close>

text \<open>A \<open>LogEst\<close> is a signed 16-bit integer: comparisons read its signed value, and a result is cut
  to sixteen bits when it is returned.\<close>

type_synonym LogEst = "16 word"

definition logEstAdd_x :: "LogEst list" where
  "logEstAdd_x = [10, 10, 9, 9, 8, 8, 7, 7, 7, 6, 6, 6, 5, 5, 5, 4, 4, 4, 4,
     3, 3, 3, 3, 3, 3, 2, 2, 2, 2, 2, 2, 2]"

definition sqlite3LogEstAdd :: "LogEst \<Rightarrow> LogEst \<Rightarrow> LogEst" where
  "sqlite3LogEstAdd a b =
     (if sint a \<ge> sint b
      then (if sint a > sint b + 49 then a else if sint a > sint b + 31 then a + 1
            else a + logEstAdd_x ! nat (sint a - sint b))
      else (if sint b > sint a + 49 then b else if sint b > sint a + 31 then b + 1
            else b + logEstAdd_x ! nat (sint b - sint a)))"

text \<open>The three loops; the callers never start the first one with zero.\<close>

function logEst_grow :: "LogEst \<Rightarrow> u64 \<Rightarrow> LogEst \<times> u64" where
  "logEst_grow y x = (if x < 8 \<and> x \<noteq> 0 then logEst_grow (y - 10) (push_bit 1 x) else (y, x))"
  by pat_completeness auto
termination
proof (relation "measure (\<lambda>(y, x). 8 - unat x)", goal_cases)
  case (2 y x)
  then have x: "unat x < 8" "0 < unat x" by (simp_all add: word_less_nat_alt unat_gt_0)
  then have "unat (push_bit 1 x) = 2 * unat x"
    by (simp add: push_bit_eq_mult unat_mult_lem [THEN iffD1] unat_word_ariths)
  with x show ?case by simp
qed simp

function logEst_shrink4 :: "LogEst \<Rightarrow> u64 \<Rightarrow> LogEst \<times> u64" where
  "logEst_shrink4 y x = (if x > 255 then logEst_shrink4 (y + 40) (drop_bit 4 x) else (y, x))"
  by pat_completeness auto
termination
  by (relation "measure (\<lambda>(y, x). unat x)") (auto simp: unat_drop_bit_div word_less_nat_alt)

function logEst_shrink1 :: "LogEst \<Rightarrow> u64 \<Rightarrow> LogEst \<times> u64" where
  "logEst_shrink1 y x = (if x > 15 then logEst_shrink1 (y + 10) (drop_bit 1 x) else (y, x))"
  by pat_completeness auto
termination
  by (relation "measure (\<lambda>(y, x). unat x)") (auto simp: unat_drop_bit_div word_less_nat_alt)

declare logEst_grow.simps [simp del] logEst_shrink4.simps [simp del] logEst_shrink1.simps [simp del]

definition logEst_a :: "LogEst list" where
  "logEst_a = [0, 2, 3, 5, 6, 7, 8, 9]"

definition sqlite3LogEst :: "u64 \<Rightarrow> LogEst" where
  "sqlite3LogEst x =
     (if x < 2 then 0
      else case (if x < 8 then logEst_grow 40 x
                 else case logEst_shrink4 40 x of (y, x) \<Rightarrow> logEst_shrink1 y x) of
        (y, x) \<Rightarrow> logEst_a ! unat (x AND 7) + y - 10)"

text \<open>Division and remainder round towards zero, and a remainder below zero becomes a large unsigned
  number. The result is \<open>None\<close> where the shift is by 64 or more, which C leaves undefined.\<close>

definition sqlite3LogEstToInt :: "LogEst \<Rightarrow> u64 option" where
  "sqlite3LogEstToInt x =
     (let n = word_of_int (sint x smod 10) :: u64; x = sint x sdiv 10;
          n = (if n \<ge> 5 then n - 2 else if n \<ge> 1 then n - 1 else n)
      in if x > 60 then Some 0x7fffffffffffffff
         else if x \<ge> 3 then Some (push_bit (nat (x - 3)) (n + 8))
         else if 3 - x < 64 then Some (drop_bit (nat (3 - x)) (n + 8)) else None)"

lemma sint_LogEst_add:
  assumes "0 \<le> sint d" "sint a + sint d < 2 ^ 15"
  shows "sint (a + d) = sint a + sint (d :: LogEst)"
proof -
  have "sint (a + d) = signed_take_bit 15 (sint a + sint d)" by (simp add: sint_word_ariths)
  also have "\<dots> = sint a + sint d"
    using assms sint_ge [of a] by (intro signed_take_bit_int_eq_self) auto
  finally show ?thesis .
qed

lemma sqlite3LogEstAdd_commute: "sqlite3LogEstAdd a b = sqlite3LogEstAdd b a"
proof (cases "sint a = sint b")
  case True
  then have "a = b" by (simp add: signed_word_eqI)
  then show ?thesis by simp
qed (auto simp: sqlite3LogEstAdd_def)

lemma sqlite3LogEstAdd_bounds:
  assumes "sint a < 32758" "sint b < 32758"
  shows "max (sint a) (sint b) \<le> sint (sqlite3LogEstAdd a b) \<and> sint (sqlite3LogEstAdd a b) \<le> max (sint a) (sint b) + 10"
proof -
  have "list_all (\<lambda>n. 0 \<le> sint (logEstAdd_x ! n) \<and> sint (logEstAdd_x ! n) \<le> 10) [0..<32]" by code_simp
  then have x: "0 \<le> sint (logEstAdd_x ! n) \<and> sint (logEstAdd_x ! n) \<le> 10" if "n < 32" for n
    using that by (simp add: list_all_iff)
  have *: "sint b \<le> sint (sqlite3LogEstAdd a b) \<and> sint a \<le> sint (sqlite3LogEstAdd a b) \<and> sint (sqlite3LogEstAdd a b) \<le> sint a + 10"
    if o: "sint b \<le> sint a" "sint a < 32758" for a b
  proof -
    have one: "sint (a + 1) = sint a + 1" using o(2) sint_LogEst_add [of 1 a] by simp
    have d: "sint (a + logEstAdd_x ! n) = sint a + sint (logEstAdd_x ! n)" if "n < 32" for n
      using x [OF that] o(2) by (intro sint_LogEst_add) auto
    have "nat (sint a - sint b) < 32" if "\<not> sint a > sint b + 31" using that o(1) by linarith
    with one d [of "nat (sint a - sint b)"] x [of "nat (sint a - sint b)"] o show ?thesis
      by (auto simp: sqlite3LogEstAdd_def)
  qed
  show ?thesis
    using * [of b a] * [of a b] assms sqlite3LogEstAdd_commute [of a b] by (cases "sint b \<le> sint a") (auto simp: max_def)
qed

lemma logEst_shrink1_ok:
  "8 \<le> unat x \<Longrightarrow> \<exists>k. logEst_shrink1 y x = (y + 10 * of_nat k, drop_bit k x) \<and>
     8 \<le> unat (drop_bit k x) \<and> unat (drop_bit k x) < 16"
proof (induction y x rule: logEst_shrink1.induct)
  case (1 y x)
  show ?case
  proof (cases "x > 15")
    case True
    then have "8 \<le> unat (drop_bit 1 x)" by (simp add: unat_drop_bit_div word_less_nat_alt)
    from "1.IH" [OF True this] obtain k where
      "logEst_shrink1 (y + 10) (drop_bit 1 x) = (y + 10 + 10 * of_nat k, drop_bit k (drop_bit 1 x))"
      "8 \<le> unat (drop_bit k (drop_bit 1 x))" "unat (drop_bit k (drop_bit 1 x)) < 16" by blast
    with True show ?thesis by (intro exI [of _ "Suc k"]) (simp add: logEst_shrink1.simps [of y x])
  next
    case False
    with "1.prems" show ?thesis
      by (intro exI [of _ 0]) (simp add: logEst_shrink1.simps [of y x] word_less_nat_alt)
  qed
qed

lemma logEst_shrink4_ok:
  "8 \<le> unat x \<Longrightarrow> \<exists>k. logEst_shrink4 y x = (y + 10 * of_nat k, drop_bit k x) \<and> 8 \<le> unat (drop_bit k x)"
proof (induction y x rule: logEst_shrink4.induct)
  case (1 y x)
  show ?case
  proof (cases "x > 255")
    case True
    then have "8 \<le> unat (drop_bit 4 x)" by (simp add: unat_drop_bit_div word_less_nat_alt)
    from "1.IH" [OF True this] obtain k where
      "logEst_shrink4 (y + 40) (drop_bit 4 x) = (y + 40 + 10 * of_nat k, drop_bit k (drop_bit 4 x))"
      "8 \<le> unat (drop_bit k (drop_bit 4 x))" by blast
    with True show ?thesis by (intro exI [of _ "k + 4"]) (simp add: logEst_shrink4.simps [of y x] drop_bit_drop_bit)
  next
    case False
    with "1.prems" show ?thesis
      by (intro exI [of _ 0]) (simp add: logEst_shrink4.simps [of y x])
  qed
qed

lemma unat_less_64: "unat (w :: u64) < 2 ^ 64"
  using unsigned_less [of w] by simp

lemma unat_and_7: "unat (w AND 7 :: u64) = unat w mod 8"
proof -
  have "w AND 7 = take_bit 3 w" by (simp add: take_bit_eq_mask mask_eq_exp_minus_1)
  then have "unat (w AND 7) = take_bit 3 (unat w)" by (simp only: unsigned_take_bit_eq)
  then show ?thesis by (simp add: take_bit_eq_mod)
qed

lemma sqlite3LogEst_big:
  assumes "8 \<le> unat x"
  obtains k where "8 \<le> unat (drop_bit k x)" "unat (drop_bit k x) < 16"
    "sqlite3LogEst x = 10 * of_nat (k + 3) + logEst_a ! (unat (drop_bit k x) - 8)"
proof -
  obtain k1 where 1: "logEst_shrink4 40 x = (40 + 10 * of_nat k1, drop_bit k1 x)" "8 \<le> unat (drop_bit k1 x)"
    using logEst_shrink4_ok [OF assms] by blast
  obtain k2 where 2: "logEst_shrink1 (40 + 10 * of_nat k1) (drop_bit k1 x) =
      (40 + 10 * of_nat k1 + 10 * of_nat k2, drop_bit (k1 + k2) x)"
    "8 \<le> unat (drop_bit (k1 + k2) x)" "unat (drop_bit (k1 + k2) x) < 16"
    using logEst_shrink1_ok [OF 1(2), of "40 + 10 * of_nat k1"] by (auto simp: drop_bit_drop_bit add.commute)
  let ?t = "unat (drop_bit (k1 + k2) x)"
  have "unat (drop_bit (k1 + k2) x AND 7) = ?t mod 8" by (rule unat_and_7)
  also have "\<dots> = ?t - 8" using 2(2,3) by (simp add: mod_if)
  finally have t: "unat (drop_bit (k1 + k2) x AND 7) = ?t - 8" .
  have "sqlite3LogEst x = logEst_a ! unat (drop_bit (k1 + k2) x AND 7) + (40 + 10 * of_nat k1 + 10 * of_nat k2) - 10"
    using assms 1(1) 2(1) by (simp add: sqlite3LogEst_def word_less_nat_alt)
  then have "sqlite3LogEst x = 10 * of_nat (k1 + k2 + 3) + logEst_a ! (?t - 8)"
    unfolding t by simp
  with that [of "k1 + k2"] 2(2,3) show ?thesis by blast
qed

lemma logEst_a_digit:
  assumes "t < 8"
  shows "0 \<le> sint (logEst_a ! t)" "sint (logEst_a ! t) < 10"
    "(let n = word_of_int (sint (logEst_a ! t)) in if n \<ge> 5 then n - 2 else if n \<ge> 1 then n - 1 else n) = (of_nat t :: u64)"
proof -
  have "list_all (\<lambda>t. 0 \<le> sint (logEst_a ! t) \<and> sint (logEst_a ! t) < 10 \<and>
    (let n = word_of_int (sint (logEst_a ! t)) in if n \<ge> 5 then n - 2 else if n \<ge> 1 then n - 1 else n) = (of_nat t :: u64)) [0..<8]"
    by code_simp
  with assms show "0 \<le> sint (logEst_a ! t)" "sint (logEst_a ! t) < 10"
    "(let n = word_of_int (sint (logEst_a ! t)) in if n \<ge> 5 then n - 2 else if n \<ge> 1 then n - 1 else n) = (of_nat t :: u64)"
    by (simp_all add: list_all_iff)
qed

lemma sqlite3LogEstToInt_digit:
  assumes "t < 8" "k \<le> 57"
  shows "sqlite3LogEstToInt (10 * of_nat (k + 3) + logEst_a ! t) = Some (push_bit k (of_nat (t + 8)))"
proof -
  note d = logEst_a_digit [OF assms(1)]
  let ?x = "10 * of_nat (k + 3) + logEst_a ! t :: LogEst"
  have "sint (of_nat (10 * (k + 3)) :: LogEst) = signed_take_bit 15 (int (10 * (k + 3)))"
    by (simp only: signed_of_nat) simp
  also have "\<dots> = int (10 * (k + 3))" using assms(2) by (intro signed_take_bit_int_eq_self) auto
  finally have "sint (10 * of_nat (k + 3) :: LogEst) = 10 * int (k + 3)" by simp
  then have v: "sint ?x = 10 * int (k + 3) + sint (logEst_a ! t)"
    using sint_LogEst_add [OF d(1), of "10 * of_nat (k + 3)"] d(2) assms(2) by simp
  have m: "sint ?x mod 10 = sint (logEst_a ! t)" "sint ?x div 10 = int (k + 3)" unfolding v
    using d(1,2) by (simp_all only: mod_mult_self4 mod_pos_pos_trivial) (simp add: div_pos_pos_trivial)
  have "sint ?x sdiv 10 = int (k + 3)" "sint ?x smod 10 = sint (logEst_a ! t)"
    using m v d(1) by (simp_all add: signed_divide_int_def signed_modulo_int_def sgn_if minus_div_mult_eq_mod [symmetric])
  with d(3) assms(2) show ?thesis by (simp add: sqlite3LogEstToInt_def Let_def)
qed

lemma sqlite3LogEst_roundtrip:
  assumes "1 \<le> unat x" "unat x < 2 ^ 61"
  shows "\<exists>v. sqlite3LogEstToInt (sqlite3LogEst x) = Some v \<and> unat v \<le> unat x \<and> 8 * (unat x - unat v) < unat v"
proof (cases "unat x < 8")
  case True
  have "list_all (\<lambda>n. sqlite3LogEstToInt (sqlite3LogEst (of_nat n)) = Some (of_nat n)) [1..<8]"
    by code_simp
  with True assms(1) have "sqlite3LogEstToInt (sqlite3LogEst (of_nat (unat x))) = Some (of_nat (unat x))"
    unfolding list_all_iff by (metis atLeastLessThan_iff set_upt)
  with assms(1) show ?thesis by simp
next
  case False
  then obtain k where k: "8 \<le> unat (drop_bit k x)" "unat (drop_bit k x) < 16"
    "sqlite3LogEst x = 10 * of_nat (k + 3) + logEst_a ! (unat (drop_bit k x) - 8)"
    using sqlite3LogEst_big [of x] by (auto simp: not_less)
  let ?t = "unat (drop_bit k x)"
  have dm: "?t = unat x div 2 ^ k" by (rule unat_drop_bit_div)
  have "k \<le> 57"
  proof (rule ccontr)
    assume "\<not> k \<le> 57"
    then have "(2::nat) ^ 58 \<le> 2 ^ k" by (intro power_increasing) auto
    moreover have "8 * 2 ^ k \<le> unat x"
      using k(1) unfolding dm by (metis div_times_less_eq_dividend le_trans mult_le_mono1)
    ultimately show False using assms(2) by simp
  qed
  then have "sqlite3LogEstToInt (sqlite3LogEst x) = Some (push_bit k (of_nat (?t - 8 + 8)))"
    unfolding k(3) using k(2) by (intro sqlite3LogEstToInt_digit) auto
  also have "\<dots> = Some (push_bit k (drop_bit k x))" using k(1) by simp
  finally have v: "sqlite3LogEstToInt (sqlite3LogEst x) = Some (push_bit k (drop_bit k x))" .
  have "unat (push_bit k (drop_bit k x)) = take_bit LENGTH(64) (push_bit k (unat x div 2 ^ k))"
    by (simp only: unsigned_push_bit_eq unat_drop_bit_div)
  moreover have "unat x div 2 ^ k * 2 ^ k < 2 ^ 64"
    using unat_less_64 [of x] div_times_less_eq_dividend [of "unat x" "2 ^ k"] by linarith
  ultimately have "unat (push_bit k (drop_bit k x)) = unat x - unat x mod 2 ^ k"
    by (simp only: push_bit_eq_mult minus_mod_eq_div_mult take_bit_eq_mod) simp
  moreover have "unat x mod 2 ^ k < 2 ^ k" "unat x mod 2 ^ k \<le> unat x" by simp_all
  moreover have "8 * 2 ^ k \<le> unat x - unat x mod 2 ^ k"
    using k(1) unfolding dm minus_mod_eq_div_mult by simp
  ultimately have "unat (push_bit k (drop_bit k x)) \<le> unat x \<and>
      8 * (unat x - unat (push_bit k (drop_bit k x))) < unat (push_bit k (drop_bit k x))" by linarith
  then show ?thesis unfolding v by blast
qed

section \<open>Integers to text\<close>

definition sqlite3DigitPairs :: bytes where
  "sqlite3DigitPairs = map of_char
     (''00010203040506070809'' @ ''10111213141516171819'' @ ''20212223242526272829'' @
      ''30313233343536373839'' @ ''40414243444546474849'' @ ''50515253545556575859'' @
      ''60616263646566676869'' @ ''70717273747576777879'' @ ''80818283848586878889'' @
      ''90919293949596979899'')"

function int64ToText_loop :: "u64 \<Rightarrow> bytes \<Rightarrow> bytes" where
  "int64ToText_loop x a =
     (if x \<ge> 10
      then (let kk = unat (x mod 100) * 2
            in int64ToText_loop (x div 100) (sqlite3DigitPairs ! kk # sqlite3DigitPairs ! (kk + 1) # a))
      else if x \<noteq> 0 then (ucast x + 0x30) # a else a)"
  by pat_completeness auto
termination
proof (relation "measure (\<lambda>(x, a). unat x)", goal_cases)
  case (2 x a kk)
  then have "10 \<le> unat x" by (simp add: word_le_nat_alt)
  then show ?case by (simp add: unat_div)
qed simp

declare int64ToText_loop.simps [simp del]

definition sqlite3Int64ToText :: "i64 \<Rightarrow> bytes" where
  "sqlite3Int64ToText v =
     (if v = 0 then [0x30]
      else (let x = (if sint v > 0 then v else if v = SMALLEST_INT64 then 0x8000000000000000 else - v);
                a = int64ToText_loop x []
            in if sint v < 0 then 0x2d # a else a))"

section \<open>Text to integers\<close>

definition digit_of :: "u8 \<Rightarrow> u32" where
  "digit_of c = scast c - 0x30"

fun atoi64_digits :: "u64 \<Rightarrow> nat \<Rightarrow> bytes \<Rightarrow> u64 \<times> nat \<times> bytes" where
  "atoi64_digits u i [] = (u, i, [])"
| "atoi64_digits u i (c # cs) =
     (if digit_of c \<le> 9 then atoi64_digits (u * 10 + ucast (digit_of c)) (i + 1) cs
      else (u, i, c # cs))"

definition pow63 :: bytes where
  "pow63 = [0x39, 0x32, 0x32, 0x33, 0x33, 0x37, 0x32, 0x30, 0x33, 0x36, 0x38, 0x35, 0x34, 0x37, 0x37,
     0x35, 0x38, 0x30]"

fun compare2pow63_loop :: "int \<Rightarrow> bytes \<Rightarrow> bytes \<Rightarrow> int" where
  "compare2pow63_loop c z [] = c"
| "compare2pow63_loop c z (p # ps) =
     (if c = 0 then compare2pow63_loop ((sint (head0 z) - sint p) * 10) (tl z) ps else c)"

definition compare2pow63 :: "bytes \<Rightarrow> int" where
  "compare2pow63 z =
     (let c = compare2pow63_loop 0 z pow63 in if c = 0 then sint (z ! 18) - 56 else c)"

function utf16_hi_scan :: "bytes \<Rightarrow> nat \<Rightarrow> nat \<Rightarrow> nat" where
  "utf16_hi_scan z i len = (if i < len \<and> z ! i = 0 then utf16_hi_scan z (i + 2) len else i)"
  by pat_completeness auto
termination by (relation "measure (\<lambda>(z, i, len). len - i)") auto

function every_other :: "bytes \<Rightarrow> nat \<Rightarrow> nat \<Rightarrow> bytes" where
  "every_other z p e = (if p < e then z ! p # every_other z (p + 2) e else [])"
  by pat_completeness auto
termination by (relation "measure (\<lambda>(z, p, e). e - p)") auto

declare utf16_hi_scan.simps [simp del] every_other.simps [simp del]

text \<open>The characters the routine visits: every byte in UTF-8, and in UTF-16 the low byte of every
  unit before the first one with a non-zero high byte.\<close>

definition atoi64_chars :: "bytes \<Rightarrow> nat \<Rightarrow> nat \<Rightarrow> bytes \<times> bool" where
  "atoi64_chars z len enc =
     (if enc = 1 then (take len z, False)
      else (let len = 2 * (len div 2); i = utf16_hi_scan z (3 - enc) len
            in (every_other z (enc AND 1) (i XOR 1), i < len)))"

definition atoi64_scan :: "bytes \<Rightarrow> bool \<Rightarrow> i64 \<times> int" where
  "atoi64_scan cs nonNum =
     (let cs = dropWhile sqlite3Isspace cs;
          neg = (cs \<noteq> [] \<and> hd cs = 0x2d);
          cs = (if cs \<noteq> [] \<and> (hd cs = 0x2d \<or> hd cs = 0x2b) then tl cs else cs);
          zNum = dropWhile (\<lambda>c. c = 0x30) cs;
          (u, i, rest) = atoi64_digits 0 0 zNum;
          num = (if u > LARGEST_INT64 then (if neg then SMALLEST_INT64 else LARGEST_INT64)
                 else if neg then - u else u);
          rc = (if i = 0 \<and> zNum = cs then -1
                else if nonNum then 1
                else if list_ex (\<lambda>c. \<not> sqlite3Isspace c) rest then 1 else 0)
      in if i < 19 then (num, rc)
         else (let j = (if i > 19 then 1 else compare2pow63 zNum)
               in if j < 0 then (num, rc)
                  else (if neg then SMALLEST_INT64 else LARGEST_INT64,
                        if j > 0 then 2 else if neg then rc else 3)))"

definition sqlite3Atoi64 :: "bytes \<Rightarrow> nat \<Rightarrow> nat \<Rightarrow> i64 \<times> int" where
  "sqlite3Atoi64 z len enc = (case atoi64_chars z len enc of (cs, nonNum) \<Rightarrow> atoi64_scan cs nonNum)"

fun dec_from :: "nat \<Rightarrow> bytes \<Rightarrow> nat" where
  "dec_from v [] = v"
| "dec_from v (c # cs) = dec_from (10 * v + (unat c - 48)) cs"

text \<open>The value a decimal string should have, and the code it should return.\<close>

definition atoi64_spec :: "bytes \<Rightarrow> bool \<Rightarrow> i64 \<times> int" where
  "atoi64_spec cs nonNum =
     (let s = dropWhile sqlite3Isspace cs;
          neg = (s \<noteq> [] \<and> hd s = 0x2d);
          t = (if s \<noteq> [] \<and> (hd s = 0x2d \<or> hd s = 0x2b) then tl s else s);
          ds = takeWhile sqlite3Isdigit t;
          v = (if neg then - int (dec_from 0 ds) else int (dec_from 0 ds));
          rc = (if ds = [] then -1
                else if nonNum \<or> list_ex (\<lambda>c. \<not> sqlite3Isspace c) (dropWhile sqlite3Isdigit t) then 1 else 0)
      in if in_i64 v then (word_of_int v, rc)
         else if v = 2 ^ 63 then (LARGEST_INT64, 3)
         else (if neg then SMALLEST_INT64 else LARGEST_INT64, 2))"

lemma int_mod_eq'_shift: "- n \<le> x \<Longrightarrow> x < 0 \<Longrightarrow> x mod n = x + (n :: int)"
  using mod_pos_pos_trivial [of "x + n" n] by simp

lemma mod_shift_256: "128 \<le> x \<Longrightarrow> x < 256 \<Longrightarrow> (int x + 128) mod 256 = int x - 128"
  using mod_pos_pos_trivial [of "int x - 128" 256] mod_add_self2 [of "int x - 128" 256]
  by (simp add: add.commute)

lemma sint_u8: "sint (c :: u8) = (int (unat c) + 128) mod 256 - 128"
  by (simp add: sint_uint signed_take_bit_eq_take_bit_shift take_bit_eq_mod)

lemma sint_u8_small: "unat (c :: u8) < 128 \<Longrightarrow> sint c = int (unat c)"
proof -
  assume "unat c < 128"
  then have "(int (unat c) + 128) mod 256 = int (unat c) + 128"
    by (intro mod_pos_pos_trivial) linarith+
  then show ?thesis unfolding sint_u8 by linarith
qed

lemma digit_of_cases:
  "(digit_of c \<le> 9 \<longleftrightarrow> sqlite3Isdigit c) \<and>
   (sqlite3Isdigit c \<longrightarrow> unat (digit_of c) = unat c - 48 \<and> sint c = int (unat c))"
proof -
  have c: "unat c < 256" using unsigned_less [of c] by simp
  have "digit_of c = word_of_int (sint c - 48)"
    by (simp add: digit_of_def)
  then have u: "int (unat (digit_of c)) = (sint c - 48) mod 2 ^ 32"
    by (simp only: of_nat_unat unsigned_of_int take_bit_eq_mod) simp
  have le: "digit_of c \<le> 9 \<longleftrightarrow> int (unat (digit_of c)) \<le> 9"
    using word_le_nat_alt [of "digit_of c" 9] by (simp del: of_nat_unat)
  consider "unat c < 48" | "48 \<le> unat c" "unat c < 128" | "128 \<le> unat c" by linarith
  then show ?thesis
  proof cases
    case 1
    then have s: "sint c = int (unat c)" by (intro sint_u8_small) linarith
    have "(int (unat c) - 48) mod 2 ^ 32 = int (unat c) - 48 + 2 ^ 32"
      using 1 by (intro int_mod_eq'_shift) (simp_all del: of_nat_unat)
    then have "\<not> digit_of c \<le> 9" unfolding le u s by (simp del: of_nat_unat)
    moreover have "\<not> sqlite3Isdigit c" using 1 by (simp add: sqlite3Isdigit_iff)
    ultimately show ?thesis by blast
  next
    case 2
    then have s: "sint c = int (unat c)" by (intro sint_u8_small) linarith
    have "int (unat (digit_of c)) = int (unat c) - 48"
      unfolding u s using 2 by (intro mod_pos_pos_trivial) (simp_all del: of_nat_unat)
    with 2 s le show ?thesis by (auto simp: sqlite3Isdigit_iff simp del: of_nat_unat)
  next
    case 3
    then have s: "sint c = int (unat c) - 256" using c unfolding sint_u8 by (simp add: mod_shift_256 del: of_nat_unat)
    have "(int (unat c) - 256 - 48) mod 2 ^ 32 = int (unat c) - 256 - 48 + 2 ^ 32"
      using c by (intro int_mod_eq'_shift) (simp_all del: of_nat_unat)
    then have "\<not> digit_of c \<le> 9" unfolding le u s using c by (simp del: of_nat_unat)
    moreover have "\<not> sqlite3Isdigit c" using 3 by (simp add: sqlite3Isdigit_iff)
    ultimately show ?thesis by blast
  qed
qed

lemma dec_from_0: "dec_from v ds = v * 10 ^ length ds + dec_from 0 ds"
proof (induction ds arbitrary: v)
  case (Cons c cs)
  show ?case
    using Cons.IH [of "10 * v + (unat c - 48)"] Cons.IH [of "unat c - 48"] by (simp add: algebra_simps)
qed simp

lemma dec_from_Cons: "dec_from 0 (c # cs) = (unat c - 48) * 10 ^ length cs + dec_from 0 cs"
  using dec_from_0 [of "unat c - 48" cs] by simp

lemma dec_from_less: "list_all sqlite3Isdigit ds \<Longrightarrow> dec_from 0 ds < 10 ^ length ds"
proof (induction ds)
  case (Cons c cs)
  then have "unat c - 48 \<le> 9" "dec_from 0 cs < 10 ^ length cs" by (auto simp: sqlite3Isdigit_iff)
  then have "(unat c - 48) * 10 ^ length cs \<le> 9 * 10 ^ length cs" by (intro mult_right_mono) auto
  with \<open>dec_from 0 cs < 10 ^ length cs\<close> show ?case
    unfolding dec_from_Cons length_Cons power_Suc by linarith
qed simp

lemma dec_from_ge:
  assumes "list_all sqlite3Isdigit (c # cs)" "c \<noteq> 0x30"
  shows "10 ^ length cs \<le> dec_from 0 (c # cs)"
proof -
  have "unat c \<noteq> 48" using assms(2) by (simp add: word_unat_eq_iff)
  then have "1 \<le> unat c - 48" using assms(1) by (auto simp: sqlite3Isdigit_iff)
  then have "1 * 10 ^ length cs \<le> (unat c - 48) * 10 ^ length cs" by (intro mult_right_mono) auto
  then show ?thesis unfolding dec_from_Cons by linarith
qed

lemma dec_from_append: "dec_from 0 (as @ bs) = dec_from (dec_from 0 as) bs"
proof -
  have "dec_from v (as @ bs) = dec_from (dec_from v as) bs" for v by (induction as arbitrary: v) auto
  then show ?thesis .
qed

lemma atoi64_digits_ok:
  "atoi64_digits (of_nat v) i cs =
     (of_nat (dec_from v (takeWhile sqlite3Isdigit cs)), i + length (takeWhile sqlite3Isdigit cs),
      dropWhile sqlite3Isdigit cs)"
proof (induction cs arbitrary: v i)
  case (Cons c cs)
  show ?case
  proof (cases "sqlite3Isdigit c")
    case True
    have "ucast (digit_of c) = (of_nat (unat (digit_of c)) :: u64)" by simp
    also have "\<dots> = of_nat (unat c - 48)" using digit_of_cases [of c] True by simp
    finally have "of_nat v * 10 + ucast (digit_of c) = (of_nat (10 * v + (unat c - 48)) :: u64)"
      by (simp only: of_nat_add of_nat_mult of_nat_numeral mult.commute)
    with Cons.IH [of "10 * v + (unat c - 48)" "i + 1"] True digit_of_cases [of c] show ?thesis
      by (simp only: atoi64_digits.simps if_True takeWhile.simps dropWhile.simps dec_from.simps) simp
  qed (use digit_of_cases [of c] in simp)
qed simp

lemma compare2pow63_loop_ok:
  "list_all sqlite3Isdigit z \<Longrightarrow> list_all sqlite3Isdigit p \<Longrightarrow> length z = length p \<Longrightarrow>
   (compare2pow63_loop 0 z p = 0 \<longleftrightarrow> dec_from 0 z = dec_from 0 p) \<and>
   (compare2pow63_loop 0 z p < 0 \<longleftrightarrow> dec_from 0 z < dec_from 0 p)"
proof (induction p arbitrary: z)
  case (Cons b p)
  then obtain a z' where z: "z = a # z'" by (cases z) auto
  have dig: "sqlite3Isdigit a" "sqlite3Isdigit b" and dz: "list_all sqlite3Isdigit z'" "list_all sqlite3Isdigit p"
    and len: "length z' = length p" using Cons.prems z by simp_all
  have s: "sint a = int (unat a)" "sint b = int (unat b)" "48 \<le> unat a" "48 \<le> unat b"
    using digit_of_cases [of a] digit_of_cases [of b] dig by (simp_all add: sqlite3Isdigit_iff)
  have stop: "c \<noteq> 0 \<Longrightarrow> compare2pow63_loop c z' p = c" for c by (cases p) auto
  have loop: "compare2pow63_loop 0 z (b # p) =
    (if unat a = unat b then compare2pow63_loop 0 z' p else (int (unat a) - int (unat b)) * 10)"
    using stop [of "(int (unat a) - int (unat b)) * 10"] by (simp add: z s del: of_nat_unat)
  have less: "dec_from 0 z' < 10 ^ length p" "dec_from 0 p < 10 ^ length p"
    using dec_from_less [OF dz(1)] dec_from_less [OF dz(2)] len by simp_all
  let ?P = "10 ^ length p :: nat"
  have step: "x < y \<Longrightarrow> x * ?P + dec_from 0 z' < y * ?P" "x < y \<Longrightarrow> x * ?P + dec_from 0 p < y * ?P" for x y
  proof -
    assume "x < y"
    then have "Suc x * ?P \<le> y * ?P" by (intro mult_right_mono) auto
    then show "x * ?P + dec_from 0 z' < y * ?P" "x * ?P + dec_from 0 p < y * ?P" using less by simp_all
  qed
  consider "unat a = unat b" | "unat a < unat b" | "unat b < unat a" by linarith
  then show ?case
  proof cases
    case 1
    with Cons.IH [OF dz len] show ?thesis unfolding loop by (simp add: z dec_from_Cons len del: dec_from.simps)
  next
    case 2
    then have "unat a - 48 < unat b - 48" using s by linarith
    from step(1) [OF this] 2 show ?thesis
      unfolding loop by (simp add: z dec_from_Cons len del: dec_from.simps of_nat_unat)
  next
    case 3
    then have "unat b - 48 < unat a - 48" using s by linarith
    from step(2) [OF this] 3 show ?thesis
      unfolding loop by (simp add: z dec_from_Cons len del: dec_from.simps of_nat_unat)
  qed
qed simp

lemma digit_0x30: "sqlite3Isdigit 0x30"
  by (simp add: sqlite3Isdigit_iff)

text \<open>Leading zeros: they are digits, do not change the value and leave a significant digit first.\<close>

lemma leading_zeros:
  fixes t :: bytes
  defines "z \<equiv> dropWhile (\<lambda>c. c = 0x30) t"
  shows "takeWhile sqlite3Isdigit t = takeWhile (\<lambda>c. c = 0x30) t @ takeWhile sqlite3Isdigit z"
    "dropWhile sqlite3Isdigit t = dropWhile sqlite3Isdigit z"
    "dec_from 0 (takeWhile sqlite3Isdigit t) = dec_from 0 (takeWhile sqlite3Isdigit z)"
    "takeWhile sqlite3Isdigit t = [] \<longleftrightarrow> takeWhile sqlite3Isdigit z = [] \<and> z = t"
proof -
  let ?o = "takeWhile (\<lambda>c. c = 0x30) t"
  have t: "t = ?o @ z" unfolding z_def by simp
  have o: "\<forall>c \<in> set ?o. sqlite3Isdigit c" using digit_0x30 by (metis set_takeWhileD)
  show tw: "takeWhile sqlite3Isdigit t = ?o @ takeWhile sqlite3Isdigit z"
    using o by (subst t) (rule takeWhile_append2, blast)
  show "dropWhile sqlite3Isdigit t = dropWhile sqlite3Isdigit z"
    using o by (subst t) (rule dropWhile_append2, blast)
  have "dec_from 0 ?o = 0"
    by (induction t) auto
  then show "dec_from 0 (takeWhile sqlite3Isdigit t) = dec_from 0 (takeWhile sqlite3Isdigit z)"
    unfolding tw dec_from_append by simp
  show "takeWhile sqlite3Isdigit t = [] \<longleftrightarrow> takeWhile sqlite3Isdigit z = [] \<and> z = t"
    unfolding tw using t by auto
qed

lemma dec_pow63: "dec_from 0 pow63 = 922337203685477580" "length pow63 = 18" "list_all sqlite3Isdigit pow63"
  by (simp_all add: pow63_def sqlite3Isdigit_iff)

lemma compare2pow63_ok:
  assumes "list_all sqlite3Isdigit ds" "length ds = 19"
  shows "(compare2pow63 (ds @ rest) = 0 \<longleftrightarrow> dec_from 0 ds = 2 ^ 63) \<and>
    (compare2pow63 (ds @ rest) < 0 \<longleftrightarrow> dec_from 0 ds < 2 ^ 63)"
proof -
  let ?a = "take 18 ds" and ?l = "ds ! 18"
  have ds: "ds = ?a @ [?l]" using assms(2) by (metis take_Suc_conv_app_nth lessI take_all_iff order_refl eval_nat_numeral(3))
  have a: "list_all sqlite3Isdigit ?a" "length ?a = 18" and l: "sqlite3Isdigit ?l"
    using assms by (auto simp: list_all_iff dest: in_set_takeD)
  have loop: "compare2pow63_loop c (xs @ ys) ps = compare2pow63_loop c xs ps" if "length xs = length ps" for c xs ys ps
    using that
  proof (induction c xs ps rule: compare2pow63_loop.induct)
    case (2 c z p ps)
    then obtain a z' where "z = a # z'" by (cases z) auto
    with 2 show ?case by simp
  qed simp
  have "compare2pow63_loop 0 (ds @ rest) pow63 = compare2pow63_loop 0 ?a pow63"
    using loop [of ?a pow63 0 "?l # rest"] a(2) dec_pow63(2) by (subst ds) simp
  note c = compare2pow63_loop_ok [OF a(1) dec_pow63(3), unfolded dec_pow63, folded this, OF a(2)]
  have "dec_from 0 ds = dec_from (dec_from 0 ?a) [?l]" using dec_from_append [of ?a "[?l]"] ds by simp
  then have v: "dec_from 0 ds = dec_from 0 ?a * 10 + (unat ?l - 48)" by simp
  have ll: "sint ?l = int (unat ?l)" "48 \<le> unat ?l" "unat ?l \<le> 57"
    using digit_of_cases [of ?l] l by (simp_all add: sqlite3Isdigit_iff)
  have cmp: "compare2pow63 (ds @ rest) = (let c = compare2pow63_loop 0 (ds @ rest) pow63 in
      if c = 0 then int (unat ?l) - 56 else c)"
  proof -
    have "(ds @ rest) ! 18 = ?l" using assms(2) by (simp add: nth_append)
    then show ?thesis unfolding compare2pow63_def by (simp only: ll(1))
  qed
  show ?thesis
    unfolding cmp v Let_def using c ll(2,3) by (auto simp del: of_nat_unat)
qed

lemma atoi64_scan_ok: "atoi64_scan cs nonNum = atoi64_spec cs nonNum"
proof -
  define s where "s = dropWhile sqlite3Isspace cs"
  define neg where "neg = (s \<noteq> [] \<and> hd s = 0x2d)"
  define t where "t = (if s \<noteq> [] \<and> (hd s = 0x2d \<or> hd s = 0x2b) then tl s else s)"
  define z where "z = dropWhile (\<lambda>c. c = 0x30) t"
  define ds where "ds = takeWhile sqlite3Isdigit z"
  define rest where "rest = dropWhile sqlite3Isdigit z"
  define n where "n = dec_from 0 ds"
  define rc where "rc = (if ds = [] \<and> z = t then -1 else if nonNum then 1
    else if list_ex (\<lambda>c. \<not> sqlite3Isspace c) rest then 1 else (0::int))"
  note lz = leading_zeros [of t, folded z_def, folded ds_def rest_def n_def]
  have dig: "atoi64_digits 0 0 z = (of_nat n, length ds, rest)"
    using atoi64_digits_ok [of 0 0 z] by (simp add: ds_def rest_def n_def)
  have dds: "list_all sqlite3Isdigit ds" unfolding ds_def by (auto simp: list_all_iff dest: set_takeWhileD)
  define v where "v = (if neg then - int n else int n)"
  have spec: "atoi64_spec cs nonNum =
     (if in_i64 v then (word_of_int v, rc)
         else if v = 2 ^ 63 then (LARGEST_INT64, 3)
         else (if neg then SMALLEST_INT64 else LARGEST_INT64, 2))"
    unfolding atoi64_spec_def Let_def s_def [symmetric]
    unfolding neg_def [symmetric] t_def [symmetric]
    unfolding lz(2) lz(3) lz(4) by (simp add: rc_def v_def)
  have scan: "atoi64_scan cs nonNum =
     (let num = (if (of_nat n :: u64) > LARGEST_INT64 then (if neg then SMALLEST_INT64 else LARGEST_INT64)
                 else if neg then - of_nat n else of_nat n)
      in if length ds < 19 then (num, rc)
         else (let j = (if length ds > 19 then 1 else compare2pow63 z)
               in if j < 0 then (num, rc)
                  else (if neg then SMALLEST_INT64 else LARGEST_INT64,
                        if j > 0 then 2 else if neg then rc else 3)))"
    unfolding atoi64_scan_def Let_def s_def [symmetric]
    unfolding neg_def [symmetric] t_def [symmetric] z_def [symmetric] dig prod.case rc_def by simp
  have less: "n < 10 ^ length ds" unfolding n_def by (rule dec_from_less [OF dds])
  have big: "10 ^ (length ds - 1) \<le> n" if "ds \<noteq> []"
  proof -
    from that obtain c ds' where c: "ds = c # ds'" by (cases ds) auto
    then have "z \<noteq> []" "c = hd z" unfolding ds_def by (cases z; auto split: if_splits)+
    then have "c \<noteq> 0x30" using hd_dropWhile [of "\<lambda>c. c = 0x30" t] unfolding z_def by auto
    from dec_from_ge [OF dds [unfolded c] this] show ?thesis by (simp add: n_def c)
  qed
  have num: "(if (of_nat n :: u64) > LARGEST_INT64 then x else if neg then - of_nat n else of_nat n)
      = (word_of_int v :: u64)" if "n < 2 ^ 63" for x
  proof -
    have "unat (of_nat n :: u64) = n" using that by (simp add: take_bit_nat_eq_self unsigned_of_nat)
    then have "\<not> (of_nat n :: u64) > LARGEST_INT64" using that by (simp add: word_less_nat_alt)
    then show ?thesis by (simp add: v_def)
  qed
  have inv: "in_i64 v \<longleftrightarrow> n < 2 ^ 63 \<or> neg \<and> n = 2 ^ 63" by (auto simp: in_i64_def v_def)
  have v63: "v = 2 ^ 63 \<longleftrightarrow> \<not> neg \<and> n = 2 ^ 63" by (auto simp: v_def)
  consider (lt) "length ds < 19" | (eq) "length ds = 19" | (gt) "length ds > 19" by linarith
  then show ?thesis
  proof cases
    case lt
    then have "(10::nat) ^ length ds \<le> 10 ^ 18" by (intro power_increasing) auto
    with less have "n < 2 ^ 63" by simp
    then show ?thesis unfolding spec scan Let_def num [OF \<open>n < 2 ^ 63\<close>] using lt inv by simp
  next
    case eq
    have "z = ds @ rest" unfolding ds_def rest_def by simp
    with compare2pow63_ok [OF dds eq, of rest, folded n_def]
    have c: "compare2pow63 z = 0 \<longleftrightarrow> n = 2 ^ 63" "compare2pow63 z < 0 \<longleftrightarrow> n < 2 ^ 63" by simp_all
    show ?thesis
    proof (cases "n < 2 ^ 63")
      case True
      then show ?thesis unfolding spec scan Let_def num [OF True] using eq c inv by simp
    next
      case False
      have "word_of_int (- (2 ^ 63)) = SMALLEST_INT64" by simp
      with False eq c inv v63 show ?thesis unfolding spec scan Let_def by (auto simp: v_def)
    qed
  next
    case gt
    then have "(10::nat) ^ 19 \<le> 10 ^ (length ds - 1)" by (intro power_increasing) auto
    moreover have "ds \<noteq> []" using gt by auto
    ultimately have "2 ^ 63 < n" using big by simp
    then show ?thesis unfolding spec scan Let_def using gt inv v63 by simp
  qed
qed

section \<open>Writing and reading back\<close>

lemma digit_pair:
  assumes "k < 100"
  shows "unat (sqlite3DigitPairs ! (k * 2)) = 48 + k div 10" "unat (sqlite3DigitPairs ! (k * 2 + 1)) = 48 + k mod 10"
proof -
  have "map unat sqlite3DigitPairs = concat (map (\<lambda>k. [48 + k div 10, 48 + k mod 10]) [0..<100])"
    by code_simp
  moreover have "length sqlite3DigitPairs = 200" by code_simp
  moreover have "concat (map (\<lambda>k. [f k, g k]) [0..<n]) ! (k * 2) = f k"
    "concat (map (\<lambda>k. [f k, g k]) [0..<n]) ! (k * 2 + 1) = g k" if "k < n" for f g :: "nat \<Rightarrow> nat" and n
  proof -
    have len: "length (concat (map (\<lambda>k. [f k, g k]) [0..<n])) = n * 2" for n by (induction n) auto
    show "concat (map (\<lambda>k. [f k, g k]) [0..<n]) ! (k * 2) = f k"
      "concat (map (\<lambda>k. [f k, g k]) [0..<n]) ! (k * 2 + 1) = g k"
      using that by (induction n) (auto simp: nth_append len less_Suc_eq)
  qed
  ultimately show "unat (sqlite3DigitPairs ! (k * 2)) = 48 + k div 10" "unat (sqlite3DigitPairs ! (k * 2 + 1)) = 48 + k mod 10"
    using assms nth_map [of "k * 2" sqlite3DigitPairs unat] nth_map [of "k * 2 + 1" sqlite3DigitPairs unat]
    by simp_all
qed

lemma int64ToText_loop_ok:
  "list_all sqlite3Isdigit a \<Longrightarrow>
   list_all sqlite3Isdigit (int64ToText_loop x a) \<and>
   dec_from 0 (int64ToText_loop x a) = unat x * 10 ^ length a + dec_from 0 a \<and>
   (x \<noteq> 0 \<longrightarrow> int64ToText_loop x a \<noteq> [])"
proof (induction x a rule: int64ToText_loop.induct)
  case (1 x a)
  show ?case
  proof (cases "x \<ge> 10")
    case True
    define kk where "kk = unat (x mod 100)"
    have kk: "kk < 100" "kk = unat x mod 100" by (simp_all add: kk_def unat_mod)
    let ?a = "sqlite3DigitPairs ! (kk * 2) # sqlite3DigitPairs ! (kk * 2 + 1) # a"
    note p = digit_pair [OF kk(1)]
    have div: "unat (x div 100) = unat x div 100" by (simp add: unat_div)
    have dig: "list_all sqlite3Isdigit ?a"
    proof -
      have "kk div 10 \<le> 9" "kk mod 10 \<le> 9" using kk(1) by simp_all
      with p have "sqlite3Isdigit (sqlite3DigitPairs ! (kk * 2))" "sqlite3Isdigit (sqlite3DigitPairs ! (kk * 2 + 1))"
        unfolding sqlite3Isdigit_iff by simp_all
      with "1.prems" show ?thesis by simp
    qed
    have val: "dec_from 0 ?a = kk * 10 ^ length a + dec_from 0 a"
    proof -
      have "dec_from 0 ?a = (kk div 10) * 10 ^ Suc (length a) + ((kk mod 10) * 10 ^ length a + dec_from 0 a)"
        using p by (simp only: dec_from_Cons length_Cons) simp
      also have "\<dots> = (kk div 10 * 10 + kk mod 10) * 10 ^ length a + dec_from 0 a"
        unfolding power_Suc by (simp only: distrib_right mult.assoc add.assoc)
      finally show ?thesis by (simp only: div_mult_mod_eq)
    qed
    have x: "unat x = unat x div 100 * 100 + kk" unfolding kk(2) by simp
    have eq: "int64ToText_loop x a = int64ToText_loop (x div 100) ?a"
      using True by (simp add: int64ToText_loop.simps [of x] kk_def Let_def)
    have IH: "list_all sqlite3Isdigit (int64ToText_loop (x div 100) ?a) \<and>
      dec_from 0 (int64ToText_loop (x div 100) ?a) = unat x div 100 * 10 ^ length ?a + dec_from 0 ?a"
      using "1.IH" [OF True refl] dig unfolding kk_def [symmetric] div by blast
    have "dec_from 0 (int64ToText_loop x a) = (unat x div 100 * 100 + kk) * 10 ^ length a + dec_from 0 a"
      unfolding eq using IH val by (simp add: algebra_simps)
    then have "dec_from 0 (int64ToText_loop x a) = unat x * 10 ^ length a + dec_from 0 a" using x by simp
    moreover have "int64ToText_loop x a \<noteq> []"
    proof
      assume "int64ToText_loop x a = []"
      with calculation have "unat x = 0" by simp
      with True show False by (simp add: word_le_nat_alt)
    qed
    ultimately show ?thesis using IH unfolding eq by blast
  next
    case False
    have small: "unat x < 10" using False by (simp add: word_le_nat_alt)
    then have "unat (ucast x + 0x30 :: u8) = unat x + 48"
      by (simp add: unat_word_ariths unsigned_ucast_eq take_bit_nat_eq_self)
    with False small "1.prems" show ?thesis
      by (auto simp: int64ToText_loop.simps [of x] dec_from_Cons sqlite3Isdigit_iff simp del: dec_from.simps(2))
  qed
qed

lemma atoi64_scan_digits:
  assumes "list_all sqlite3Isdigit ds" "ds \<noteq> []" "in_i64 (if neg then - int (dec_from 0 ds) else int (dec_from 0 ds))"
  shows "atoi64_scan ((if neg then [0x2d] else []) @ ds) False =
    (word_of_int (if neg then - int (dec_from 0 ds) else int (dec_from 0 ds)), 0)"
proof -
  obtain d ds' where d: "ds = d # ds'" using assms(2) by (cases ds) auto
  then have "sqlite3Isdigit d" using assms(1) by simp
  then have nd: "\<not> sqlite3Isspace d" "d \<noteq> 0x2d" "d \<noteq> 0x2b" by (auto simp: sqlite3Isdigit_iff sqlite3Isspace_iff)
  have tw: "takeWhile sqlite3Isdigit ds = ds" "dropWhile sqlite3Isdigit ds = []"
    using assms(1) by (simp_all add: list_all_iff)
  have sp: "\<not> sqlite3Isspace 0x2d" by (simp add: sqlite3Isspace_iff)
  show ?thesis
    using assms(3) tw nd sp unfolding atoi64_scan_ok atoi64_spec_def Let_def
    by (cases neg) (simp_all add: d)
qed

lemma sqlite3Int64ToText_Atoi64: "atoi64_scan (sqlite3Int64ToText v) False = (v, 0)"
proof (cases "v = 0")
  case True
  then show ?thesis using atoi64_scan_digits [of "[0x30]" False]
    by (simp add: sqlite3Int64ToText_def digit_0x30 in_i64_def)
next
  case False
  define neg where "neg = (sint v < 0)"
  define x where "x = (if sint v > 0 then v else if v = SMALLEST_INT64 then 0x8000000000000000 else - v)"
  note b = sint64_bounds [of v]
  have v0: "sint v \<noteq> 0" using False by (metis signed_0 signed_word_eqI)
  have xv: "int (unat x) = \<bar>sint v\<bar>"
  proof -
    have "x = word_of_int \<bar>sint v\<bar>"
      using v0 by (auto simp: x_def abs_if)
    moreover have "uint (word_of_int \<bar>sint v\<bar> :: u64) = \<bar>sint v\<bar>"
      using b by (simp add: unsigned_of_int take_bit_int_eq_self)
    ultimately show ?thesis by simp
  qed
  then have "x \<noteq> 0" using v0 by auto
  define ds where "ds = int64ToText_loop x []"
  have ds: "list_all sqlite3Isdigit ds" "dec_from 0 ds = unat x" "ds \<noteq> []"
    using int64ToText_loop_ok [of "[]" x] \<open>x \<noteq> 0\<close> by (simp_all add: ds_def)
  have val: "(if neg then - int (dec_from 0 ds) else int (dec_from 0 ds)) = sint v"
    unfolding ds(2) xv neg_def by simp
  have "in_i64 (sint v)" using b by (simp add: in_i64_def)
  with atoi64_scan_digits [OF ds(1,3), of neg] have "atoi64_scan ((if neg then [0x2d] else []) @ ds) False = (v, 0)"
    unfolding val by simp
  moreover have "sqlite3Int64ToText v = (if neg then [0x2d] else []) @ ds"
    using False unfolding sqlite3Int64ToText_def Let_def x_def [symmetric] ds_def [symmetric] neg_def by simp
  ultimately show ?thesis by simp
qed

definition utf16le :: "bytes \<Rightarrow> bytes" where "utf16le s = concat (map (\<lambda>c. [c, 0]) s)"
definition utf16be :: "bytes \<Rightarrow> bytes" where "utf16be s = concat (map (\<lambda>c. [0, c]) s)"

lemma utf16_nth:
  "k < length s \<Longrightarrow> utf16le s ! (2 * k) = s ! k \<and> utf16le s ! (2 * k + 1) = 0 \<and>
     utf16be s ! (2 * k) = 0 \<and> utf16be s ! (2 * k + 1) = s ! k"
  by (induction s arbitrary: k) (auto simp: utf16le_def utf16be_def nth_Cons split: nat.splits)

lemma utf16_scan:
  assumes "\<And>k. k < n \<Longrightarrow> z ! (2 * k + b) = 0" "k \<le> n" "b < 2"
  shows "utf16_hi_scan z (2 * k + b) (2 * n) = 2 * n + b"
  using assms(2)
proof (induction "n - k" arbitrary: k)
  case 0
  then show ?case using assms(3) by (simp add: utf16_hi_scan.simps)
next
  case (Suc m)
  then have "k < n" by simp
  moreover have "utf16_hi_scan z (2 * Suc k + b) (2 * n) = 2 * n + b"
    using Suc.hyps(1) [of "Suc k"] Suc.hyps(2) \<open>k < n\<close> by simp
  ultimately show ?case using assms(1,3) by (subst utf16_hi_scan.simps) simp
qed

lemma utf16_every_other:
  assumes "\<And>k. k < length s \<Longrightarrow> z ! (2 * k + b) = s ! k" "k \<le> length s" "b < 2"
  shows "every_other z (2 * k + b) (2 * length s + b) = drop k s"
  using assms(2)
proof (induction "length s - k" arbitrary: k)
  case 0
  then show ?case by (simp add: every_other.simps)
next
  case (Suc m)
  then have "k < length s" by simp
  moreover have "every_other z (2 * Suc k + b) (2 * length s + b) = drop (Suc k) s"
    using Suc.hyps(1) [of "Suc k"] Suc.hyps(2) \<open>k < length s\<close> by simp
  ultimately show ?case using assms(1) Cons_nth_drop_Suc [of k s] by (subst every_other.simps) simp
qed

lemma atoi64_chars_utf16:
  "atoi64_chars (utf16le s) (2 * length s) 2 = (s, False)"
  "atoi64_chars (utf16be s) (2 * length s) 3 = (s, False)"
proof -
  have "utf16_hi_scan (utf16le s) 1 (2 * length s) = 2 * length s + 1"
    using utf16_scan [of "length s" "utf16le s" 1 0] utf16_nth [of _ s] by simp
  moreover have "every_other (utf16le s) 0 (2 * length s) = s"
    using utf16_every_other [of s "utf16le s" 0 0] utf16_nth [of _ s] by simp
  ultimately show "atoi64_chars (utf16le s) (2 * length s) 2 = (s, False)"
    by (simp add: atoi64_chars_def xor_Suc_0_eq)
  have "utf16_hi_scan (utf16be s) 0 (2 * length s) = 2 * length s"
    using utf16_scan [of "length s" "utf16be s" 0 0] utf16_nth [of _ s] by simp
  moreover have "every_other (utf16be s) 1 (2 * length s + 1) = s"
    using utf16_every_other [of s "utf16be s" 1 0] utf16_nth [of _ s] by simp
  ultimately show "atoi64_chars (utf16be s) (2 * length s) 3 = (s, False)"
    by (simp add: atoi64_chars_def xor_Suc_0_eq)
qed

section \<open>32-bit integers and literals\<close>

fun getInt32_hex :: "nat \<Rightarrow> u32 \<Rightarrow> bytes \<Rightarrow> u32 \<times> bytes" where
  "getInt32_hex 0 u z = (u, z)"
| "getInt32_hex (Suc n) u z =
     (if sqlite3Isxdigit (head0 z) then getInt32_hex n (u * 16 + ucast (sqlite3HexToInt (head0 z))) (tl z)
      else (u, z))"

fun getInt32_dec :: "nat \<Rightarrow> int \<Rightarrow> nat \<Rightarrow> bytes \<Rightarrow> int \<times> nat" where
  "getInt32_dec 0 v i z = (v, i)"
| "getInt32_dec (Suc n) v i z =
     (let c = sint (head0 z) - 48
      in if c \<ge> 0 \<and> c \<le> 9 then getInt32_dec n (v * 10 + c) (i + 1) (tl z) else (v, i))"

definition sqlite3GetInt32 :: "bytes \<Rightarrow> u32 option" where
  "sqlite3GetInt32 zNum =
     (let neg = (head0 zNum = 0x2d); sign = (neg \<or> head0 zNum = 0x2b)
      in if \<not> sign \<and> head0 zNum = 0x30 \<and> (head0 (tl zNum) = 0x78 \<or> head0 (tl zNum) = 0x58) \<and>
            sqlite3Isxdigit (head0 (tl (tl zNum)))
         then (case getInt32_hex 8 0 (dropWhile (\<lambda>c. c = 0x30) (tl (tl zNum))) of
                 (u, z) \<Rightarrow> if u AND 0x80000000 = 0 \<and> \<not> sqlite3Isxdigit (head0 z) then Some u else None)
         else (let zNum = (if sign then tl zNum else zNum)
               in if \<not> sqlite3Isdigit (head0 zNum) then None
                  else (case getInt32_dec 11 0 0 (dropWhile (\<lambda>c. c = 0x30) zNum) of
                          (v, i) \<Rightarrow>
                            if i > 10 then None
                            else if v - (if neg then 1 else 0) > 2147483647 then None
                            else Some (word_of_int (if neg then - v else v)))))"

definition sqlite3Atoi :: "bytes \<Rightarrow> u32" where
  "sqlite3Atoi z = (case sqlite3GetInt32 z of None \<Rightarrow> 0 | Some x \<Rightarrow> x)"

fun getUInt32_loop :: "u64 \<Rightarrow> nat \<Rightarrow> bytes \<Rightarrow> (u64 \<times> nat \<times> bytes) option" where
  "getUInt32_loop v i [] = Some (v, i, [])"
| "getUInt32_loop v i (c # z) =
     (if sqlite3Isdigit c
      then (let v = v * 10 + scast c - 0x30
            in if v > 4294967296 then None else getUInt32_loop v (i + 1) z)
      else Some (v, i, c # z))"

definition sqlite3GetUInt32 :: "bytes \<Rightarrow> u32 \<times> bool" where
  "sqlite3GetUInt32 z =
     (case getUInt32_loop 0 0 z of
        None \<Rightarrow> (0, False)
      | Some (v, i, rest) \<Rightarrow> if i = 0 \<or> rest \<noteq> [] then (0, False) else (ucast v, True))"

definition sqlite3DecOrHexToI64 :: "bytes \<Rightarrow> i64 \<times> int" where
  "sqlite3DecOrHexToI64 z =
     (if head0 z = 0x30 \<and> (head0 (tl z) = 0x78 \<or> head0 (tl z) = 0x58)
      then (let z = dropWhile (\<lambda>c. c = 0x30) (tl (tl z));
                hs = takeWhile sqlite3Isxdigit z; rest = dropWhile sqlite3Isxdigit z;
                u = fold (\<lambda>c u. u * 16 + ucast (sqlite3HexToInt c)) hs 0
            in (u, if length hs > 16 then 2 else if rest \<noteq> [] then 1 else 0))
      else (let n = length (takeWhile (\<lambda>c. c \<in> set [0x2b, 0x2d, 0x20, 0x0a, 0x09] \<or> 0x30 \<le> c \<and> c \<le> 0x39) z) mod 2 ^ 30;
                n = (if n < length z then n + 1 else n)
            in sqlite3Atoi64 z n 1))"

lemma digit_iff_sint: "0 \<le> sint c - 48 \<and> sint c - 48 \<le> 9 \<longleftrightarrow> sqlite3Isdigit (c :: u8)"
proof (cases "unat c < 128")
  case True
  from sint_u8_small [OF this] show ?thesis unfolding sqlite3Isdigit_iff by (simp del: of_nat_unat)
next
  case False
  moreover have "unat c < 256" using unsigned_less [of c] by simp
  ultimately have "sint c = int (unat c) - 256" unfolding sint_u8 by (simp add: mod_shift_256 del: of_nat_unat)
  with False \<open>unat c < 256\<close> show ?thesis unfolding sqlite3Isdigit_iff by (simp del: of_nat_unat)
qed

lemma getInt32_dec_ok:
  "getInt32_dec n (int v) i z =
     (let ds = take n (takeWhile sqlite3Isdigit z) in (int (dec_from v ds), i + length ds))"
proof (induction n arbitrary: v i z)
  case (Suc n)
  have nd: "\<not> sqlite3Isdigit 0" by (simp add: sqlite3Isdigit_iff)
  show ?case
  proof (cases z)
    case Nil
    then show ?thesis using digit_iff_sint [of 0] nd by simp
  next
    case (Cons c z')
    show ?thesis
    proof (cases "sqlite3Isdigit c")
      case True
      then have "sint c = int (unat c)" "48 \<le> unat c" using digit_of_cases [of c] by (simp_all add: sqlite3Isdigit_iff)
      then have "int v * 10 + (sint c - 48) = int (10 * v + (unat c - 48))" by simp
      moreover have "getInt32_dec (Suc n) (int v) i z = getInt32_dec n (int v * 10 + (sint c - 48)) (i + 1) z'"
        using digit_iff_sint [of c] True by (simp add: Cons Let_def)
      ultimately have "getInt32_dec (Suc n) (int v) i z = getInt32_dec n (int (10 * v + (unat c - 48))) (i + 1) z'"
        by (simp only:)
      then show ?thesis unfolding Suc.IH using True by (simp add: Cons Let_def)
    next
      case False
      then show ?thesis using digit_iff_sint [of c] by (auto simp: Cons Let_def)
    qed
  qed
qed (simp add: Let_def)

lemma sqlite3GetInt32_dec:
  assumes "sqlite3Isdigit (head0 t)" "t = zNum \<and> \<not> neg \<and> \<not> (head0 t = 0x30 \<and>
      (head0 (tl t) = 0x78 \<or> head0 (tl t) = 0x58)) \<or>
      zNum = 0x2b # t \<and> \<not> neg \<or> zNum = 0x2d # t \<and> neg"
  defines "v \<equiv> (if neg then - int (dec_from 0 (takeWhile sqlite3Isdigit t))
                else int (dec_from 0 (takeWhile sqlite3Isdigit t)))"
  shows "sqlite3GetInt32 zNum = (if - (2 ^ 31) \<le> v \<and> v < 2 ^ 31 then Some (word_of_int v) else None)"
proof -
  define z where "z = dropWhile (\<lambda>c. c = 0x30) t"
  define ds where "ds = takeWhile sqlite3Isdigit z"
  define n where "n = dec_from 0 ds"
  note lz = leading_zeros [of t, folded z_def, folded ds_def, folded n_def]
  have v: "v = (if neg then - int n else int n)" unfolding v_def lz(3) ..
  have dds: "list_all sqlite3Isdigit ds" unfolding ds_def by (auto simp: list_all_iff dest: set_takeWhileD)
  have big: "10 ^ (length ds - 1) \<le> n" if "ds \<noteq> []"
  proof -
    from that obtain c ds' where c: "ds = c # ds'" by (cases ds) auto
    then have "z \<noteq> []" "c = hd z" unfolding ds_def by (cases z; auto split: if_splits)+
    then have "c \<noteq> 0x30" using hd_dropWhile [of "\<lambda>c. c = 0x30" t] unfolding z_def by auto
    from dec_from_ge [OF dds [unfolded c] this] show ?thesis by (simp add: n_def c)
  qed
  have nsign: "head0 t \<noteq> 0x2b" "head0 t \<noteq> 0x2d" using assms(1) by (auto simp: sqlite3Isdigit_iff)
  have dec: "getInt32_dec 11 0 0 z = (int (dec_from 0 (take 11 ds)), length (take 11 ds))"
    using getInt32_dec_ok [of 11 0 0 z] by (simp add: Let_def ds_def)
  have run: "sqlite3GetInt32 zNum = (if length (take 11 ds) > 10 then None
     else if int (dec_from 0 (take 11 ds)) - (if neg then 1 else 0) > 2147483647 then None
     else Some (word_of_int (if neg then - int (dec_from 0 (take 11 ds)) else int (dec_from 0 (take 11 ds)))))"
    using assms(1,2) nsign dec unfolding sqlite3GetInt32_def Let_def z_def
    by (elim disjE conjE) auto
  show ?thesis
  proof (cases "length ds > 10")
    case True
    then have "(10::nat) ^ 10 \<le> 10 ^ (length ds - 1)" by (intro power_increasing) auto
    moreover have "ds \<noteq> []" using True by auto
    ultimately have "10 ^ 10 \<le> n" using big by linarith
    then have "\<not> (- (2 ^ 31) \<le> v \<and> v < 2 ^ 31)" unfolding v by auto
    with True show ?thesis unfolding run by simp
  next
    case False
    then have "take 11 ds = ds" by simp
    with False show ?thesis unfolding run v n_def by auto
  qed
qed

lemma getUInt32_loop_ok:
  "v \<le> 2 ^ 32 \<Longrightarrow> getUInt32_loop (of_nat v) i z =
     (let ds = takeWhile sqlite3Isdigit z; rest = dropWhile sqlite3Isdigit z
      in if dec_from v ds \<le> 2 ^ 32 then Some (of_nat (dec_from v ds), i + length ds, rest) else None)"
proof (induction z arbitrary: v i)
  case (Cons c z)
  show ?case
  proof (cases "sqlite3Isdigit c")
    case True
    define w where "w = 10 * v + (unat c - 48)"
    have c: "sint c = int (unat c)" "48 \<le> unat c" "unat c \<le> 57"
      using digit_of_cases [of c] True by (simp_all add: sqlite3Isdigit_iff)
    have "scast c = (word_of_int (sint c) :: u64)" by simp
    also have "\<dots> = of_nat (unat c)" by (simp only: c(1) of_int_of_nat_eq)
    finally have "of_nat v * 10 + scast c - 0x30 = (of_nat w :: u64)"
      using c(2) by (simp add: w_def of_nat_diff)
    moreover have wb: "w < 2 ^ 64" using Cons.prems c(3) by (simp add: w_def)
    then have "(of_nat w :: u64) > 4294967296 \<longleftrightarrow> w > 2 ^ 32"
      by (simp add: word_less_nat_alt unsigned_of_nat take_bit_nat_eq_self)
    moreover have "w > 2 ^ 32 \<Longrightarrow> dec_from w (takeWhile sqlite3Isdigit z) > 2 ^ 32"
    proof -
      let ?ds = "takeWhile sqlite3Isdigit z"
      assume "w > 2 ^ 32"
      moreover have "w * 1 \<le> w * 10 ^ length ?ds" by (intro mult_left_mono) auto
      ultimately show ?thesis using dec_from_0 [of w ?ds] by linarith
    qed
    ultimately show ?thesis using True Cons.IH [of w "i + 1"]
      by (auto simp: Let_def w_def [symmetric] not_less)
  qed (use Cons.prems in simp)
qed simp

section \<open>Properties\<close>

text \<open>
  C26. Addition, subtraction and multiplication of signed 64-bit integers are exact: if the
  mathematical result fits it is stored and the return code is zero, and otherwise the operand is
  left unchanged and overflow is reported.
\<close>

theorem int64_arith_checked:
  "checked (sint a + sint b) a (sqlite3AddInt64 a b) \<and>
   checked (sint a - sint b) a (sqlite3SubInt64 a b) \<and>
   checked (sint a * sint b) a (sqlite3MulInt64 a b)"
  using sqlite3AddInt64_checked sqlite3SubInt64_checked sqlite3MulInt64_checked by blast

text \<open>
  C27. Text to 64-bit integer: on every input and encoding the conversion returns the decimal value
  and the code the specification gives, that is 0 or 1 for a value that fits (1 if something
  other than spaces follows), -1 without digits, 3 for exactly 2^63, and 2 with the nearest limit for
  any other value out of range, however many digits the text has.
\<close>

theorem sqlite3Atoi64_correct:
  "sqlite3Atoi64 z len enc = (case atoi64_chars z len enc of (cs, nonNum) \<Rightarrow> atoi64_spec cs nonNum)"
  by (simp add: sqlite3Atoi64_def atoi64_scan_ok)

text \<open>
  C28. Every 64-bit integer written as text is read back as itself, with code 0, from UTF-8 and from
  both UTF-16 encodings of that text.
\<close>

theorem int64_text_roundtrip:
  "sqlite3Atoi64 (sqlite3Int64ToText v) (length (sqlite3Int64ToText v)) 1 = (v, 0) \<and>
   sqlite3Atoi64 (utf16le (sqlite3Int64ToText v)) (2 * length (sqlite3Int64ToText v)) 2 = (v, 0) \<and>
   sqlite3Atoi64 (utf16be (sqlite3Int64ToText v)) (2 * length (sqlite3Int64ToText v)) 3 = (v, 0)"
  by (simp add: sqlite3Atoi64_def atoi64_chars_utf16 sqlite3Int64ToText_Atoi64)
     (simp add: atoi64_chars_def sqlite3Int64ToText_Atoi64)

text \<open>
  C29. A 32-bit unsigned number is accepted exactly when the whole text is decimal digits (at least
  one) of value at most 2^32, and then the value is stored modulo 2^32; so the text of 2^32 itself,
  which does not fit, is accepted as zero.
\<close>

theorem sqlite3GetUInt32_accepts:
  "sqlite3GetUInt32 z =
     (let ds = takeWhile sqlite3Isdigit z; n = dec_from 0 ds
      in if ds \<noteq> [] \<and> ds = z \<and> n \<le> 2 ^ 32 then (of_nat n, True) else (0, False)) \<and>
   sqlite3GetUInt32 [0x34, 0x32, 0x39, 0x34, 0x39, 0x36, 0x37, 0x32, 0x39, 0x36] = (0, True)"
proof -
  have "sqlite3GetUInt32 z =
     (let ds = takeWhile sqlite3Isdigit z; n = dec_from 0 ds
      in if ds \<noteq> [] \<and> ds = z \<and> n \<le> 2 ^ 32 then (of_nat n, True) else (0, False))" for z
  proof -
    have "dropWhile sqlite3Isdigit z = [] \<longleftrightarrow> takeWhile sqlite3Isdigit z = z"
      by (metis append_Nil2 append_same_eq takeWhile_dropWhile_id append_self_conv)
    moreover have "ucast (of_nat n :: u64) = (of_nat n :: u32)" if "n \<le> 2 ^ 32" for n
    proof -
      have "unat (of_nat n :: u64) = n" using that by (simp add: unsigned_of_nat take_bit_nat_eq_self)
      then show ?thesis by (metis of_nat_unat)
    qed
    ultimately show ?thesis using getUInt32_loop_ok [of 0 0 z]
      by (auto simp: sqlite3GetUInt32_def Let_def)
  qed
  from this [of z] this [of "[0x34, 0x32, 0x39, 0x34, 0x39, 0x36, 0x37, 0x32, 0x39, 0x36]"]
  show ?thesis by (simp add: sqlite3Isdigit_iff Let_def)
qed

text \<open>
  C30. A 32-bit signed number with an optional sign is returned exactly when its decimal value fits
  in 32 bits, the most negative value included; what follows the digits is ignored.
\<close>

theorem sqlite3GetInt32_correct:
  assumes "sqlite3Isdigit (head0 t)"
    and "t = zNum \<and> \<not> neg \<and> \<not> (head0 t = 0x30 \<and> (head0 (tl t) = 0x78 \<or> head0 (tl t) = 0x58)) \<or>
      zNum = 0x2b # t \<and> \<not> neg \<or> zNum = 0x2d # t \<and> neg"
    and "v = (if neg then - int (dec_from 0 (takeWhile sqlite3Isdigit t))
              else int (dec_from 0 (takeWhile sqlite3Isdigit t)))"
  shows "sqlite3GetInt32 zNum = (if - (2 ^ 31) \<le> v \<and> v < 2 ^ 31 then Some (word_of_int v) else None)"
  unfolding assms(3) by (rule sqlite3GetInt32_dec [OF assms(1,2)])

theorem sqlite3GetInt32_correct_witness:
  "sqlite3GetInt32 [0x2d, 0x32, 0x31, 0x34, 0x37, 0x34, 0x38, 0x33, 0x36, 0x34, 0x38] = Some 0x80000000"
  using sqlite3GetInt32_correct [of "[0x32, 0x31, 0x34, 0x37, 0x34, 0x38, 0x33, 0x36, 0x34, 0x38]"
      "[0x2d, 0x32, 0x31, 0x34, 0x37, 0x34, 0x38, 0x33, 0x36, 0x34, 0x38]" True "- 2147483648"]
  by (simp add: sqlite3Isdigit_iff)

text \<open>
  C31. Logarithmic estimates keep the leading four bits: for row counts below 2^61, converting to an
  estimate and back gives at most the count, and the loss is less than an eighth of the result; and
  adding two estimates is commutative and, where sixteen bits hold the sum, gives between the larger
  one and ten more.
\<close>

theorem logEst_roundtrip:
  assumes "1 \<le> unat x" "unat x < 2 ^ 61"
  shows "(\<exists>v. sqlite3LogEstToInt (sqlite3LogEst x) = Some v \<and> unat v \<le> unat x \<and> 8 * (unat x - unat v) < unat v) \<and>
    sqlite3LogEstAdd a b = sqlite3LogEstAdd b a \<and>
    (sint a < 32758 \<and> sint b < 32758 \<longrightarrow>
      max (sint a) (sint b) \<le> sint (sqlite3LogEstAdd a b) \<and> sint (sqlite3LogEstAdd a b) \<le> max (sint a) (sint b) + 10)"
  using sqlite3LogEst_roundtrip [OF assms] sqlite3LogEstAdd_bounds [of a b] sqlite3LogEstAdd_commute [of a b] by blast

theorem logEst_roundtrip_witness:
  "(\<exists>v. sqlite3LogEstToInt (sqlite3LogEst 1000) = Some v \<and> unat v \<le> 1000 \<and> 8 * (1000 - unat v) < unat v) \<and>
   50 \<le> sint (sqlite3LogEstAdd 40 50) \<and> sint (sqlite3LogEstAdd 40 50) \<le> 50 + 10"
proof -
  have *: "1 \<le> unat (1000 :: u64)" "unat (1000 :: u64) < 2 ^ 61" by simp_all
  have "max (sint (40 :: LogEst)) (sint (50 :: LogEst)) = 50" "sint (40 :: LogEst) < 32758" "sint (50 :: LogEst) < 32758"
    "unat (1000 :: u64) = 1000" by simp_all
  with logEst_roundtrip [OF *, of 40 50] show ?thesis by metis
qed

end
