(* ===== verification/Record_Format.thy ===== *)
theory Record_Format
  imports Varint
begin

text \<open>
  The record format of SQLite (vdbeaux.c and the \<open>OP_MakeRecord\<close> opcode of vdbe.c): the bytes
  of a row or of an index key. \<open>op_MakeRecord\<close> is the opcode after its affinity pass: a first
  loop from the last value to the first that chooses serial types and adds up sizes, then the
  allocation, then the loop that writes header and payload. \<open>sqlite3VdbeRecordUnpack\<close> reads a
  record back. A value is a \<open>mem_val\<close>: null with the no-change mark, an integer with the mark
  that it stands for a real, the bits of a double, a text, or a blob followed by a count of zero
  bytes. The registers' encodings, subtypes and destructors play no part here. Offsets are
  naturals: a key has fewer than \<open>2^31\<close> bytes and a value at most \<open>2^31\<close>, so the 32-bit sums of
  the source do not wrap.
\<close>

section \<open>Values and serial types\<close>

datatype mem_val =
    MNull bool
  | MInt u64 bool
  | MReal u64
  | MStr bytes
  | MBlob bytes nat

definition sqlite3SmallTypeSizes :: "nat list" where
  "sqlite3SmallTypeSizes =
    [0, 1, 2, 3, 4, 6, 8, 8, 0, 0, 0, 0, 0, 0, 1, 1,
     2, 2, 3, 3, 4, 4, 5, 5, 6, 6, 7, 7, 8, 8, 9, 9,
     10, 10, 11, 11, 12, 12, 13, 13, 14, 14, 15, 15, 16, 16, 17, 17,
     18, 18, 19, 19, 20, 20, 21, 21, 22, 22, 23, 23, 24, 24, 25, 25,
     26, 26, 27, 27, 28, 28, 29, 29, 30, 30, 31, 31, 32, 32, 33, 33,
     34, 34, 35, 35, 36, 36, 37, 37, 38, 38, 39, 39, 40, 40, 41, 41,
     42, 42, 43, 43, 44, 44, 45, 45, 46, 46, 47, 47, 48, 48, 49, 49,
     50, 50, 51, 51, 52, 52, 53, 53, 54, 54, 55, 55, 56, 56, 57, 57]"

definition sqlite3VdbeSerialTypeLen :: "u32 \<Rightarrow> nat" where
  "sqlite3VdbeSerialTypeLen serial_type =
     (if serial_type \<ge> 128 then unat ((serial_type - 12) div 2)
      else sqlite3SmallTypeSizes ! unat serial_type)"

definition IsNaN :: "u64 \<Rightarrow> bool" where
  "IsNaN x \<longleftrightarrow> x AND 0x7ff0000000000000 = 0x7ff0000000000000 \<and> x AND 0x000fffffffffffff \<noteq> 0"

section \<open>Writing a record\<close>

text \<open>\<open>(double)i\<close>: sign, exponent and the 52 bits after the leading one, rounded to
  nearest and to even on a tie.\<close>

fun floor_log2 :: "nat \<Rightarrow> nat" where
  "floor_log2 n = (if n < 2 then 0 else Suc (floor_log2 (n div 2)))"

declare floor_log2.simps [simp del]

definition i64_to_double :: "u64 \<Rightarrow> u64" where
  "i64_to_double i =
     (if i = 0 then 0
      else (let m = nat \<bar>sint i\<bar>; e = floor_log2 m;
                q = (if e \<le> 52 then m * 2 ^ (52 - e)
                     else (let s = 2 ^ (e - 52); q = m div s; r = m mod s
                           in if 2 * r > s \<or> 2 * r = s \<and> odd q then q + 1 else q))
            in (if sint i < 0 then 0x8000000000000000 else 0) + of_nat ((e + 1022) * 2 ^ 52 + q)))"

definition int_field :: "nat \<Rightarrow> u64 \<Rightarrow> bool \<Rightarrow> u32 \<times> nat \<times> mem_val" where
  "int_field fmt i intReal =
     (let uu = (if sint i < 0 then NOT i else i)
      in if uu \<le> 127 then
           (if i AND 1 = i \<and> fmt \<ge> 4 then (8 + ucast uu, 0, MInt i intReal) else (1, 1, MInt i intReal))
         else if uu \<le> 32767 then (2, 2, MInt i intReal)
         else if uu \<le> 8388607 then (3, 3, MInt i intReal)
         else if uu \<le> 2147483647 then (4, 4, MInt i intReal)
         else if uu \<le> 140737488355327 then (5, 6, MInt i intReal)
         else if intReal then (7, 8, MReal (i64_to_double i)) else (6, 8, MInt i intReal))"

record record_sizes =
  mrHdr :: nat
  mrData :: nat
  mrZero :: nat

definition record_field ::
  "nat \<Rightarrow> bool list \<Rightarrow> mem_val \<Rightarrow> record_sizes \<Rightarrow> ((u32 \<times> mem_val) \<times> record_sizes \<times> bool list) option"
where
  "record_field fmt mem v s =
     (case v of
        MNull nochange \<Rightarrow> Some ((if nochange then 10 else 0, v), s\<lparr>mrHdr := mrHdr s + 1\<rparr>, mem)
      | MInt i intReal \<Rightarrow>
          (case int_field fmt i intReal of
             (st, len, v) \<Rightarrow> Some ((st, v), s\<lparr>mrHdr := mrHdr s + 1, mrData := mrData s + len\<rparr>, mem))
      | MReal r \<Rightarrow> Some ((7, v), s\<lparr>mrHdr := mrHdr s + 1, mrData := mrData s + 8\<rparr>, mem)
      | MStr z \<Rightarrow>
          (let st = of_nat (length z) * 2 + 12 + 1
           in Some ((st, v), s\<lparr>mrHdr := mrHdr s + sqlite3VarintLen (ucast st), mrData := mrData s + length z\<rparr>, mem))
      | MBlob z nz \<Rightarrow>
          (let st = of_nat (length z) * 2 + 12 + of_nat nz * 2;
               s = s\<lparr>mrHdr := mrHdr s + sqlite3VarintLen (ucast st)\<rparr>
           in if nz > 0 \<and> mrData s \<noteq> 0
              then (case mallocs mem of
                      (False, mem) \<Rightarrow> None
                    | (True, mem) \<Rightarrow>
                        Some ((st, MBlob (z @ replicate nz 0) 0), s\<lparr>mrData := mrData s + length z + nz\<rparr>, mem))
              else Some ((st, v), s\<lparr>mrZero := mrZero s + nz, mrData := mrData s + length z\<rparr>, mem)))"

fun record_fields ::
  "nat \<Rightarrow> bool list \<Rightarrow> mem_val list \<Rightarrow> ((u32 \<times> mem_val) list \<times> record_sizes \<times> bool list) option"
where
  "record_fields fmt mem [] = Some ([], \<lparr>mrHdr = 0, mrData = 0, mrZero = 0\<rparr>, mem)"
| "record_fields fmt mem (v # vs) = do {
     (fs, s, mem) \<leftarrow> record_fields fmt mem vs;
     (f, s, mem) \<leftarrow> record_field fmt mem v s;
     Some (f # fs, s, mem) }"

definition record_header_size :: "nat \<Rightarrow> nat" where
  "record_header_size nHdr =
     (if nHdr \<le> 126 then nHdr + 1
      else (let nVarint = sqlite3VarintLen (of_nat nHdr); nHdr = nHdr + nVarint
            in if nVarint < sqlite3VarintLen (of_nat nHdr) then nHdr + 1 else nHdr))"

fun put_be :: "nat \<Rightarrow> u64 \<Rightarrow> bytes \<Rightarrow> bytes" where
  "put_be 0 v acc = acc"
| "put_be (Suc n) v acc = put_be n (drop_bit 8 v) (ucast (v AND 0xff) # acc)"

fun field_bytes :: "mem_val \<Rightarrow> bytes" where
  "field_bytes (MStr z) = z"
| "field_bytes (MBlob z nz) = z"
| "field_bytes v = []"

fun field_word :: "mem_val \<Rightarrow> u64" where
  "field_word (MReal r) = r"
| "field_word (MInt i r) = i"
| "field_word v = 0"

definition put_field :: "u32 \<times> mem_val \<Rightarrow> bytes \<times> bytes" where
  "put_field f =
     (case f of (serial_type, v) \<Rightarrow>
        if serial_type \<le> 7
        then ([ucast serial_type],
              if serial_type = 0 then [] else put_be (sqlite3SmallTypeSizes ! unat serial_type) (field_word v) [])
        else if serial_type < 0x80
        then ([ucast serial_type], if serial_type \<ge> 14 then field_bytes v else [])
        else (sqlite3PutVarint (ucast serial_type), field_bytes v))"

datatype make_record = MakeOk bytes nat | MakeTooBig | MakeNoMem

definition op_MakeRecord :: "nat \<Rightarrow> nat \<Rightarrow> nat \<Rightarrow> bool list \<Rightarrow> mem_val list \<Rightarrow> make_record" where
  "op_MakeRecord fmt szMalloc limit mem vs =
     (case record_fields fmt mem vs of
        None \<Rightarrow> MakeNoMem
      | Some (fs, s, mem) \<Rightarrow>
          (let nHdr = record_header_size (mrHdr s); nByte = nHdr + mrData s;
               out = MakeOk ((if nHdr < 0x80 then [of_nat nHdr] else sqlite3PutVarint (of_nat nHdr)) @
                             concat (map (fst \<circ> put_field) fs) @ concat (map (snd \<circ> put_field) fs)) (mrZero s)
           in if nByte + mrZero s \<le> szMalloc then out
              else if nByte + mrZero s > limit then MakeTooBig
              else if \<not> fst (mallocs mem) then MakeNoMem
              else out))"

section \<open>Reading a record\<close>

definition ONE_BYTE_INT :: "bytes \<Rightarrow> u64" where
  "ONE_BYTE_INT x = scast (x ! 0)"

definition TWO_BYTE_INT :: "bytes \<Rightarrow> u64" where
  "TWO_BYTE_INT x = 256 * scast (x ! 0) OR ucast (x ! 1)"

definition THREE_BYTE_INT :: "bytes \<Rightarrow> u64" where
  "THREE_BYTE_INT x = 65536 * scast (x ! 0) OR push_bit 8 (ucast (x ! 1)) OR ucast (x ! 2)"

definition FOUR_BYTE_UINT :: "bytes \<Rightarrow> u32" where
  "FOUR_BYTE_UINT x = push_bit 24 (ucast (x ! 0)) OR push_bit 16 (ucast (x ! 1)) OR push_bit 8 (ucast (x ! 2)) OR
     ucast (x ! 3)"

definition FOUR_BYTE_INT :: "bytes \<Rightarrow> u64" where
  "FOUR_BYTE_INT x = 16777216 * scast (x ! 0) OR push_bit 16 (ucast (x ! 1)) OR push_bit 8 (ucast (x ! 2)) OR
     ucast (x ! 3)"

definition serialGet :: "bytes \<Rightarrow> u32 \<Rightarrow> mem_val" where
  "serialGet buf serial_type =
     (let x = ucast (FOUR_BYTE_UINT buf); y = FOUR_BYTE_UINT (drop 4 buf); x = push_bit 32 x + ucast y
      in if serial_type = 6 then MInt x False
         else if IsNaN x then MNull False else MReal x)"

definition serialGet7 :: "bytes \<Rightarrow> mem_val \<times> bool" where
  "serialGet7 buf =
     (let x = ucast (FOUR_BYTE_UINT buf); y = FOUR_BYTE_UINT (drop 4 buf); x = push_bit 32 x + ucast y
      in if IsNaN x then (MNull False, True) else (MReal x, False))"

definition sqlite3VdbeSerialGet :: "bytes \<Rightarrow> u32 \<Rightarrow> mem_val option" where
  "sqlite3VdbeSerialGet buf serial_type =
     (if serial_type < 12 \<and> length buf < sqlite3SmallTypeSizes ! unat serial_type then None
      else if serial_type = 10 then Some (MNull True)
      else if serial_type = 11 \<or> serial_type = 0 then Some (MNull False)
      else if serial_type = 1 then Some (MInt (ONE_BYTE_INT buf) False)
      else if serial_type = 2 then Some (MInt (TWO_BYTE_INT buf) False)
      else if serial_type = 3 then Some (MInt (THREE_BYTE_INT buf) False)
      else if serial_type = 4 then Some (MInt (FOUR_BYTE_INT buf) False)
      else if serial_type = 5
      then Some (MInt (ucast (FOUR_BYTE_UINT (drop 2 buf)) + push_bit 32 1 * TWO_BYTE_INT buf) False)
      else if serial_type = 6 \<or> serial_type = 7 then Some (serialGet buf serial_type)
      else if serial_type = 8 \<or> serial_type = 9 then Some (MInt (ucast (serial_type - 8)) False)
      else (let z = take (unat ((serial_type - 12) div 2)) buf
            in Some (if serial_type AND 1 = 0 then MBlob z 0 else MStr z)))"

text \<open>The loop of \<open>sqlite3VdbeRecordUnpack\<close>: \<open>idx\<close> and \<open>d\<close> are the offsets of
  the next serial type and of the next value; the result is the values, in order, and the final
  \<open>d\<close>. A read outside the buffer is \<open>None\<close>.\<close>

function recordUnpack_loop :: "bytes \<Rightarrow> nat \<Rightarrow> nat \<Rightarrow> nat \<Rightarrow> nat \<Rightarrow> nat \<Rightarrow> (mem_val list \<times> nat) option" where
  "recordUnpack_loop aKey nKey szHdr nField idx d =
     (if idx < szHdr \<and> d \<le> nKey
      then (case getVarint32 (drop idx aKey) of
              None \<Rightarrow> None
            | Some (serial_type, n) \<Rightarrow>
                (case sqlite3VdbeSerialGet (drop d aKey) serial_type of
                   None \<Rightarrow> None
                 | Some v \<Rightarrow>
                     (let d = d + sqlite3VdbeSerialTypeLen serial_type
                      in if nField \<le> 1 then Some ([v], d)
                         else map_option (map_prod ((#) v) id)
                                (recordUnpack_loop aKey nKey szHdr (nField - 1) (idx + n) d))))
      else Some ([], d))"
  by pat_completeness auto
termination
  by (relation "measure (\<lambda>(aKey, nKey, szHdr, nField, idx, d). szHdr - idx)")
     (auto dest: getVarint32_pos)

declare recordUnpack_loop.simps [simp del]

definition sqlite3VdbeRecordUnpack :: "nat \<Rightarrow> bytes \<Rightarrow> nat \<Rightarrow> mem_val list option" where
  "sqlite3VdbeRecordUnpack nKey aKey nField = do {
     (szHdr, idx) \<leftarrow> getVarint32 aKey;
     (vs, d) \<leftarrow> recordUnpack_loop aKey nKey (unat szHdr) nField idx (unat szHdr);
     Some (if d > nKey \<and> vs \<noteq> [] then butlast vs @ [MNull False] else vs) }"

section \<open>Integers\<close>

lemma mod256_take_bit: "(v :: u64) AND 0xff = take_bit 8 v"
  by (simp add: take_bit_eq_mask mask_eq_exp_minus_1)

lemma ucast_byte: "(ucast (v AND 0xff :: u64) :: u8) = ucast v"
  unfolding mod256_take_bit by (rule bit_word_eqI) (auto simp: bit_simps)

lemma put_be_1: "put_be 1 v [] = [ucast v]"
  by (simp add: ucast_byte)

lemma put_be_2: "put_be 2 v [] = [ucast (drop_bit 8 v), ucast v]"
  by (simp add: eval_nat_numeral ucast_byte)

lemma put_be_3: "put_be 3 v [] = [ucast (drop_bit 16 v), ucast (drop_bit 8 v), ucast v]"
  by (simp add: eval_nat_numeral ucast_byte)

lemma put_be_4: "put_be 4 v [] = [ucast (drop_bit 24 v), ucast (drop_bit 16 v), ucast (drop_bit 8 v), ucast v]"
  by (simp add: eval_nat_numeral ucast_byte)

lemma length_put_be: "length (put_be n v acc) = n + length acc"
  by (induction n arbitrary: v acc) auto

text \<open>The bits from position \<open>k\<close> on are copies of the sign.\<close>

definition sext :: "nat \<Rightarrow> u64 \<Rightarrow> bool" where
  "sext k v \<longleftrightarrow> (\<forall>j. k \<le> j \<and> j < 64 \<longrightarrow> bit v j = bit v 63)"

lemma sext_uu:
  assumes "(if sint v < 0 then NOT v else v) \<le> mask k"
  shows "sext k v"
proof -
  have high: "\<not> bit w j" if "w \<le> mask k" "k \<le> j" for w :: u64 and j
  proof -
    have "uint w \<le> uint (mask k :: u64)" using that(1) by (simp add: word_le_def)
    also have "uint (mask k :: u64) = mask (min 64 k)" by (simp add: uint_mask_eq)
    also have "\<dots> < 2 ^ min 64 k" by (simp add: mask_eq_exp_minus_1)
    also have "(2 :: int) ^ min 64 k \<le> 2 ^ k" by (rule power_increasing) auto
    finally have "uint w < 2 ^ k" .
    then have "w AND mask k = w" by (simp add: mask_eq_iff)
    then show ?thesis using that(2) by (metis bit_take_bit_iff not_less take_bit_eq_mask)
  qed
  have s: "bit v 63 \<longleftrightarrow> sint v < 0" using bit_last_iff [of v] by simp
  show ?thesis unfolding sext_def
  proof (intro allI impI, elim conjE)
    fix j assume j: "k \<le> j" "j < 64"
    show "bit v j = bit v 63"
    proof (cases "sint v < 0")
      case True
      with assms have "NOT v \<le> mask k" by simp
      from high [OF this j(1)] j(2) True s show ?thesis by (simp add: bit_not_iff)
    next
      case False
      with assms have "v \<le> mask k" by simp
      from high [OF this j(1)] False s show ?thesis by simp
    qed
  qed
qed

lemma sextD:
  assumes "sext k v" "k < 64"
  shows "bit v k = bit v 63" "k \<le> n \<Longrightarrow> n < 64 \<Longrightarrow> bit v n = bit v 63"
  using assms unfolding sext_def by blast+

lemma times_push_bit: "256 * w = push_bit 8 w" "65536 * w = push_bit 16 w" "16777216 * w = push_bit 24 w" for w :: u64
  by (simp_all add: push_bit_eq_mult)

lemma ONE_BYTE_sext: "sext 7 v \<Longrightarrow> ONE_BYTE_INT (put_be 1 v [] @ r) = v"
proof (rule bit_word_eqI)
  fix n assume v: "sext 7 v" and n: "n < LENGTH(64)"
  note d = sextD [OF v]
  show "bit (ONE_BYTE_INT (put_be 1 v [] @ r)) n = bit v n"
    unfolding put_be_1 ONE_BYTE_INT_def using d(1) d(2) [of n] n by (auto simp: bit_simps min_def)
qed

lemma TWO_BYTE_sext: "sext 15 v \<Longrightarrow> TWO_BYTE_INT (put_be 2 v [] @ r) = v"
proof (rule bit_word_eqI)
  fix n assume v: "sext 15 v" and n: "n < LENGTH(64)"
  note d = sextD [OF v]
  show "bit (TWO_BYTE_INT (put_be 2 v [] @ r)) n = bit v n"
    unfolding put_be_2 TWO_BYTE_INT_def times_push_bit
    using d(1) d(2) [of n] n by (auto simp: bit_simps min_def)
qed

lemma THREE_BYTE_sext: "sext 23 v \<Longrightarrow> THREE_BYTE_INT (put_be 3 v [] @ r) = v"
proof (rule bit_word_eqI)
  fix n assume v: "sext 23 v" and n: "n < LENGTH(64)"
  note d = sextD [OF v]
  show "bit (THREE_BYTE_INT (put_be 3 v [] @ r)) n = bit v n"
    unfolding put_be_3 THREE_BYTE_INT_def times_push_bit
    using d(1) d(2) [of n] n by (cases "n < 8"; cases "n < 16") (auto simp: bit_simps min_def)
qed

lemma FOUR_BYTE_sext: "sext 31 v \<Longrightarrow> FOUR_BYTE_INT (put_be 4 v [] @ r) = v"
proof (rule bit_word_eqI)
  fix n assume v: "sext 31 v" and n: "n < LENGTH(64)"
  note d = sextD [OF v]
  show "bit (FOUR_BYTE_INT (put_be 4 v [] @ r)) n = bit v n"
    unfolding put_be_4 FOUR_BYTE_INT_def times_push_bit
    using d(1) d(2) [of n] n by (cases "n < 8"; cases "n < 16"; cases "n < 24") (auto simp: bit_simps min_def)
qed

lemma put_be_split: "put_be (m + n) v acc = put_be m (drop_bit (8 * n) v) (put_be n v acc)"
  by (induction n arbitrary: v acc) (auto simp: drop_bit_drop_bit add.commute)

lemma put_be_append: "put_be n v acc = put_be n v [] @ acc"
proof (induction n arbitrary: v acc)
  case (Suc n)
  show ?case using Suc [of "drop_bit 8 v" "ucast (v AND 0xff) # acc"] Suc [of "drop_bit 8 v" "[ucast (v AND 0xff)]"] by simp
qed simp

lemma FOUR_BYTE_UINT_put_be: "FOUR_BYTE_UINT (put_be 4 v [] @ r) = ucast v"
  unfolding put_be_4 FOUR_BYTE_UINT_def
  by (rule u32_bitI) (simp add: bit_simps)

lemma SIX_BYTE_sext:
  assumes "sext 47 v"
  shows "ucast (FOUR_BYTE_UINT (drop 2 (put_be 6 v [] @ r))) + push_bit 32 1 * TWO_BYTE_INT (put_be 6 v [] @ r) = v"
proof -
  let ?w = "drop_bit 32 v"
  have p: "put_be 6 v [] = put_be 2 ?w [] @ put_be 4 v []"
    using put_be_split [of 2 4 v "[]"] put_be_append [of 2 ?w "put_be 4 v []"] by simp
  have "length (put_be 2 ?w []) = 2" by (simp add: length_put_be)
  then have "drop 2 (put_be 6 v [] @ r) = put_be 4 v [] @ r" unfolding p by simp
  then have lo: "FOUR_BYTE_UINT (drop 2 (put_be 6 v [] @ r)) = ucast v" by (simp only: FOUR_BYTE_UINT_put_be)
  have hi: "push_bit 32 1 * TWO_BYTE_INT (put_be 6 v [] @ r) = push_bit 32 (TWO_BYTE_INT (put_be 6 v [] @ r))"
    by (simp add: push_bit_eq_mult)
  have "ucast (ucast v :: u32) + push_bit 32 (TWO_BYTE_INT (put_be 6 v [] @ r)) =
    ucast (ucast v :: u32) OR push_bit 32 (TWO_BYTE_INT (put_be 6 v [] @ r))"
    by (rule disjunctive_add) (auto simp: bit_simps)
  also have "\<dots> = v"
  proof (rule bit_word_eqI)
    fix n assume n: "n < LENGTH(64)"
    note d = sextD [OF assms]
    show "bit (ucast (ucast v :: u32) OR push_bit 32 (TWO_BYTE_INT (put_be 6 v [] @ r))) n = bit v n"
      unfolding p append_assoc put_be_2 TWO_BYTE_INT_def times_push_bit
      using d(1) d(2) [of n] n by (cases "n < 32"; cases "n < 40") (auto simp: bit_simps min_def)
  qed
  finally show ?thesis unfolding lo hi .
qed

lemma EIGHT_BYTE:
  "push_bit 32 (ucast (FOUR_BYTE_UINT (put_be 8 v [] @ r))) + ucast (FOUR_BYTE_UINT (drop 4 (put_be 8 v [] @ r))) = v"
proof -
  let ?w = "drop_bit 32 v"
  have p: "put_be 8 v [] = put_be 4 ?w [] @ put_be 4 v []"
    using put_be_split [of 4 4 v "[]"] put_be_append [of 4 ?w "put_be 4 v []"] by simp
  have "length (put_be 4 ?w []) = 4" by (simp add: length_put_be)
  then have "drop 4 (put_be 8 v [] @ r) = put_be 4 v [] @ r" unfolding p by simp
  then have lo: "FOUR_BYTE_UINT (drop 4 (put_be 8 v [] @ r)) = ucast v" by (simp only: FOUR_BYTE_UINT_put_be)
  have hi: "FOUR_BYTE_UINT (put_be 8 v [] @ r) = ucast ?w" unfolding p append_assoc by (rule FOUR_BYTE_UINT_put_be)
  have "push_bit 32 (ucast (ucast ?w :: u32)) + ucast (ucast v :: u32) =
    push_bit 32 (ucast (ucast ?w :: u32)) OR ucast (ucast v :: u32)"
    by (rule disjunctive_add) (auto simp: bit_simps)
  also have "\<dots> = v" by (rule u64_bitI) (simp add: bit_simps)
  finally show ?thesis unfolding lo hi .
qed

section \<open>One field\<close>

text \<open>What reading back a field gives: a double that is not a number comes back as null, an
  integer kept as a real too big for six bytes comes back as a real, and zeros kept as a count are
  ordinary bytes.\<close>

definition norm_real :: "u64 \<Rightarrow> mem_val" where
  "norm_real r = (if IsNaN r then MNull False else MReal r)"

definition big_int :: "u64 \<Rightarrow> bool" where
  "big_int i \<longleftrightarrow> sint i < - (2 ^ 47) \<or> 2 ^ 47 \<le> sint i"

fun record_norm :: "mem_val \<Rightarrow> mem_val" where
  "record_norm (MNull b) = MNull b"
| "record_norm (MInt i intReal) = (if intReal \<and> big_int i then norm_real (i64_to_double i) else MInt i False)"
| "record_norm (MReal r) = norm_real r"
| "record_norm (MStr z) = MStr z"
| "record_norm (MBlob z nz) = MBlob (z @ replicate nz 0) 0"

fun field_zeros :: "mem_val \<Rightarrow> nat" where
  "field_zeros (MBlob z nz) = nz"
| "field_zeros v = 0"

fun val_size :: "mem_val \<Rightarrow> nat" where
  "val_size (MStr z) = length z"
| "val_size (MBlob z nz) = length z + nz"
| "val_size v = 0"

definition field_data :: "u32 \<times> mem_val \<Rightarrow> bytes" where
  "field_data f = snd (put_field f) @ replicate (field_zeros (snd f)) 0"

lemma sizes_eval:
  "sqlite3SmallTypeSizes ! 0 = 0" "sqlite3SmallTypeSizes ! Suc 0 = 1" "sqlite3SmallTypeSizes ! 2 = 2"
  "sqlite3SmallTypeSizes ! 3 = 3" "sqlite3SmallTypeSizes ! 4 = 4" "sqlite3SmallTypeSizes ! 5 = 6"
  "sqlite3SmallTypeSizes ! 6 = 8" "sqlite3SmallTypeSizes ! 7 = 8" "sqlite3SmallTypeSizes ! 8 = 0"
  "sqlite3SmallTypeSizes ! 9 = 0" "sqlite3SmallTypeSizes ! 10 = 0" "sqlite3SmallTypeSizes ! 11 = 0"
  by (simp_all add: sqlite3SmallTypeSizes_def)

lemma SmallTypeSizes_blob: "12 \<le> n \<Longrightarrow> n < 128 \<Longrightarrow> sqlite3SmallTypeSizes ! n = (n - 12) div 2"
proof -
  have "list_all (\<lambda>n. sqlite3SmallTypeSizes ! n = (n - 12) div 2) [12..<128]" by code_simp
  then show "12 \<le> n \<Longrightarrow> n < 128 \<Longrightarrow> sqlite3SmallTypeSizes ! n = (n - 12) div 2"
    unfolding list_all_iff by (metis atLeastLessThan_iff set_upt)
qed

text \<open>A field with its type, its bytes in the record and what is read back.\<close>

definition field_ok :: "u32 \<Rightarrow> mem_val \<Rightarrow> mem_val \<Rightarrow> bool" where
  "field_ok st v w \<longleftrightarrow>
     fst (put_field (st, v)) = sqlite3PutVarint (ucast st) \<and>
     length (field_data (st, v)) = sqlite3VdbeSerialTypeLen st \<and>
     (\<forall>r. sqlite3VdbeSerialGet (field_data (st, v) @ r) st = Some w)"

lemma PutVarint_type: "st < 0x80 \<Longrightarrow> sqlite3PutVarint (ucast (st :: u32)) = [ucast st]"
proof -
  assume st: "st < 0x80"
  then have "unat (ucast st :: u64) < 128"
    by (simp add: word_less_nat_alt unsigned_ucast_eq take_bit_nat_eq_self)
  moreover have "ucast (ucast st :: u64) = (ucast st :: u8)" by (rule bit_word_eqI) (auto simp: bit_simps)
  ultimately show ?thesis by (simp add: PutVarint_7bit)
qed


lemma PutVarint_small_types:
  "sqlite3PutVarint 0 = [0]" "sqlite3PutVarint 1 = [1]" "sqlite3PutVarint 2 = [2]" "sqlite3PutVarint 3 = [3]"
  "sqlite3PutVarint 4 = [4]" "sqlite3PutVarint 5 = [5]" "sqlite3PutVarint 6 = [6]" "sqlite3PutVarint 7 = [7]"
  "sqlite3PutVarint 8 = [8]" "sqlite3PutVarint 9 = [9]" "sqlite3PutVarint 10 = [10]"
  by (simp_all add: PutVarint_7bit)

lemmas field_ok_simps = field_ok_def put_field_def field_data_def PutVarint_small_types
  sqlite3VdbeSerialTypeLen_def sqlite3VdbeSerialGet_def sizes_eval length_put_be

lemma field_ok_null: "field_ok 0 (MNull False) (MNull False)" "field_ok 10 (MNull True) (MNull True)"
  by (simp_all add: field_ok_simps)

lemma field_ok_8:
  "field_ok 7 (MReal r) (norm_real r)" "field_ok 6 (MInt i b) (MInt i False)"
  using EIGHT_BYTE [of r] EIGHT_BYTE [of i]
  by (simp_all add: field_ok_simps serialGet_def Let_def norm_real_def del: drop_append)

lemma field_ok_int:
  "field_ok 8 (MInt 0 b) (MInt 0 False)" "field_ok 9 (MInt 1 b) (MInt 1 False)"
  "sext 7 i \<Longrightarrow> field_ok 1 (MInt i b) (MInt i False)"
  "sext 15 i \<Longrightarrow> field_ok 2 (MInt i b) (MInt i False)"
  "sext 23 i \<Longrightarrow> field_ok 3 (MInt i b) (MInt i False)"
  "sext 31 i \<Longrightarrow> field_ok 4 (MInt i b) (MInt i False)"
  using ONE_BYTE_sext [of i] TWO_BYTE_sext [of i] THREE_BYTE_sext [of i] FOUR_BYTE_sext [of i]
  by (simp_all add: field_ok_simps word_le_nat_alt del: put_be.simps)

lemma field_ok_int5: "sext 47 i \<Longrightarrow> field_ok 5 (MInt i b) (MInt i False)"
  using SIX_BYTE_sext [of i] by (simp add: field_ok_simps del: put_be.simps drop_append push_bit_of_1)

lemma and_1_cases: "i AND 1 = i \<Longrightarrow> i = 0 \<or> i = 1" for i :: u64
  by (metis and_one_eq even_iff_mod_2_eq_zero odd_iff_mod_2_eq_one)

lemma masks: "mask 7 = (127 :: u64)" "mask 15 = (32767 :: u64)" "mask 23 = (8388607 :: u64)"
  "mask 31 = (2147483647 :: u64)" "mask 47 = (140737488355327 :: u64)"
  by (simp_all add: mask_eq_exp_minus_1)

lemma sint_u64: "sint i = uint i - (if sint i < 0 then 2 ^ 64 else 0)" for i :: u64
proof -
  have "sint i = signed_take_bit 63 (uint i)" by (simp add: sint_uint)
  also have "\<dots> = take_bit 64 (uint i) - 2 ^ 64 * of_bool (bit (uint i) 63)"
    by (simp add: signed_take_bit_eq_take_bit_minus)
  also have "take_bit 64 (uint i) = uint i" using uint_lt2p [of i] by (simp add: take_bit_eq_mod)
  finally have eq: "sint i = uint i - 2 ^ 64 * of_bool (bit (uint i) 63)" .
  have s: "sint i < 0 \<longleftrightarrow> bit (uint i) 63" using bit_last_iff [of i] by (simp add: bit_unsigned_iff)
  show ?thesis unfolding s using eq by (cases "bit (uint i) 63") simp_all
qed

lemma uint_not: "uint (NOT i) = 2 ^ 64 - 1 - uint i" for i :: u64
proof -
  have "uint (NOT i) = take_bit 64 (NOT (uint i))" by (simp add: unsigned_not_eq)
  also have "\<dots> = (- uint i - 1) mod 2 ^ 64" by (simp add: not_int_def take_bit_eq_mod)
  also have "\<dots> = (2 ^ 64 - 1 - uint i) mod 2 ^ 64" by (smt (verit) mod_add_self1)
  also have "\<dots> = 2 ^ 64 - 1 - uint i" proof (rule mod_pos_pos_trivial)
    have "uint i < 2 ^ 64" using uint_lt2p [of i] by simp
    then show "0 \<le> 2 ^ 64 - 1 - uint i" by linarith
    show "2 ^ 64 - 1 - uint i < 2 ^ 64" using uint_ge_0 [of i] by linarith
  qed
  finally show ?thesis .
qed

lemma uu_le: "(127 :: u64) \<le> 140737488355327" "(32767 :: u64) \<le> 140737488355327"
  "(8388607 :: u64) \<le> 140737488355327" "(2147483647 :: u64) \<le> 140737488355327"
  by (simp_all add: word_le_nat_alt)

lemma big_int_uu: "big_int i \<longleftrightarrow> \<not> (if sint i < 0 then NOT i else i) \<le> 140737488355327"
  using sint_u64 [of i] by (auto simp: big_int_def word_le_def uint_not)

lemma not_big_int: "(if sint i < 0 then NOT i else i) \<le> c \<Longrightarrow> c \<le> 140737488355327 \<Longrightarrow> \<not> big_int i"
  unfolding big_int_uu by (meson order_trans)

lemma int_field_ok:
  assumes "int_field fmt i b = (st, len, v)"
  shows "field_ok st v (record_norm (MInt i b)) \<and> field_zeros v = 0 \<and> sqlite3VdbeSerialTypeLen st = len \<and>
    sqlite3VarintLen (ucast st) = 1"
proof -
  let ?uu = "if sint i < 0 then NOT i else i"
  note [simp] = VarintLen_small PutVarint_small_types sqlite3VdbeSerialTypeLen_def sizes_eval int_field_def Let_def
  consider (c01) "?uu \<le> 127" "i AND 1 = i" "fmt \<ge> 4" | (c1) "?uu \<le> 127" "\<not> (i AND 1 = i \<and> fmt \<ge> 4)"
    | (c2) "\<not> ?uu \<le> 127" "?uu \<le> 32767" | (c3) "\<not> ?uu \<le> 127" "\<not> ?uu \<le> 32767" "?uu \<le> 8388607"
    | (c4) "\<not> ?uu \<le> 127" "\<not> ?uu \<le> 32767" "\<not> ?uu \<le> 8388607" "?uu \<le> 2147483647"
    | (c5) "\<not> ?uu \<le> 127" "\<not> ?uu \<le> 32767" "\<not> ?uu \<le> 8388607" "\<not> ?uu \<le> 2147483647" "?uu \<le> 140737488355327"
    | (c6) "\<not> ?uu \<le> 127" "\<not> ?uu \<le> 32767" "\<not> ?uu \<le> 8388607" "\<not> ?uu \<le> 2147483647" "\<not> ?uu \<le> 140737488355327"
    by blast
  then show ?thesis
  proof cases
    case c01
    then have "i = 0 \<or> i = 1" using and_1_cases by blast
    with c01 assms show ?thesis by (auto simp: field_ok_int big_int_def)
  next
    case c1
    then have "sext 7 i" "\<not> big_int i" using sext_uu [of i 7] not_big_int [OF _ uu_le(1)] unfolding masks by blast+
    moreover have "(st, len, v) = (1, 1, MInt i b)" using c1 assms unfolding int_field_def Let_def by (auto split: if_splits)
    ultimately show ?thesis by (simp add: field_ok_int word_le_nat_alt)
  next
    case c2
    then have "sext 15 i" "\<not> big_int i" using sext_uu [of i 15] not_big_int [OF _ uu_le(2)] unfolding masks by blast+
    moreover have "(st, len, v) = (2, 2, MInt i b)" using c2 assms unfolding int_field_def Let_def by simp
    ultimately show ?thesis by (simp add: field_ok_int)
  next
    case c3
    then have "sext 23 i" "\<not> big_int i" using sext_uu [of i 23] not_big_int [OF _ uu_le(3)] unfolding masks by blast+
    moreover have "(st, len, v) = (3, 3, MInt i b)" using c3 assms unfolding int_field_def Let_def by simp
    ultimately show ?thesis by (simp add: field_ok_int)
  next
    case c4
    then have "sext 31 i" "\<not> big_int i" using sext_uu [of i 31] not_big_int [OF _ uu_le(4)] unfolding masks by blast+
    moreover have "(st, len, v) = (4, 4, MInt i b)" using c4 assms unfolding int_field_def Let_def by simp
    ultimately show ?thesis by (simp add: field_ok_int)
  next
    case c5
    then have "sext 47 i" "\<not> big_int i" using sext_uu [of i 47] unfolding masks big_int_uu by blast+
    moreover have "(st, len, v) = (5, 6, MInt i b)" using c5 assms unfolding int_field_def Let_def by simp
    ultimately show ?thesis by (simp add: field_ok_int5)
  next
    case c6
    then have "big_int i" unfolding big_int_uu by simp
    moreover have "(st, len, v) = (if b then (7, 8, MReal (i64_to_double i)) else (6, 8, MInt i b))"
      using c6 assms unfolding int_field_def Let_def by simp
    ultimately show ?thesis by (auto simp: field_ok_8 split: if_splits)
  qed
qed

text \<open>Strings and blobs.\<close>

lemma unat_type: "k < 2 ^ 31 \<Longrightarrow> unat (of_nat k :: u32) = k"
  by (simp add: unsigned_of_nat take_bit_nat_eq_self)

lemma blob_type:
  assumes "k < 2 ^ 31" "12 \<le> k"
  shows "unat ((of_nat k - 12 :: u32) div 2) = (k - 12) div 2"
    "sqlite3VdbeSerialTypeLen (of_nat k) = (k - 12) div 2"
    "(of_nat k :: u32) AND 1 = 0 \<longleftrightarrow> even k"
proof -
  have "(of_nat k - 12 :: u32) = of_nat (k - 12)" using assms(2) by (simp add: of_nat_diff)
  then show d: "unat ((of_nat k - 12 :: u32) div 2) = (k - 12) div 2"
    using assms unat_type [of "k - 12"] by (simp add: unat_div)
  show "sqlite3VdbeSerialTypeLen (of_nat k) = (k - 12) div 2"
    using assms SmallTypeSizes_blob [of k]
    by (auto simp: sqlite3VdbeSerialTypeLen_def d unat_type word_le_nat_alt not_le)
  have "unat ((of_nat k :: u32) AND 1) = k AND 1" by (simp add: unsigned_and_eq unat_type [OF assms(1)])
  then show "(of_nat k :: u32) AND 1 = 0 \<longleftrightarrow> even k"
    by (metis and_one_eq even_iff_mod_2_eq_zero unat_0 unat_eq_zero)
qed

lemma field_ok_blob_aux:
  assumes k: "k < 2 ^ 31" "12 \<le> k" and z: "length z + nz = (k - 12) div 2"
    and v: "v = (if even k then MBlob z nz else MStr z)" "odd k \<Longrightarrow> nz = 0"
  shows "field_ok (of_nat k) v (if even k then MBlob (z @ replicate nz 0) 0 else MStr z)"
proof -
  let ?st = "of_nat k :: u32"
  have u: "unat ?st = k" using k by (simp add: unat_type)
  have st: "\<not> ?st \<le> 7" "?st < 0x80 \<longleftrightarrow> k < 128" "?st \<ge> 14 \<longleftrightarrow> k \<ge> 14" "\<not> ?st < 12"
    "?st \<noteq> 0" "?st \<noteq> 1" "?st \<noteq> 2" "?st \<noteq> 3" "?st \<noteq> 4" "?st \<noteq> 5" "?st \<noteq> 6" "?st \<noteq> 7" "?st \<noteq> 8"
    "?st \<noteq> 9" "?st \<noteq> 10" "?st \<noteq> 11"
    using k u by (auto simp: word_le_nat_alt word_less_nat_alt)
  have fb: "field_bytes v = z" using v by simp
  have fz: "field_zeros v = nz" using v by (cases "even k") auto
  have data: "field_data (?st, v) = z @ replicate nz 0"
    using z by (auto simp: field_data_def put_field_def st fb fz)
  have "fst (put_field (?st, v)) = sqlite3PutVarint (ucast ?st)"
    using PutVarint_type [of ?st] by (auto simp: put_field_def st)
  moreover have "length (field_data (?st, v)) = sqlite3VdbeSerialTypeLen ?st"
    using z by (simp add: data blob_type(2) [OF k])
  moreover have "sqlite3VdbeSerialGet (field_data (?st, v) @ r) ?st =
    Some (if even k then MBlob (z @ replicate nz 0) 0 else MStr z)" for r
    using v(2) z by (auto simp: sqlite3VdbeSerialGet_def data st blob_type(1,3) [OF k])
  ultimately show ?thesis unfolding field_ok_def by blast
qed

lemma VarintLen_type: "sqlite3VarintLen (ucast (st :: u32)) = length (sqlite3PutVarint (ucast st))"
proof -
  have "unat st < 2 ^ 32" using unsigned_less [of st] by simp
  then show ?thesis by (intro VarintLen_small) (simp add: unsigned_ucast_eq take_bit_nat_eq_self)
qed

text \<open>One step of the first loop.\<close>

lemma record_field_ok:
  assumes "record_field fmt mem v s = Some ((st, w), t, mem')" and "val_size v < 2 ^ 30 - 10"
  shows "field_ok st w (record_norm v) \<and>
    mrHdr t = mrHdr s + length (sqlite3PutVarint (ucast st)) \<and>
    mrData t + mrZero t = mrData s + mrZero s + sqlite3VdbeSerialTypeLen st \<and>
    mrZero t = field_zeros w + mrZero s \<and>
    (field_zeros w > 0 \<longrightarrow> mrData s = 0)"
proof (cases v)
  case (MNull nochange)
  then show ?thesis using assms
    by (cases nochange)
      (auto simp: record_field_def field_ok_null PutVarint_small_types sqlite3VdbeSerialTypeLen_def sizes_eval word_le_nat_alt)
next
  case (MInt i b)
  obtain st' len w' where f: "int_field fmt i b = (st', len, w')" by (cases "int_field fmt i b") auto
  from int_field_ok [OF f] MInt f assms(1) show ?thesis
    by (auto simp: record_field_def VarintLen_type)
next
  case (MReal r)
  then show ?thesis using assms
    by (auto simp: record_field_def field_ok_8 PutVarint_small_types sqlite3VdbeSerialTypeLen_def sizes_eval)
next
  case (MStr z)
  let ?k = "2 * length z + 13"
  have e: "(of_nat (length z) * 2 + 12 + 1 :: u32) = of_nat ?k" by simp
  have "?k < 2 ^ 31" "12 \<le> ?k" using assms(2) MStr by simp_all
  then show ?thesis
    using assms(1) MStr field_ok_blob_aux [of ?k z 0 w] blob_type(2) [of ?k]
    by (auto simp: record_field_def Let_def e VarintLen_type simp del: of_nat_add of_nat_mult)
next
  case (MBlob z nz)
  let ?k = "2 * (length z + nz) + 12"
  have e: "(of_nat (length z) * 2 + 12 + of_nat nz * 2 :: u32) = of_nat ?k" by simp
  have k: "?k < 2 ^ 31" "12 \<le> ?k" using assms(2) MBlob by simp_all
  note b = field_ok_blob_aux [OF k] blob_type(2) [OF k]
  show ?thesis
  proof (cases "nz > 0 \<and> mrData s \<noteq> 0")
    case True
    then show ?thesis
      using assms(1) MBlob b(1) [of "z @ replicate nz 0" 0 w] b(2)
      by (cases "mallocs mem") (auto simp: record_field_def Let_def e VarintLen_type simp del: of_nat_add of_nat_mult split: bool.splits)
  next
    case False
    have e0: "nz = 0 \<Longrightarrow> (of_nat (length z) * 2 + 12 :: u32) = of_nat ?k" by simp
    from False show ?thesis
      using assms(1) MBlob b(1) [of z nz w] b(2) e0
      by (cases "nz = 0") (auto simp: record_field_def Let_def e VarintLen_type simp del: of_nat_add of_nat_mult)
  qed
qed

section \<open>The whole record\<close>

lemma replicate_zero_split: "a + b = c \<Longrightarrow> replicate a x @ replicate b x = replicate c x"
  by (simp flip: replicate_add)

definition header_bytes :: "(u32 \<times> mem_val) list \<Rightarrow> bytes" where
  "header_bytes fs = concat (map (fst \<circ> put_field) fs)"

definition payload :: "(u32 \<times> mem_val) list \<Rightarrow> bytes" where
  "payload fs = concat (map (snd \<circ> put_field) fs)"

text \<open>The first loop keeps a run of zeros as a count only where no other bytes follow.\<close>

lemma record_fields_ok:
  assumes "record_fields fmt mem vs = Some (fs, s, mem')" "list_all (\<lambda>v. val_size v < 2 ^ 30 - 10) vs"
  shows "list_all2 (\<lambda>f v. field_ok (fst f) (snd f) (record_norm v)) fs vs \<and>
    mrHdr s = length (header_bytes fs) \<and> mrData s = length (payload fs) \<and>
    payload fs @ replicate (mrZero s) 0 = concat (map field_data fs)"
  using assms
proof (induction vs arbitrary: fs s mem')
  case Nil
  then show ?case by (auto simp: header_bytes_def payload_def)
next
  case (Cons v vs)
  from Cons.prems(1) obtain gs t mem1 st w where
    r: "record_fields fmt mem vs = Some (gs, t, mem1)" and fs: "fs = (st, w) # gs"
    and f: "record_field fmt mem1 v t = Some ((st, w), s, mem')"
    by (auto simp: bind_eq_Some_conv)
  have IH: "list_all2 (\<lambda>f v. field_ok (fst f) (snd f) (record_norm v)) gs vs" "mrHdr t = length (header_bytes gs)"
    "mrData t = length (payload gs)" "payload gs @ replicate (mrZero t) 0 = concat (map field_data gs)"
    using Cons.IH [OF r] Cons.prems(2) by simp_all
  have F: "field_ok st w (record_norm v)" "mrHdr s = mrHdr t + length (sqlite3PutVarint (ucast st))"
    "mrData s + mrZero s = mrData t + mrZero t + sqlite3VdbeSerialTypeLen st"
    "mrZero s = field_zeros w + mrZero t" "field_zeros w > 0 \<longrightarrow> mrData t = 0"
    using record_field_ok [OF f] Cons.prems(2) by simp_all
  have p: "fst (put_field (st, w)) = sqlite3PutVarint (ucast st)"
    and l: "length (snd (put_field (st, w))) + field_zeros w = sqlite3VdbeSerialTypeLen st"
    using F(1) by (simp_all add: field_ok_def field_data_def)
  have "payload gs = []" if "field_zeros w > 0" using that F(5) IH(3) by simp
  then have "replicate (field_zeros w) 0 @ payload gs @ ys = payload gs @ replicate (field_zeros w) 0 @ ys" for ys
    by (cases "field_zeros w = 0") auto
  then have "payload fs @ replicate (mrZero s) 0 = concat (map field_data fs)"
    by (simp add: fs payload_def F(4) replicate_add field_data_def IH(4) [unfolded payload_def, symmetric])
  then show ?case using IH F p l by (simp add: fs header_bytes_def payload_def)
qed

lemma VarintLen_le_iff:
  assumes "n < 2 ^ 56"
  shows "sqlite3VarintLen (of_nat n) \<le> Suc k \<longleftrightarrow> n < 128 ^ Suc k"
proof -
  have u: "unat (of_nat n :: u64) = n" using assms by (simp add: unsigned_of_nat take_bit_nat_eq_self)
  then have d: "unat (drop_bit 7 (of_nat n :: u64)) = n div 128" by (simp add: unat_drop_7)
  have "n div 128 < 128 ^ k \<longleftrightarrow> n < 128 ^ Suc k" by (simp add: div_less_iff_less_mult mult.commute)
  with length_varint_hi [of "drop_bit 7 (of_nat n)" k] length_varint_hi_ge [of k "drop_bit 7 (of_nat n)"]
  show ?thesis unfolding d VarintLen_hi by linarith
qed

lemma VarintLen_eq:
  assumes "n < 2 ^ 28"
  shows "sqlite3VarintLen (of_nat n) = (if n < 128 then 1 else if n < 16384 then 2 else if n < 2097152 then 3 else 4)"
proof -
  define L where "L = sqlite3VarintLen (of_nat n)"
  have "n < 2 ^ 56" using assms by simp
  note l = VarintLen_le_iff [OF this, folded L_def]
  have "1 \<le> L" "L \<le> 1 \<longleftrightarrow> n < 128" "L \<le> 2 \<longleftrightarrow> n < 16384" "L \<le> 3 \<longleftrightarrow> n < 2097152" "L \<le> 4"
    using l [of 0] l [of 1] l [of 2] l [of 3] assms by (simp_all add: L_def VarintLen_hi)
  then show ?thesis unfolding L_def [symmetric] by (cases "n < 128"; cases "n < 16384"; cases "n < 2097152") simp_all
qed

lemma record_header_size_eq:
  assumes "n < 2 ^ 27"
  shows "record_header_size n = n + (if n < 127 then 1 else if n < 16382 then 2 else if n < 2097149 then 3 else 4)"
proof -
  define L where "L = sqlite3VarintLen (of_nat n)"
  have L: "L = (if n < 128 then 1 else if n < 16384 then 2 else if n < 2097152 then 3 else 4)"
    unfolding L_def by (rule VarintLen_eq) (use assms in simp)
  then have "n + L < 2 ^ 28" using assms by (simp split: if_splits)
  note L' = VarintLen_eq [OF this]
  have r: "record_header_size n = (if n \<le> 126 then n + 1 else if L < sqlite3VarintLen (of_nat (n + L)) then n + L + 1 else n + L)"
    by (simp add: record_header_size_def L_def Let_def)
  consider "n < 127" | "n = 127" | "127 < n" "n < 16382" | "16382 \<le> n" "n < 16384" | "16384 \<le> n" "n < 2097149"
    | "2097149 \<le> n" "n < 2097152" | "2097152 \<le> n" by linarith
  then show ?thesis unfolding r L' by cases (simp_all add: L)
qed

lemma header_size:
  assumes "nHdr < 2 ^ 27"
  shows "record_header_size nHdr = nHdr + length (sqlite3PutVarint (of_nat (record_header_size nHdr)))"
proof -
  note eq = record_header_size_eq [OF assms]
  have r: "record_header_size nHdr < 2 ^ 28" using assms unfolding eq by (simp split: if_split)
  then have "unat (of_nat (record_header_size nHdr) :: u64) < 2 ^ 56"
    by (simp add: unsigned_of_nat take_bit_nat_eq_self)
  then have "length (sqlite3PutVarint (of_nat (record_header_size nHdr))) = sqlite3VarintLen (of_nat (record_header_size nHdr))"
    by (simp add: VarintLen_small)
  also note VarintLen_eq [OF r]
  also have "(if record_header_size nHdr < 128 then 1 else if record_header_size nHdr < 16384 then 2
    else if record_header_size nHdr < 2097152 then 3 else 4) =
    (if nHdr < 127 then 1 else if nHdr < 16382 then 2 else if nHdr < 2097149 then 3 else 4 :: nat)"
    unfolding eq by (simp split: if_split)
  finally have len: "length (sqlite3PutVarint (of_nat (record_header_size nHdr))) =
    (if nHdr < 127 then 1 else if nHdr < 16382 then 2 else if nHdr < 2097149 then 3 else 4)" .
  show ?thesis unfolding len by (rule eq)
qed

text \<open>Reading the fields of a record back, from the type at \<open>idx\<close> and the value at \<open>d\<close>.\<close>

lemma unpack_fields:
  assumes "list_all2 (\<lambda>f w. field_ok (fst f) (snd f) w) fs ws"
    and "drop idx aKey = header_bytes fs @ drop szHdr aKey" "drop d aKey = concat (map field_data fs)"
    and "idx + length (header_bytes fs) = szHdr" "d \<le> length aKey" "length fs \<le> nField"
  shows "recordUnpack_loop aKey (length aKey) szHdr nField idx d = Some (ws, length aKey)"
  using assms
proof (induction fs ws arbitrary: idx d nField rule: list_all2_induct)
  case Nil
  then show ?case by (subst recordUnpack_loop.simps) (auto simp: header_bytes_def)
next
  case (Cons f fs w ws)
  obtain st v where f: "f = (st, v)" by fastforce
  have ok: "fst (put_field f) = sqlite3PutVarint (ucast st)" "length (field_data f) = sqlite3VdbeSerialTypeLen st"
    "sqlite3VdbeSerialGet (field_data f @ r) st = Some w" for r
    using Cons.hyps(1) by (simp_all add: f field_ok_def)
  let ?n = "length (sqlite3PutVarint (ucast st))"
  have hd: "header_bytes (f # fs) = sqlite3PutVarint (ucast st) @ header_bytes fs"
    by (simp add: header_bytes_def ok)
  have n: "0 < ?n" using VarintLen_type [of st] by (simp only: VarintLen_hi)
  have g: "getVarint32 (drop idx aKey) = Some (st, ?n)"
    using Cons.prems(1) by (simp add: hd get_put_varint32)
  have v: "sqlite3VdbeSerialGet (drop d aKey) st = Some w" using Cons.prems(2) by (simp add: ok(3))
  have idx: "idx < szHdr" using Cons.prems(3) n unfolding hd length_append by linarith
  have "length (drop d aKey) \<ge> length (field_data f)" unfolding Cons.prems(2) by simp
  then have d': "d + sqlite3VdbeSerialTypeLen st \<le> length aKey" using ok(2) Cons.prems(4) by simp
  have dd: "drop (d + sqlite3VdbeSerialTypeLen st) aKey = concat (map field_data fs)"
    using Cons.prems(2) ok(2) by (simp add: add.commute [of d] flip: drop_drop)
  have di: "drop (idx + ?n) aKey = header_bytes fs @ drop szHdr aKey"
    using Cons.prems(1) by (simp add: hd add.commute [of idx] flip: drop_drop)
  show ?case
  proof (cases "nField \<le> 1")
    case True
    then have "fs = []" using Cons.prems(5) by (cases fs) auto
    then have "ws = []" "d + sqlite3VdbeSerialTypeLen st = length aKey" using Cons.hyps(2) dd d' by auto
    then show ?thesis using True idx Cons.prems(4) g v by (subst recordUnpack_loop.simps) (simp add: Let_def)
  next
    case False
    have "recordUnpack_loop aKey (length aKey) szHdr (nField - 1) (idx + ?n) (d + sqlite3VdbeSerialTypeLen st) =
      Some (ws, length aKey)"
      by (rule Cons.IH [OF di dd]) (use Cons.prems(3,5) False d' in \<open>simp_all add: hd\<close>)
    then show ?thesis using False idx Cons.prems(4) g v by (subst recordUnpack_loop.simps) (simp add: Let_def)
  qed
qed

lemma header_bytes_le:
  "list_all2 (\<lambda>f w. field_ok (fst f) (snd f) w) fs ws \<Longrightarrow> length (header_bytes fs) \<le> 5 * length ws"
proof (induction fs ws rule: list_all2_induct)
  case (Cons f fs w ws)
  have "unat (fst f) < 2 ^ 32" using unsigned_less [of "fst f"] by simp
  then have "sqlite3VarintLen (of_nat (unat (fst f))) \<le> Suc 4"
    by (subst VarintLen_le_iff) simp_all
  then have "length (sqlite3PutVarint (ucast (fst f))) \<le> 5"
    using VarintLen_type [of "fst f"] by (simp add: unsigned_ucast_eq)
  moreover have "fst (put_field f) = sqlite3PutVarint (ucast (fst f))"
    using Cons.hyps(1) by (simp add: field_ok_def)
  ultimately show ?case using Cons.IH by (simp add: header_bytes_def)
qed (simp add: header_bytes_def)

lemma MakeRecord_parts:
  assumes "op_MakeRecord fmt szMalloc limit mem vs = MakeOk z nZero"
    and "list_all (\<lambda>v. val_size v < 2 ^ 30 - 10) vs" "length vs \<le> 32767"
  obtains fs s mem' where "record_fields fmt mem vs = Some (fs, s, mem')"
    "list_all2 (\<lambda>f w. field_ok (fst f) (snd f) w) fs (map record_norm vs)"
    "mrHdr s = length (header_bytes fs)" "mrData s = length (payload fs)" "nZero = mrZero s"
    "payload fs @ replicate (mrZero s) 0 = concat (map field_data fs)"
    "z = sqlite3PutVarint (of_nat (record_header_size (mrHdr s))) @ header_bytes fs @ payload fs"
    "mrHdr s < 2 ^ 27" "length z + nZero \<le> max szMalloc limit"
proof -
  obtain fs s mem' where r: "record_fields fmt mem vs = Some (fs, s, mem')"
    using assms(1) by (cases "record_fields fmt mem vs") (auto simp: op_MakeRecord_def)
  have F: "list_all2 (\<lambda>f v. field_ok (fst f) (snd f) (record_norm v)) fs vs" "mrHdr s = length (header_bytes fs)"
    "mrData s = length (payload fs)" "payload fs @ replicate (mrZero s) 0 = concat (map field_data fs)"
    using record_fields_ok [OF r assms(2)] by simp_all
  let ?n = "record_header_size (mrHdr s)"
  have F1: "list_all2 (\<lambda>f w. field_ok (fst f) (snd f) w) fs (map record_norm vs)"
    using F(1) by (simp add: list_all2_conv_all_nth)
  have small: "mrHdr s < 2 ^ 27" using header_bytes_le [OF F1] assms(3) F(2) by simp
  have h: "?n < 128 \<Longrightarrow> sqlite3PutVarint (of_nat ?n) = [of_nat ?n]"
    using PutVarint_7bit [of "of_nat ?n"] by (simp add: unsigned_of_nat take_bit_nat_eq_self)
  have z: "z = sqlite3PutVarint (of_nat ?n) @ header_bytes fs @ payload fs" "nZero = mrZero s"
    using assms(1) unfolding op_MakeRecord_def r
    by (auto simp: Let_def h payload_def simp flip: header_bytes_def split: if_splits)
  have bound: "?n + length (payload fs) + mrZero s \<le> max szMalloc limit"
    using assms(1) unfolding op_MakeRecord_def r by (auto simp: Let_def F(3) le_max_iff_disj split: if_splits)
  have "length z = ?n + length (payload fs)" using header_size [OF small] F(2) by (simp add: z)
  with that [OF r F1 F(2,3) z(2) F(4) z(1) small] bound z(2) show thesis by simp
qed

lemma MakeRecord_sizes:
  assumes "op_MakeRecord fmt szMalloc limit mem vs = MakeOk z nZero"
    and "list_all (\<lambda>v. val_size v < 2 ^ 30 - 10) vs" "length vs \<le> 32767"
  shows "\<exists>fs s mem'. record_fields fmt mem vs = Some (fs, s, mem') \<and> nZero = mrZero s \<and>
    length (sqlite3PutVarint (of_nat (record_header_size (mrHdr s)))) + length (concat (map (fst \<circ> put_field) fs)) =
      record_header_size (mrHdr s) \<and>
    length (concat (map (snd \<circ> put_field) fs)) = mrData s \<and>
    length z = record_header_size (mrHdr s) + mrData s \<and> length z + nZero \<le> max szMalloc limit"
proof -
  from MakeRecord_parts [OF assms] obtain fs s mem' where r: "record_fields fmt mem vs = Some (fs, s, mem')"
    and p: "mrHdr s = length (header_bytes fs)" "mrData s = length (payload fs)" "nZero = mrZero s"
    "z = sqlite3PutVarint (of_nat (record_header_size (mrHdr s))) @ header_bytes fs @ payload fs"
    "mrHdr s < 2 ^ 27" "length z + nZero \<le> max szMalloc limit" .
  have h: "length (sqlite3PutVarint (of_nat (record_header_size (mrHdr s)))) + mrHdr s = record_header_size (mrHdr s)"
    using header_size [OF p(5)] by linarith
  then have "length z = record_header_size (mrHdr s) + mrData s" by (subst p(4)) (simp add: p(1,2))
  with r p(3,6) h show ?thesis by (auto simp: header_bytes_def payload_def p(1,2))
qed

lemma unpack_MakeRecord:
  assumes "op_MakeRecord fmt szMalloc limit mem vs = MakeOk z nZero"
    and "list_all (\<lambda>v. val_size v < 2 ^ 30 - 10) vs" "length vs \<le> 32767" "length vs \<le> nField"
  shows "sqlite3VdbeRecordUnpack (length z + nZero) (z @ replicate nZero 0) nField = Some (map record_norm vs)"
proof -
  from MakeRecord_parts [OF assms(1-3)] obtain fs and s :: record_sizes where
    F: "list_all2 (\<lambda>f w. field_ok (fst f) (snd f) w) fs (map record_norm vs)"
    and hd: "mrHdr s = length (header_bytes fs)" and nz: "nZero = mrZero s"
    and p: "payload fs @ replicate (mrZero s) 0 = concat (map field_data fs)"
    and z0: "z = sqlite3PutVarint (of_nat (record_header_size (mrHdr s))) @ header_bytes fs @ payload fs"
    and small: "mrHdr s < 2 ^ 27" .
  let ?n = "record_header_size (mrHdr s)" and ?z = "z @ replicate nZero 0"
  have z: "?z = sqlite3PutVarint (of_nat ?n) @ header_bytes fs @ concat (map field_data fs)"
    unfolding z0 nz using p by simp
  have n: "?n < 2 ^ 28" using small unfolding record_header_size_eq [OF small] by (simp split: if_split)
  have u: "unat (of_nat ?n :: u32) = ?n" using n by (simp add: unsigned_of_nat take_bit_nat_eq_self)
  have c: "(of_nat ?n :: u64) = ucast (of_nat ?n :: u32)" using n by (simp add: unsigned_of_nat take_bit_nat_eq_self)
  have g: "getVarint32 ?z = Some (of_nat ?n, length (sqlite3PutVarint (of_nat ?n)))"
    unfolding z c by (rule get_put_varint32)
  have h: "?n = length (sqlite3PutVarint (of_nat ?n)) + length (header_bytes fs)"
    using header_size [OF small] hd by linarith
  have d: "drop ?n ?z = concat (map field_data fs)" unfolding z by (subst h) (simp flip: drop_drop)
  have len: "length fs \<le> nField" using list_all2_lengthD [OF F] assms(4) by simp
  have "recordUnpack_loop ?z (length ?z) ?n nField (length (sqlite3PutVarint (of_nat ?n))) ?n =
    Some (map record_norm vs, length ?z)"
    by (rule unpack_fields [OF F _ d _ _ len]) (use d h in \<open>simp_all add: z\<close>)
  then show ?thesis using g u by (simp add: sqlite3VdbeRecordUnpack_def)
qed

lemma MakeRecord_example:
  "op_MakeRecord 4 0 1000 [] [MNull False, MInt (- 123) True, MStr [0x61], MInt 1 False, MInt 300 False, MBlob [7] 2] =
    MakeOk [7, 0, 1, 15, 9, 2, 18, 0x85, 0x61, 1, 44, 7] 2"
  by code_simp

section \<open>Properties\<close>

text \<open>
  C10. A record that \<open>OP_MakeRecord\<close> builds from any values is read back by
  \<open>sqlite3VdbeRecordUnpack\<close> as those values, in order, every integer, text and blob exactly; a
  double that is not a number comes back as null and a trailing run of zeros as its bytes.
\<close>

theorem record_roundtrip:
  assumes "op_MakeRecord fmt szMalloc limit mem vs = MakeOk z nZero"
    and "list_all (\<lambda>v. val_size v < 2 ^ 30 - 10) vs" "length vs \<le> 32767" "length vs \<le> nField"
  shows "sqlite3VdbeRecordUnpack (length z + nZero) (z @ replicate nZero 0) nField = Some (map record_norm vs)"
  by (rule unpack_MakeRecord [OF assms])

theorem record_roundtrip_witness:
  "sqlite3VdbeRecordUnpack 14 [7, 0, 1, 15, 9, 2, 18, 0x85, 0x61, 1, 44, 7, 0, 0] 6 =
    Some [MNull False, MInt (- 123) False, MStr [0x61], MInt 1 False, MInt 300 False, MBlob [7, 0, 0] 0]"
proof -
  have big: "\<not> big_int (- 123)" by (simp add: big_int_uu word_le_nat_alt)
  have "sqlite3VdbeRecordUnpack (length ([7, 0, 1, 15, 9, 2, 18, 0x85, 0x61, 1, 44, 7] :: bytes) + 2)
      ([7, 0, 1, 15, 9, 2, 18, 0x85, 0x61, 1, 44, 7] @ replicate 2 0) 6 =
    Some (map record_norm [MNull False, MInt (- 123) True, MStr [0x61], MInt 1 False, MInt 300 False, MBlob [7] 2])"
    by (rule record_roundtrip [OF MakeRecord_example]) simp_all
  moreover have "length ([7, 0, 1, 15, 9, 2, 18, 0x85, 0x61, 1, 44, 7] :: bytes) + 2 = 14" by simp
  ultimately show ?thesis using big by (simp only:) (simp add: numeral_2_eq_2)
qed

text \<open>
  C11. The sizes that \<open>OP_MakeRecord\<close> computes in its first loop, and allocates by, are exactly
  what its second loop writes: the header varint and the serial types fill the header, the values
  fill the rest, and the record never exceeds both the register's buffer and the length limit.
\<close>

theorem record_no_overrun:
  assumes "op_MakeRecord fmt szMalloc limit mem vs = MakeOk z nZero"
    and "list_all (\<lambda>v. val_size v < 2 ^ 30 - 10) vs" "length vs \<le> 32767"
  shows "\<exists>fs s mem'. record_fields fmt mem vs = Some (fs, s, mem') \<and> nZero = mrZero s \<and>
    length (sqlite3PutVarint (of_nat (record_header_size (mrHdr s)))) + length (concat (map (fst \<circ> put_field) fs)) =
      record_header_size (mrHdr s) \<and>
    length (concat (map (snd \<circ> put_field) fs)) = mrData s \<and>
    length z = record_header_size (mrHdr s) + mrData s \<and> length z + nZero \<le> max szMalloc limit"
  by (rule MakeRecord_sizes [OF assms])

theorem record_no_overrun_witness:
  "\<exists>fs s mem'. record_fields 4 [] [MNull False, MInt (- 123) True, MStr [0x61], MInt 1 False, MInt 300 False, MBlob [7] 2] =
      Some (fs, s, mem') \<and> mrZero s = 2 \<and> length (concat (map (snd \<circ> put_field) fs)) = mrData s"
proof -
  have "list_all (\<lambda>v. val_size v < 2 ^ 30 - 10)
      [MNull False, MInt (- 123) True, MStr [0x61], MInt 1 False, MInt 300 False, MBlob [7] 2]"
    "length [MNull False, MInt (- 123) True, MStr [0x61], MInt 1 False, MInt 300 False, MBlob [7] 2] \<le> 32767"
    by simp_all
  from record_no_overrun [OF MakeRecord_example this] show ?thesis by metis
qed

end
