(* ===== verification/Hash_Table.thy ===== *)
theory Hash_Table
  imports Text_Bytes
begin

text \<open>
  The hash table of SQLite (hash.c), which names tables, indexes, functions and collations in
  every connection. All elements are on one doubly linked list; a bucket is a pointer into that
  list and a count, so the elements of a bucket are neighbours; without buckets a search runs over
  the whole list. The model keeps the elements in a store of addresses, so that the pointer
  surgery of the source is what is modelled: a read or a write through a pointer that is not
  allocated makes the result \<open>None\<close>. A null \<open>ht\<close> is the empty list of buckets and \<open>htsize\<close>
  its length. Counts are naturals: there are never as many elements as a 32-bit counter holds.
  Keys are strings without their terminator, null data is \<open>0\<close>.
\<close>

section \<open>Model\<close>

record hash_elem =
  he_next :: "nat option"
  he_prev :: "nat option"
  he_data :: nat
  he_pKey :: bytes
  he_h :: u32

record ht_entry =
  ht_count :: nat
  ht_chain :: "nat option"

record hash =
  first :: "nat option"
  hcount :: nat
  ht :: "ht_entry list"
  elems :: "nat \<Rightarrow> hash_elem option"
  fresh :: nat

definition sqlite3HashInit :: hash where
  "sqlite3HashInit = \<lparr>first = None, hcount = 0, ht = [], elems = Map.empty, fresh = 0\<rparr>"

text \<open>Writing through a pointer.\<close>

definition at_elem :: "nat \<Rightarrow> (hash_elem \<Rightarrow> hash_elem) \<Rightarrow> hash \<Rightarrow> hash option" where
  "at_elem p f s = map_option (\<lambda>e. s\<lparr>elems := (elems s)(p \<mapsto> f e)\<rparr>) (elems s p)"

partial_function (option) clear_loop ::
  "(nat \<Rightarrow> hash_elem option) \<Rightarrow> nat option \<Rightarrow> (nat \<Rightarrow> hash_elem option) option" where
  "clear_loop m elem =
     (case elem of None \<Rightarrow> Some m
      | Some p \<Rightarrow> (case m p of None \<Rightarrow> None | Some e \<Rightarrow> clear_loop (m(p := None)) (he_next e)))"

definition sqlite3HashClear :: "hash \<Rightarrow> hash option" where
  "sqlite3HashClear pH = do {
     m \<leftarrow> clear_loop (elems pH) (first pH);
     Some (pH\<lparr>first := None, ht := [], hcount := 0, elems := m\<rparr>) }"

fun strHash_loop :: "u32 \<Rightarrow> bytes \<Rightarrow> u32" where
  "strHash_loop h [] = h"
| "strHash_loop h (c # z) = strHash_loop ((h + ucast (0xdf AND c)) * 0x9e3779b1) z"

definition strHash :: "bytes \<Rightarrow> u32" where
  "strHash z = strHash_loop 0 z"

definition insertElement :: "hash \<Rightarrow> nat option \<Rightarrow> nat \<Rightarrow> hash option" where
  "insertElement pH pEntry pNew = do {
     (pHead, pH) \<leftarrow> Some (case pEntry of
         None \<Rightarrow> (None, pH)
       | Some i \<Rightarrow> (if ht_count (ht pH ! i) > 0 then ht_chain (ht pH ! i) else None,
           pH\<lparr>ht := (ht pH)[i := \<lparr>ht_count = ht_count (ht pH ! i) + 1, ht_chain = Some pNew\<rparr>]\<rparr>));
     case pHead of
       Some q0 \<Rightarrow> do {
         eh \<leftarrow> elems pH q0;
         pH \<leftarrow> at_elem pNew (\<lambda>e. e\<lparr>he_next := Some q0, he_prev := he_prev eh\<rparr>) pH;
         pH \<leftarrow> (case he_prev eh of
                  Some q \<Rightarrow> at_elem q (\<lambda>e. e\<lparr>he_next := Some pNew\<rparr>) pH
                | None \<Rightarrow> Some (pH\<lparr>first := Some pNew\<rparr>));
         at_elem q0 (\<lambda>e. e\<lparr>he_prev := Some pNew\<rparr>) pH }
     | None \<Rightarrow> do {
         pH' \<leftarrow> at_elem pNew (\<lambda>e. e\<lparr>he_next := first pH\<rparr>) pH;
         pH' \<leftarrow> (case first pH of
                  Some q \<Rightarrow> at_elem q (\<lambda>e. e\<lparr>he_prev := Some pNew\<rparr>) pH'
                | None \<Rightarrow> Some pH');
         pH' \<leftarrow> at_elem pNew (\<lambda>e. e\<lparr>he_prev := None\<rparr>) pH';
         Some (pH'\<lparr>first := Some pNew\<rparr>) } }"

text \<open>The loop that spreads the list over new buckets reads an element's successor before it
  relinks the element.\<close>

partial_function (option) rehash_loop :: "hash \<Rightarrow> nat option \<Rightarrow> hash option" where
  "rehash_loop pH elem =
     (case elem of None \<Rightarrow> Some pH
      | Some p \<Rightarrow>
          (case elems pH p of None \<Rightarrow> None
           | Some e \<Rightarrow>
               (case insertElement pH (Some (unat (he_h e) mod length (ht pH))) p of None \<Rightarrow> None
                | Some pH \<Rightarrow> rehash_loop pH (he_next e))))"

text \<open>
  \<open>alloc\<close> is the outcome of the allocation: \<open>None\<close> when it fails, \<open>Some n\<close> when the block holds
  \<open>n\<close> buckets more than were asked for. A bucket takes sixteen bytes, so the soft limit of
  1024 bytes is 64 buckets.
\<close>

definition rehash :: "hash \<Rightarrow> nat \<Rightarrow> nat option \<Rightarrow> hash option" where
  "rehash pH new_size alloc =
     (let new_size = (if new_size * 16 > 1024 then 1024 div 16 else new_size)
      in if new_size = length (ht pH) then Some pH
         else case alloc of
           None \<Rightarrow> Some pH
         | Some extra \<Rightarrow>
             rehash_loop (pH\<lparr>ht := replicate (new_size + extra) \<lparr>ht_count = 0, ht_chain = None\<rparr>, first := None\<rparr>)
               (first pH))"

text \<open>The search: \<open>Some None\<close> is the static null element.\<close>

fun find_loop :: "(nat \<Rightarrow> hash_elem option) \<Rightarrow> nat option \<Rightarrow> nat \<Rightarrow> u32 \<Rightarrow> bytes \<Rightarrow> nat option option" where
  "find_loop m elem 0 h pKey = Some None"
| "find_loop m elem (Suc count) h pKey =
     (case elem of None \<Rightarrow> None
      | Some p \<Rightarrow>
          (case m p of None \<Rightarrow> None
           | Some e \<Rightarrow>
               if h = he_h e \<and> sqlite3StrICmp (he_pKey e) pKey = 0 then Some (Some p)
               else find_loop m (he_next e) count h pKey))"

definition findElementWithHash :: "hash \<Rightarrow> bytes \<Rightarrow> (nat option \<times> u32) option" where
  "findElementWithHash pH pKey =
     (let h = strHash pKey
      in map_option (\<lambda>r. (r, h))
           (if ht pH \<noteq> []
            then (let pEntry = ht pH ! (unat h mod length (ht pH))
                  in find_loop (elems pH) (ht_chain pEntry) (ht_count pEntry) h pKey)
            else find_loop (elems pH) (first pH) (hcount pH) h pKey))"

definition unlinkElement :: "hash \<Rightarrow> hash_elem \<Rightarrow> hash option" where
  "unlinkElement pH e = do {
     pH \<leftarrow> (case he_prev e of
              Some q \<Rightarrow> at_elem q (\<lambda>f. f\<lparr>he_next := he_next e\<rparr>) pH
            | None \<Rightarrow> Some (pH\<lparr>first := he_next e\<rparr>));
     (case he_next e of
        Some q \<Rightarrow> at_elem q (\<lambda>f. f\<lparr>he_prev := he_prev e\<rparr>) pH
      | None \<Rightarrow> Some pH) }"

definition removeElement :: "hash \<Rightarrow> nat \<Rightarrow> hash option" where
  "removeElement pH elem = do {
     e \<leftarrow> elems pH elem;
     pH \<leftarrow> unlinkElement pH e;
     pH \<leftarrow> Some (if ht pH \<noteq> []
       then (let i = unat (he_h e) mod length (ht pH); pEntry = ht pH ! i;
                 chain = (if ht_chain pEntry = Some elem then he_next e else ht_chain pEntry)
             in pH\<lparr>ht := (ht pH)[i := \<lparr>ht_count = ht_count pEntry - 1, ht_chain = chain\<rparr>]\<rparr>)
       else pH);
     pH \<leftarrow> Some (pH\<lparr>elems := (elems pH)(elem := None), hcount := hcount pH - 1\<rparr>);
     if hcount pH = 0 then sqlite3HashClear pH else Some pH }"

definition sqlite3HashFind :: "hash \<Rightarrow> bytes \<Rightarrow> nat option" where
  "sqlite3HashFind pH pKey = do {
     (r, h) \<leftarrow> findElementWithHash pH pKey;
     case r of None \<Rightarrow> Some 0 | Some p \<Rightarrow> map_option he_data (elems pH p) }"

text \<open>Insertion, with the outcomes of the two allocations it may make.\<close>

definition sqlite3HashInsert :: "hash \<Rightarrow> bytes \<Rightarrow> nat \<Rightarrow> bool \<Rightarrow> nat option \<Rightarrow> (hash \<times> nat) option" where
  "sqlite3HashInsert pH pKey data malloc_ok alloc = do {
     (r, h) \<leftarrow> findElementWithHash pH pKey;
     case r of
       Some p \<Rightarrow> do {
         e \<leftarrow> elems pH p;
         pH \<leftarrow> (if data = 0 then removeElement pH p
                else at_elem p (\<lambda>e. e\<lparr>he_data := data, he_pKey := pKey\<rparr>) pH);
         Some (pH, he_data e) }
     | None \<Rightarrow>
         if data = 0 then Some (pH, 0)
         else if \<not> malloc_ok then Some (pH, data)
         else do {
           let new_elem = fresh pH;
           let pH = pH\<lparr>hcount := hcount pH + 1\<rparr>;
           pH \<leftarrow> (if hcount pH \<ge> 5 \<and> hcount pH > 2 * length (ht pH)
                  then rehash pH (hcount pH * 3) alloc else Some pH);
           let pH = pH\<lparr>fresh := new_elem + 1,
             elems := (elems pH)(new_elem \<mapsto> \<lparr>he_next = None, he_prev = None, he_data = data, he_pKey = pKey, he_h = h\<rparr>)\<rparr>;
           pH \<leftarrow> insertElement pH (if ht pH \<noteq> [] then Some (unat h mod length (ht pH)) else None) new_elem;
           Some (pH, 0) } }"

section \<open>Doubly linked lists\<close>

definition hdo :: "nat list \<Rightarrow> nat option \<Rightarrow> nat option" where
  "hdo xs n = (case xs of [] \<Rightarrow> n | x # _ \<Rightarrow> Some x)"

definition lasto :: "nat option \<Rightarrow> nat list \<Rightarrow> nat option" where
  "lasto p xs = (if xs = [] then p else Some (last xs))"

lemma hdo_simps [simp]: "hdo [] n = n" "hdo (x # xs) n = Some x" "hdo (xs @ ys) n = hdo xs (hdo ys n)"
  by (simp_all add: hdo_def split: list.split)

lemma lasto_simps [simp]: "lasto p [] = p" "lasto p (x # xs) = lasto (Some x) xs" "lasto p (xs @ ys) = lasto (lasto p xs) ys"
  by (simp_all add: lasto_def)

fun links :: "(nat \<Rightarrow> hash_elem option) \<Rightarrow> nat option \<Rightarrow> nat list \<Rightarrow> nat option \<Rightarrow> bool" where
  "links m p [] n \<longleftrightarrow> True"
| "links m p (x # xs) n \<longleftrightarrow>
     (\<exists>e. m x = Some e \<and> he_prev e = p \<and> he_next e = hdo xs n) \<and> links m (Some x) xs n"

text \<open>The same, with the backward pointers left open.\<close>

fun chain :: "(nat \<Rightarrow> hash_elem option) \<Rightarrow> nat list \<Rightarrow> nat option \<Rightarrow> bool" where
  "chain m [] n \<longleftrightarrow> True"
| "chain m (x # xs) n \<longleftrightarrow> (\<exists>e. m x = Some e \<and> he_next e = hdo xs n) \<and> chain m xs n"

lemma links_chain: "links m p xs n \<Longrightarrow> chain m xs n"
  by (induction xs arbitrary: p) auto

lemma links_append: "links m p (xs @ ys) n \<longleftrightarrow> links m p xs (hdo ys n) \<and> links m (lasto p xs) ys n"
  by (induction xs arbitrary: p) auto

lemma chain_append: "chain m (xs @ ys) n \<longleftrightarrow> chain m xs (hdo ys n) \<and> chain m ys n"
  by (induction xs) auto

lemma links_upd [simp]: "x \<notin> set xs \<Longrightarrow> links (m(x := e)) p xs n = links m p xs n"
  by (induction xs arbitrary: p) auto

lemma chain_upd [simp]: "x \<notin> set xs \<Longrightarrow> chain (m(x := e)) xs n = chain m xs n"
  by (induction xs) auto

lemma chain_cong: "(\<And>x. x \<in> set xs \<Longrightarrow> m x = m' x) \<Longrightarrow> chain m xs n \<Longrightarrow> chain m' xs n"
  by (induction xs) auto

text \<open>What a caller sees of an element.\<close>

definition payload :: "hash_elem option \<Rightarrow> (nat \<times> bytes \<times> u32) option" where
  "payload r = map_option (\<lambda>e. (he_data e, he_pKey e, he_h e)) r"

lemma payload_simps [simp]:
  "payload None = None" "payload (Some e) = Some (he_data e, he_pKey e, he_h e)"
  by (simp_all add: payload_def)

text \<open>Where the source inserts: before the bucket's first element, or at the front.\<close>

definition entry_at :: "ht_entry list \<Rightarrow> nat option \<Rightarrow> nat list \<Rightarrow> nat list \<Rightarrow> bool" where
  "entry_at t pEntry pre post \<longleftrightarrow>
     (case pEntry of None \<Rightarrow> pre = []
      | Some i \<Rightarrow> i < length t \<and>
          (if ht_count (t ! i) > 0 then post \<noteq> [] \<and> ht_chain (t ! i) = Some (hd post) else pre = []))"

definition count_in :: "ht_entry list \<Rightarrow> nat option \<Rightarrow> nat \<Rightarrow> ht_entry list" where
  "count_in t pEntry new =
     (case pEntry of None \<Rightarrow> t | Some i \<Rightarrow> t[i := \<lparr>ht_count = ht_count (t ! i) + 1, ht_chain = Some new\<rparr>])"

lemma insert_front:
  assumes "links (elems s) None xs None" "distinct (new # xs)" "elems s new = Some e0" "first s = hdo xs None"
  shows "\<exists>t. do {
         s' \<leftarrow> at_elem new (\<lambda>e. e\<lparr>he_next := first s\<rparr>) s;
         s' \<leftarrow> (case first s of Some q \<Rightarrow> at_elem q (\<lambda>e. e\<lparr>he_prev := Some new\<rparr>) s' | None \<Rightarrow> Some s');
         s' \<leftarrow> at_elem new (\<lambda>e. e\<lparr>he_prev := None\<rparr>) s';
         Some (s'\<lparr>first := Some new\<rparr>) } = Some t \<and> links (elems t) None (new # xs) None \<and>
    first t = Some new \<and> hcount t = hcount s \<and> fresh t = fresh s \<and> ht t = ht s \<and>
    (\<forall>x. payload (elems t x) = payload (elems s x)) \<and> (\<forall>x. x \<notin> set (new # xs) \<longrightarrow> elems t x = elems s x)"
  using assms by (cases xs) (auto simp: at_elem_def)

lemma insert_before:
  assumes "links (elems s) None (pre @ q0 # post) None" "distinct (new # pre @ q0 # post)" "elems s new = Some e0"
    and "first s = hdo (pre @ q0 # post) None"
  shows "\<exists>t. do {
         eh \<leftarrow> elems s q0;
         s \<leftarrow> at_elem new (\<lambda>e. e\<lparr>he_next := Some q0, he_prev := he_prev eh\<rparr>) s;
         s \<leftarrow> (case he_prev eh of
                  Some q \<Rightarrow> at_elem q (\<lambda>e. e\<lparr>he_next := Some new\<rparr>) s
                | None \<Rightarrow> Some (s\<lparr>first := Some new\<rparr>));
         at_elem q0 (\<lambda>e. e\<lparr>he_prev := Some new\<rparr>) s } = Some t \<and>
    links (elems t) None (pre @ new # q0 # post) None \<and>
    first t = hdo (pre @ new # q0 # post) None \<and> hcount t = hcount s \<and> fresh t = fresh s \<and> ht t = ht s \<and>
    (\<forall>x. payload (elems t x) = payload (elems s x)) \<and>
    (\<forall>x. x \<notin> set (new # pre @ q0 # post) \<longrightarrow> elems t x = elems s x)"
  using assms by (cases pre rule: rev_cases) (auto simp: at_elem_def links_append)

lemma insertElement_ok:
  assumes "links (elems s) None (pre @ post) None" "distinct (new # pre @ post)" "elems s new \<noteq> None"
    and "first s = hdo (pre @ post) None" "entry_at (ht s) pEntry pre post"
  shows "\<exists>t. insertElement s pEntry new = Some t \<and> links (elems t) None (pre @ new # post) None \<and>
    first t = hdo (pre @ new # post) None \<and> hcount t = hcount s \<and> fresh t = fresh s \<and>
    ht t = count_in (ht s) pEntry new \<and> (\<forall>x. payload (elems t x) = payload (elems s x)) \<and>
    (\<forall>x. x \<notin> set (new # pre @ post) \<longrightarrow> elems t x = elems s x)"
proof -
  let ?s = "s\<lparr>ht := count_in (ht s) pEntry new\<rparr>"
  obtain e0 where e0: "elems ?s new = Some e0" using assms(3) by auto
  show ?thesis
  proof (cases "\<exists>i. pEntry = Some i \<and> ht_count (ht s ! i) > 0")
    case True
    then obtain q0 post' where p: "post = q0 # post'" and h: "\<exists>i. pEntry = Some i \<and> ht_chain (ht s ! i) = Some q0 \<and> ht_count (ht s ! i) > 0"
      using assms(5) by (cases post) (auto simp: entry_at_def)
    have "links (elems ?s) None (pre @ q0 # post') None" "distinct (new # pre @ q0 # post')" "first ?s = hdo (pre @ q0 # post') None"
      using assms p by simp_all
    from insert_before [OF this(1,2) e0 this(3)] h show ?thesis
      by (auto simp: insertElement_def p count_in_def)
  next
    case False
    then have pre: "pre = []" using assms(5) by (auto simp: entry_at_def split: option.splits if_splits)
    have "links (elems ?s) None post None" "distinct (new # post)" "first ?s = hdo post None"
      using assms pre by simp_all
    from insert_front [OF this(1,2) e0 this(3)] False show ?thesis
      by (auto simp: insertElement_def pre count_in_def split: option.splits)
  qed
qed

lemma unlink_ok:
  assumes "links (elems s) None (pre @ x # post) None" "distinct (pre @ x # post)" "first s = hdo (pre @ x # post) None"
    and "elems s x = Some e"
  shows "\<exists>t. unlinkElement s e = Some t \<and> links (elems t) None (pre @ post) None \<and> he_next e = hdo post None \<and>
    first t = hdo (pre @ post) None \<and> hcount t = hcount s \<and> fresh t = fresh s \<and> ht t = ht s \<and>
    elems t x = Some e \<and> (\<forall>y. payload (elems t y) = payload (elems s y))"
  using assms by (cases pre rule: rev_cases; cases post) (auto simp: unlinkElement_def at_elem_def links_append)

section \<open>Buckets\<close>

text \<open>The list is the concatenation of the buckets that are not empty, each a run of elements
  with its number; every other bucket counts zero.\<close>

abbreviation flat :: "(nat \<times> nat list) list \<Rightarrow> nat list" where
  "flat gs \<equiv> concat (map snd gs)"

definition run_ok :: "(nat \<Rightarrow> nat) \<Rightarrow> ht_entry list \<Rightarrow> nat \<times> nat list \<Rightarrow> bool" where
  "run_ok b t r \<longleftrightarrow> (case r of (i, g) \<Rightarrow> i < length t \<and> g \<noteq> [] \<and> ht_count (t ! i) = length g \<and>
     ht_chain (t ! i) = Some (hd g) \<and> (\<forall>x \<in> set g. b x = i))"

definition buckets :: "(nat \<Rightarrow> nat) \<Rightarrow> ht_entry list \<Rightarrow> (nat \<times> nat list) list \<Rightarrow> bool" where
  "buckets b t gs \<longleftrightarrow> distinct (map fst gs) \<and> (\<forall>r \<in> set gs. run_ok b t r) \<and>
     (\<forall>i < length t. i \<notin> fst ` set gs \<longrightarrow> ht_count (t ! i) = 0)"

lemma run_ok_other: "fst r \<noteq> j \<Longrightarrow> run_ok b (t[j := e]) r = run_ok b t r"
  by (auto simp: run_ok_def split: prod.splits)

lemma runs_other: "j \<notin> fst ` set gs \<Longrightarrow> (\<forall>r \<in> set gs. run_ok b (t[j := e]) r) = (\<forall>r \<in> set gs. run_ok b t r)"
  by (metis imageI run_ok_other)

text \<open>Replacing, adding or dropping the run of bucket \<open>i\<close>.\<close>

lemma buckets_replace:
  assumes "buckets b t (g1 @ (i, g) # g2)" "run_ok b (t[i := e]) (i, g')"
  shows "buckets b (t[i := e]) (g1 @ (i, g') # g2)"
proof -
  have "i \<notin> fst ` set g1" "i \<notin> fst ` set g2" using assms(1) by (auto simp: buckets_def)
  moreover have "ht_count (t[i := e] ! j) = 0" if "j < length t" "j \<notin> fst ` set (g1 @ (i, g') # g2)" for j
    using that assms(1) by (auto simp: buckets_def nth_list_update)
  ultimately show ?thesis using assms by (auto simp: buckets_def runs_other ball_Un)
qed

lemma buckets_add:
  assumes "buckets b t gs" "i \<notin> fst ` set gs" "run_ok b (t[i := e]) (i, g)"
  shows "buckets b (t[i := e]) ((i, g) # gs)"
  using assms by (auto simp: buckets_def runs_other nth_list_update)

lemma buckets_drop:
  assumes "buckets b t (g1 @ (i, g) # g2)" "ht_count e = 0"
  shows "buckets b (t[i := e]) (g1 @ g2)"
proof -
  have "i \<notin> fst ` set g1" "i \<notin> fst ` set g2" using assms(1) by (auto simp: buckets_def)
  moreover have "ht_count (t[i := e] ! j) = 0" if "j < length t" "j \<notin> fst ` set (g1 @ g2)" for j
    using that assms by (cases "j = i") (auto simp: buckets_def nth_list_update)
  ultimately show ?thesis using assms by (auto simp: buckets_def runs_other ball_Un)
qed

lemma bucket_split: "i \<in> fst ` set gs \<Longrightarrow> \<exists>g1 g g2. gs = g1 @ (i, g) # g2"
  by (metis (no_types, lifting) imageE prod.collapse split_list)

lemma buckets_insert:
  assumes "buckets b t gs" "b new < length t"
  shows "\<exists>pre post gs'. flat gs = pre @ post \<and> flat gs' = pre @ new # post \<and>
    entry_at t (Some (b new)) pre post \<and> buckets b (count_in t (Some (b new)) new) gs'"
proof (cases "b new \<in> fst ` set gs")
  case True
  from bucket_split [OF this] obtain g1 g g2 where gs: "gs = g1 @ (b new, g) # g2" by blast
  have g: "run_ok b t (b new, g)" using assms(1) by (simp add: buckets_def gs)
  then have "entry_at t (Some (b new)) (flat g1) (g @ flat g2)"
    by (auto simp: entry_at_def run_ok_def)
  moreover have "run_ok b (count_in t (Some (b new)) new) (b new, new # g)"
    using g assms(2) by (auto simp: run_ok_def count_in_def)
  then have "buckets b (count_in t (Some (b new)) new) (g1 @ (b new, new # g) # g2)"
    using buckets_replace [OF assms(1) [unfolded gs]] by (simp add: count_in_def)
  moreover have "flat gs = flat g1 @ (g @ flat g2)" "flat (g1 @ (b new, new # g) # g2) = flat g1 @ new # (g @ flat g2)"
    by (simp_all add: gs)
  ultimately show ?thesis by blast
next
  case False
  then have c: "ht_count (t ! b new) = 0" using assms by (simp add: buckets_def)
  then have "entry_at t (Some (b new)) [] (flat gs)" using assms(2) by (simp add: entry_at_def)
  moreover have "run_ok b (count_in t (Some (b new)) new) (b new, [new])"
    using assms(2) c by (auto simp: run_ok_def count_in_def)
  then have "buckets b (count_in t (Some (b new)) new) ((b new, [new]) # gs)"
    using buckets_add [OF assms(1) False] by (simp add: count_in_def)
  moreover have "flat gs = [] @ flat gs" "flat ((b new, [new]) # gs) = [] @ new # flat gs" by simp_all
  ultimately show ?thesis by blast
qed

text \<open>The bucket's entry after the removal of one of its elements.\<close>

definition count_out :: "ht_entry list \<Rightarrow> nat \<Rightarrow> nat \<Rightarrow> nat option \<Rightarrow> ht_entry list" where
  "count_out t i x nxt = t[i := \<lparr>ht_count = ht_count (t ! i) - 1,
     ht_chain = (if ht_chain (t ! i) = Some x then nxt else ht_chain (t ! i))\<rparr>]"

lemma buckets_remove:
  assumes "buckets b t gs" "distinct (flat gs)" "flat gs = pre @ x # post"
  shows "\<exists>gs'. flat gs' = pre @ post \<and> buckets b (count_out t (b x) x (hdo post None)) gs'"
proof -
  have "x \<in> set (flat gs)" by (simp add: assms(3))
  then obtain i g where ig: "(i, g) \<in> set gs" "x \<in> set g" by auto
  then have "run_ok b t (i, g)" using assms(1) by (simp add: buckets_def)
  then have i: "b x = i" "i < length t" using ig(2) by (auto simp: run_ok_def)
  from ig obtain g1 g2 where gs: "gs = g1 @ (i, g) # g2" using split_list by metis
  obtain a c where g: "g = a @ x # c" using ig(2) split_list by metis
  have eq: "(flat g1 @ a) @ x # (c @ flat g2) = pre @ x # post" using assms(3) by (simp add: gs g)
  have "distinct ((flat g1 @ a) @ x # (c @ flat g2))" using assms(2) by (simp add: gs g)
  then have p: "pre = flat g1 @ a" "post = c @ flat g2"
    using eq append_Cons_eq_iff [of x "flat g1 @ a" "c @ flat g2" pre post] by auto
  have ok: "run_ok b t (i, g)" using assms(1) by (simp add: buckets_def gs)
  then have t: "ht_count (t ! i) = Suc (length a + length c)" "ht_chain (t ! i) = Some (hd (a @ [x]))"
    "\<forall>y \<in> set (a @ c). b y = i"
    by (auto simp: run_ok_def g hd_append)
  have nx: "a \<noteq> [] \<Longrightarrow> hd (a @ [x]) \<noteq> x" using assms(2) by (cases a) (auto simp: gs g)
  show ?thesis
  proof (cases "a @ c = []")
    case True
    then have "flat (g1 @ g2) = pre @ post" by (simp add: p)
    moreover have "buckets b (count_out t (b x) x (hdo post None)) (g1 @ g2)"
      unfolding count_out_def i(1) by (rule buckets_drop [OF assms(1) [unfolded gs]]) (use t(1) True in simp)
    ultimately show ?thesis by blast
  next
    case False
    have e: "(if ht_chain (t ! i) = Some x then hdo post None else ht_chain (t ! i)) = Some (hd (a @ c))"
      using t(2) nx False by (cases a; cases c) (auto simp: p)
    have "run_ok b (count_out t i x (hdo post None)) (i, a @ c)"
      using t e False i(2) unfolding run_ok_def count_out_def by simp
    then have "buckets b (count_out t (b x) x (hdo post None)) (g1 @ (i, a @ c) # g2)"
      unfolding count_out_def i(1) by (rule buckets_replace [OF assms(1) [unfolded gs]])
    moreover have "flat (g1 @ (i, a @ c) # g2) = pre @ post" by (simp add: p)
    ultimately show ?thesis by blast
  qed
qed

section \<open>Searching\<close>

lemma find_loop_ok:
  assumes "chain m (xs @ ys) n"
  shows "find_loop m (hdo (xs @ ys) n) (length xs) h k =
    Some (List.find (\<lambda>x. h = he_h (the (m x)) \<and> sqlite3StrICmp (he_pKey (the (m x))) k = 0) xs)"
  using assms by (induction xs) auto

section \<open>Contents\<close>

text \<open>What the elements hold, apart from their place in the list.\<close>

definition content :: "hash \<Rightarrow> nat \<Rightarrow> (nat \<times> bytes \<times> u32) option" where
  "content s x = payload (elems s x)"

lemma content_upd [simp]:
  "content (s\<lparr>hcount := n\<rparr>) = content s" "content (s\<lparr>ht := t\<rparr>) = content s" "content (s\<lparr>first := f\<rparr>) = content s"
  "content (s\<lparr>fresh := n\<rparr>) = content s"
  by (simp_all add: content_def fun_eq_iff)

abbreviation key_of :: "nat \<times> bytes \<times> u32 \<Rightarrow> int list" where
  "key_of e \<equiv> fold_case (fst (snd e))"

definition content_ok :: "(nat \<Rightarrow> (nat \<times> bytes \<times> u32) option) \<Rightarrow> bool" where
  "content_ok c \<longleftrightarrow>
     (\<forall>x e. c x = Some e \<longrightarrow> fst e \<noteq> 0 \<and> nul_free (fst (snd e)) \<and> snd (snd e) = strHash (fst (snd e))) \<and>
     (\<forall>x y e e'. c x = Some e \<longrightarrow> c y = Some e' \<longrightarrow> key_of e = key_of e' \<longrightarrow> x = y)"

lemma content_okD:
  assumes "content_ok c" "c x = Some e"
  shows "fst e \<noteq> 0" "nul_free (fst (snd e))" "snd (snd e) = strHash (fst (snd e))"
    "c y = Some e' \<Longrightarrow> key_of e = key_of e' \<Longrightarrow> x = y"
  using assms unfolding content_ok_def by blast+

definition holds :: "(nat \<Rightarrow> (nat \<times> bytes \<times> u32) option) \<Rightarrow> int list \<Rightarrow> nat \<Rightarrow> bool" where
  "holds c f d \<longleftrightarrow> (\<exists>x e. c x = Some e \<and> key_of e = f \<and> fst e = d)"

definition cmap :: "(nat \<Rightarrow> (nat \<times> bytes \<times> u32) option) \<Rightarrow> int list \<Rightarrow> nat option" where
  "cmap c f = (if \<exists>d. holds c f d then Some (THE d. holds c f d) else None)"

lemma cmap_cong: "(\<And>d. holds c f d = holds c' f d) \<Longrightarrow> cmap c f = cmap c' f"
proof -
  assume "\<And>d. holds c f d = holds c' f d"
  then have "holds c f = holds c' f" by (rule ext)
  then show ?thesis by (simp only: cmap_def)
qed

lemma cmap_Some:
  assumes "content_ok c" "c x = Some e"
  shows "cmap c (key_of e) = Some (fst e)"
proof -
  have "holds c (key_of e) d \<longleftrightarrow> d = fst e" for d
  proof
    assume "holds c (key_of e) d"
    then obtain y e' where y: "c y = Some e'" "key_of e' = key_of e" "fst e' = d" unfolding holds_def by blast
    then have "x = y" using content_okD(4) [OF assms y(1)] by simp
    with y assms(2) show "d = fst e" by simp
  next
    assume "d = fst e"
    with assms(2) show "holds c (key_of e) d" unfolding holds_def by blast
  qed
  then have "holds c (key_of e) = (\<lambda>d. d = fst e)" by (rule ext)
  then show ?thesis by (simp only: cmap_def) simp
qed

lemma cmap_None:
  assumes "\<And>x e. c x = Some e \<Longrightarrow> key_of e \<noteq> f"
  shows "cmap c f = None"
proof -
  have "\<not> holds c f d" for d unfolding holds_def using assms by blast
  then show ?thesis by (simp only: cmap_def) simp
qed

lemma content_put:
  assumes "content_ok c" "d \<noteq> 0" "nul_free k"
    and new: "\<And>y e. c y = Some e \<Longrightarrow> key_of e = fold_case k \<Longrightarrow> y = x"
    and old: "\<And>e. c x = Some e \<Longrightarrow> key_of e = fold_case k"
  shows "content_ok (c(x \<mapsto> (d, k, strHash k))) \<and> cmap (c(x \<mapsto> (d, k, strHash k))) = (cmap c)(fold_case k \<mapsto> d)"
proof (intro conjI ext)
  let ?c = "c(x \<mapsto> (d, k, strHash k))"
  show ok: "content_ok ?c"
    unfolding content_ok_def
  proof (intro conjI allI impI)
    fix y e assume "?c y = Some e"
    then show "fst e \<noteq> 0" "nul_free (fst (snd e))" "snd (snd e) = strHash (fst (snd e))"
      using assms(2,3) content_okD(1,2,3) [OF assms(1), of y e] by (cases "y = x"; auto)+
  next
    fix y z e e' assume a: "?c y = Some e" "?c z = Some e'" "key_of e = key_of e'"
    have x: "key_of e'' = fold_case k" if "?c x = Some e''" for e'' using that by auto
    consider "y = x" "z = x" | "y = x" "z \<noteq> x" "c z = Some e'" | "z = x" "y \<noteq> x" "c y = Some e"
      | "c y = Some e" "c z = Some e'"
      using a(1,2) by (cases "y = x"; cases "z = x") simp_all
    then show "y = z"
    proof cases
      case 1 then show ?thesis by blast
    next
      case 2
      then have "key_of e = fold_case k" using a(1) x by blast
      then have "z = x" using new [OF 2(3)] a(3) by metis
      with 2(2) show ?thesis by blast
    next
      case 3
      then have "key_of e' = fold_case k" using a(2) x by blast
      then have "y = x" using new [OF 3(3)] a(3) by metis
      with 3(2) show ?thesis by blast
    next
      case 4 with a(3) show ?thesis using content_okD(4) [OF assms(1)] by blast
    qed
  qed
  fix f show "cmap ?c f = ((cmap c)(fold_case k \<mapsto> d)) f"
  proof (cases "f = fold_case k")
    case True
    then show ?thesis using cmap_Some [OF ok, of x "(d, k, strHash k)"] by simp
  next
    case False
    have "holds ?c f b = holds c f b" for b
    proof -
      have "?c y = Some e \<and> key_of e = f \<longleftrightarrow> c y = Some e \<and> key_of e = f" for y e
        using False old [of e] by (cases "y = x") auto
      then show ?thesis unfolding holds_def by (simp only: conj_assoc [symmetric])
    qed
    then show ?thesis using False cmap_cong [of ?c f c] by simp
  qed
qed

lemma content_del:
  assumes "content_ok c" "c x = Some e0"
  shows "content_ok (c(x := None)) \<and> cmap (c(x := None)) = (cmap c)(key_of e0 := None)"
proof (intro conjI ext)
  let ?c = "c(x := None)"
  show "content_ok ?c" using assms(1) unfolding content_ok_def by (auto split: if_splits)
  fix f show "cmap ?c f = ((cmap c)(key_of e0 := None)) f"
  proof (cases "f = key_of e0")
    case True
    have "key_of e \<noteq> f" if "?c y = Some e" for y e
      using that content_okD(4) [OF assms, of y e] True by (auto split: if_splits)
    then show ?thesis using True cmap_None [of ?c f] by simp
  next
    case False
    have "holds ?c f b = holds c f b" for b
    proof -
      have "?c y = Some e \<and> key_of e = f \<longleftrightarrow> c y = Some e \<and> key_of e = f" for y e
        using False assms(2) by (cases "y = x") auto
      then show ?thesis unfolding holds_def by (simp only: conj_assoc [symmetric])
    qed
    then show ?thesis using False cmap_cong [of ?c f c] by simp
  qed
qed

text \<open>Keys that differ in case only have the same hash.\<close>

lemma hash_byte: "0xdf AND sqlite3Tolower c = 0xdf AND c"
proof (cases "65 \<le> unat c \<and> unat c \<le> 90")
  case True
  have "list_all (\<lambda>c. 0xdf AND (c + 32) = 0xdf AND (c :: u8)) (map of_nat [65..<91])"
    by (simp add: upt_rec)
  moreover have "c = of_nat (unat c)" by simp
  moreover have "unat c \<in> set [65..<91]" using True unfolding set_upt by auto
  ultimately have "0xdf AND (c + 32) = 0xdf AND c" unfolding list_all_iff by (metis image_eqI list.set_map)
  moreover have "sqlite3Tolower c = c + 32"
    using True by (simp add: word_unat_eq_iff unat_sqlite3Tolower unat_word_ariths)
  ultimately show ?thesis by simp
next
  case False
  then have "sqlite3Tolower c = c" by (auto simp: word_unat_eq_iff unat_sqlite3Tolower)
  then show ?thesis by simp
qed

lemma strHash_fold: "fold_case a = fold_case b \<Longrightarrow> strHash a = strHash b"
proof -
  have "fold_case a = fold_case b \<Longrightarrow> strHash_loop h a = strHash_loop h b" for h
  proof (induction a b arbitrary: h rule: list2_induct)
    case (Cons_Cons x a y b)
    then have "sqlite3Tolower x = sqlite3Tolower y" "fold_case a = fold_case b"
      by (simp_all add: fold_case_def word_uint_eq_iff)
    with Cons_Cons.IH show ?case using hash_byte [of x] hash_byte [of y] by simp
  qed (auto simp: fold_case_def)
  then show "fold_case a = fold_case b \<Longrightarrow> strHash a = strHash b" by (simp add: strHash_def)
qed

section \<open>The table\<close>

definition bucket_no :: "(nat \<Rightarrow> (nat \<times> bytes \<times> u32) option) \<Rightarrow> nat \<Rightarrow> nat \<Rightarrow> nat" where
  "bucket_no c n x = (case c x of None \<Rightarrow> 0 | Some e \<Rightarrow> unat (snd (snd e)) mod n)"

definition bucket_of :: "hash \<Rightarrow> nat \<Rightarrow> nat" where
  "bucket_of s = bucket_no (content s) (length (ht s))"

lemma bucket_no_eq: "c x = Some (d, k, h) \<Longrightarrow> bucket_no c n x = unat h mod n" "c x = c' x \<Longrightarrow> bucket_no c n x = bucket_no c' n x"
  by (simp_all add: bucket_no_def)

definition table_list :: "hash \<Rightarrow> nat list \<Rightarrow> bool" where
  "table_list s xs \<longleftrightarrow> links (elems s) None xs None \<and> distinct xs \<and> first s = hdo xs None \<and>
     (ht s = [] \<or> (\<exists>gs. xs = flat gs \<and> buckets (bucket_of s) (ht s) gs))"

definition hash_inv :: "hash \<Rightarrow> bool" where
  "hash_inv s \<longleftrightarrow> (\<exists>xs. table_list s xs \<and> dom (elems s) = set xs \<and> hcount s = length xs) \<and>
     (\<forall>x \<in> dom (elems s). x < fresh s) \<and> content_ok (content s)"

lemma bucket_of_cong: "content t = content s \<Longrightarrow> length (ht t) = length (ht s) \<Longrightarrow> bucket_of t = bucket_of s"
  by (simp only: bucket_of_def)

lemma dom_content: "dom (elems s) = dom (content s)"
  by (auto simp: content_def payload_def)

lemma insert_into:
  assumes "table_list s xs" "elems s new \<noteq> None" "new \<notin> set xs"
    and "pEntry = (if ht s = [] then None else Some (bucket_of s new))"
  shows "\<exists>t ys. insertElement s pEntry new = Some t \<and> table_list t ys \<and> set ys = insert new (set xs) \<and>
    hcount t = hcount s \<and> fresh t = fresh s \<and> content t = content s \<and> length (ht t) = length (ht s) \<and>
    (\<forall>x. x \<notin> insert new (set xs) \<longrightarrow> elems t x = elems s x)"
proof -
  have l: "links (elems s) None xs None" "distinct xs" "first s = hdo xs None" using assms(1) by (simp_all add: table_list_def)
  have "\<exists>pre post. xs = pre @ post \<and> entry_at (ht s) pEntry pre post \<and>
    (ht s = [] \<or> (\<exists>gs. pre @ new # post = flat gs \<and> buckets (bucket_of s) (count_in (ht s) pEntry new) gs))"
  proof (cases "ht s = []")
    case True
    then show ?thesis using assms(4) by (intro exI [of _ "[]"] exI [of _ xs]) (simp add: entry_at_def)
  next
    case False
    then obtain gs where gs: "xs = flat gs" "buckets (bucket_of s) (ht s) gs" using assms(1) by (auto simp: table_list_def)
    have "bucket_of s new < length (ht s)" using False by (auto simp: bucket_of_def bucket_no_def split: option.splits)
    from buckets_insert [OF gs(2) this] show ?thesis using False gs(1) assms(4) by metis
  qed
  then obtain pre post where p: "xs = pre @ post" "entry_at (ht s) pEntry pre post"
    "ht s = [] \<or> (\<exists>gs. pre @ new # post = flat gs \<and> buckets (bucket_of s) (count_in (ht s) pEntry new) gs)" by blast
  have "links (elems s) None (pre @ post) None" "distinct (new # pre @ post)" "first s = hdo (pre @ post) None"
    using l assms(3) by (simp_all add: p(1))
  from insertElement_ok [OF this(1,2) assms(2) this(3) p(2)]
  obtain t where t: "insertElement s pEntry new = Some t" "links (elems t) None (pre @ new # post) None"
    "first t = hdo (pre @ new # post) None" "hcount t = hcount s" "fresh t = fresh s"
    "ht t = count_in (ht s) pEntry new" "content t = content s" "\<forall>x. x \<notin> set (new # pre @ post) \<longrightarrow> elems t x = elems s x"
    unfolding content_def by (auto simp: fun_eq_iff)
  have len: "length (ht t) = length (ht s)" using t(6) by (auto simp: count_in_def split: option.splits)
  have "table_list t (pre @ new # post)"
    unfolding table_list_def bucket_of_cong [OF t(7) len] using t(2,3,6) p(3) len l(2) assms(3)
    by (auto simp: p(1))
  moreover have "set (pre @ new # post) = insert new (set xs)" by (auto simp: p(1))
  ultimately show ?thesis using t len by (metis p(1) set_simps(2))
qed

text \<open>The loop of the rehash: \<open>ys\<close> are the elements already in the new buckets, \<open>rem\<close> those
  still to come, of which only the forward pointers are as they were.\<close>

lemma rehash_loop_ok:
  assumes "table_list s ys" "ht s \<noteq> []" "chain (elems s) rem None" "distinct rem" "set rem \<inter> set ys = {}"
    and "\<And>x. x \<in> set rem \<Longrightarrow> \<exists>d k. content s x = Some (d, k, strHash k)"
  shows "\<exists>t zs. rehash_loop s (hdo rem None) = Some t \<and> table_list t zs \<and> set zs = set rem \<union> set ys \<and>
    hcount t = hcount s \<and> fresh t = fresh s \<and> content t = content s \<and> length (ht t) = length (ht s)"
  using assms
proof (induction rem arbitrary: s ys)
  case Nil
  then show ?case by (subst rehash_loop.simps) auto
next
  case (Cons p rem)
  obtain e where e: "elems s p = Some e" "he_next e = hdo rem None" using Cons.prems(3) by auto
  have b: "unat (he_h e) mod length (ht s) = bucket_of s p"
    using bucket_no_eq(1) [of "content s" p] by (simp add: bucket_of_def content_def e)
  have "elems s p \<noteq> None" "p \<notin> set ys" using e Cons.prems(5) by auto
  from insert_into [OF Cons.prems(1) this, of "Some (bucket_of s p)"] Cons.prems(2)
  obtain t zs where t: "insertElement s (Some (bucket_of s p)) p = Some t" "table_list t zs" "set zs = insert p (set ys)"
    "hcount t = hcount s" "fresh t = fresh s" "content t = content s" "length (ht t) = length (ht s)"
    "\<forall>x. x \<notin> insert p (set ys) \<longrightarrow> elems t x = elems s x" by auto
  have "p \<notin> set rem" using Cons.prems(4) by simp
  have "elems s x = elems t x" if "x \<in> set rem" for x
    using t(8) that Cons.prems(5) \<open>p \<notin> set rem\<close> by auto
  then have "chain (elems t) rem None" using Cons.prems(3) by (auto intro: chain_cong [of rem "elems s"])
  then have "\<exists>u ws. rehash_loop t (hdo rem None) = Some u \<and> table_list u ws \<and> set ws = set rem \<union> set zs \<and>
    hcount u = hcount t \<and> fresh u = fresh t \<and> content u = content t \<and> length (ht u) = length (ht t)"
    using Cons.prems t by (intro Cons.IH) auto
  then show ?case using t e b by (subst rehash_loop.simps) auto
qed

lemma buckets_cong:
  assumes "\<And>x. x \<in> set (flat gs) \<Longrightarrow> b x = b' x" "buckets b t gs"
  shows "buckets b' t gs"
proof -
  have "run_ok b' t r" if "r \<in> set gs" for r
  proof -
    have "run_ok b t r" "\<forall>x \<in> set (snd r). b x = b' x" using that assms by (auto simp: buckets_def)
    then show ?thesis by (auto simp: run_ok_def split: prod.splits)
  qed
  then show ?thesis using assms(2) by (simp add: buckets_def)
qed

lemma buckets_empty: "buckets b (replicate n \<lparr>ht_count = 0, ht_chain = None\<rparr>) []"
  by (simp add: buckets_def)

lemma rehash_ok:
  assumes "table_list s xs" "dom (elems s) = set xs" "content_ok (content s)" "0 < n"
  shows "\<exists>t zs. rehash s n alloc = Some t \<and> table_list t zs \<and> set zs = set xs \<and>
    hcount t = hcount s \<and> fresh t = fresh s \<and> content t = content s"
proof (cases alloc)
  case None
  then show ?thesis using assms(1) by (auto simp: rehash_def Let_def)
next
  case (Some extra)
  let ?n = "if n * 16 > 1024 then 1024 div 16 else n"
  let ?s = "s\<lparr>ht := replicate (?n + extra) \<lparr>ht_count = 0, ht_chain = None\<rparr>, first := None\<rparr>"
  show ?thesis
  proof (cases "?n = length (ht s)")
    case True
    then show ?thesis using assms(1) by (auto simp: rehash_def Let_def)
  next
    case False
    have n: "?n > 0" using assms(4) by simp
    have "table_list ?s []" using buckets_empty [of "bucket_of ?s" "?n + extra"] n
      unfolding table_list_def by (intro conjI disjI2 exI [of _ "[]"]) simp_all
    moreover have l: "links (elems s) None xs None" "distinct xs" "first s = hdo xs None"
      using assms(1) by (simp_all add: table_list_def)
    moreover have "\<exists>d k. content ?s x = Some (d, k, strHash k)" if "x \<in> set xs" for x
    proof -
      from that assms(2) obtain e where "elems s x = Some e" by blast
      then have c: "content s x = Some (he_data e, he_pKey e, he_h e)" by (simp add: content_def)
      then have "he_h e = strHash (he_pKey e)" using content_okD(3) [OF assms(3)] by fastforce
      with c show ?thesis by (simp add: content_def)
    qed
    ultimately have "\<exists>t zs. rehash_loop ?s (hdo xs None) = Some t \<and> table_list t zs \<and> set zs = set xs \<union> set [] \<and>
      hcount t = hcount ?s \<and> fresh t = fresh ?s \<and> content t = content ?s \<and> length (ht t) = length (ht ?s)"
      using n by (intro rehash_loop_ok) (auto intro: links_chain)
    then show ?thesis using l(3) False Some unfolding rehash_def Let_def
      by (auto simp: content_def fun_eq_iff)
  qed
qed

section \<open>Finding\<close>

lemma find_Some_elem:
  assumes "List.find P xs = r"
  shows "case r of Some p \<Rightarrow> p \<in> set xs \<and> P p | None \<Rightarrow> \<forall>x \<in> set xs. \<not> P x"
  using assms by (auto simp: find_Some_iff find_None_iff split: option.splits)

lemma findElement_ok:
  assumes "hash_inv s" "nul_free key"
  shows "\<exists>r. findElementWithHash s key = Some (r, strHash key) \<and>
    (case r of None \<Rightarrow> \<forall>x e. content s x = Some e \<longrightarrow> key_of e \<noteq> fold_case key
     | Some p \<Rightarrow> \<exists>d k. content s p = Some (d, k, strHash k) \<and> fold_case k = fold_case key)"
proof -
  obtain xs where xs: "table_list s xs" "dom (elems s) = set xs" "hcount s = length xs"
    and c: "content_ok (content s)" using assms(1) by (auto simp: hash_inv_def)
  let ?P = "\<lambda>x. strHash key = he_h (the (elems s x)) \<and> sqlite3StrICmp (he_pKey (the (elems s x))) key = 0"
  have P: "?P x \<longleftrightarrow> (\<exists>e. content s x = Some e \<and> key_of e = fold_case key)" if "x \<in> set xs" for x
  proof -
    from that xs(2) obtain e where e: "elems s x = Some e" by blast
    then have k: "content s x = Some (he_data e, he_pKey e, he_h e)" by (simp add: content_def)
    then have "he_h e = strHash (he_pKey e)" "nul_free (he_pKey e)" using content_okD(2,3) [OF c k] by simp_all
    then show ?thesis using StrICmp_lex [of "he_pKey e" key] assms(2) strHash_fold [of "he_pKey e" key]
      by (auto simp: e k)
  qed
  have "\<exists>ys. findElementWithHash s key = Some (List.find ?P ys, strHash key) \<and> set ys \<subseteq> set xs \<and>
      (\<forall>x \<in> set xs - set ys. \<not> ?P x)"
  proof (cases "ht s = []")
    case True
    have "chain (elems s) (xs @ []) None" using xs(1) by (auto simp: table_list_def intro: links_chain)
    from find_loop_ok [OF this] have "findElementWithHash s key = Some (List.find ?P xs, strHash key)"
      using True xs by (simp add: findElementWithHash_def table_list_def Let_def)
    then show ?thesis by blast
  next
    case False
    then obtain gs where gs: "xs = flat gs" "buckets (bucket_of s) (ht s) gs" using xs(1) by (auto simp: table_list_def)
    let ?i = "unat (strHash key) mod length (ht s)"
    have far: "bucket_of s x = ?i" if "?P x" "x \<in> set xs" for x
    proof -
      from that(2) xs(2) obtain e where "elems s x = Some e" by blast
      with that(1) bucket_no_eq(1) [of "content s" x] show ?thesis by (simp add: bucket_of_def content_def)
    qed
    show ?thesis
    proof (cases "?i \<in> fst ` set gs")
      case True
      from bucket_split [OF this] obtain g1 g g2 where g: "gs = g1 @ (?i, g) # g2" by blast
      have r: "run_ok (bucket_of s) (ht s) (?i, g)" using gs(2) by (simp add: buckets_def g)
      have "chain (elems s) (flat g1 @ g @ flat g2) None" using xs(1) by (auto simp: table_list_def gs(1) g intro: links_chain)
      then have "chain (elems s) (g @ flat g2) None" by (simp add: chain_append)
      note find_loop_ok [OF this, of "strHash key" key]
      moreover have "hdo (g @ flat g2) None = ht_chain (ht s ! ?i)" "length g = ht_count (ht s ! ?i)"
        using r by (cases g; auto simp: run_ok_def)+
      ultimately have f: "findElementWithHash s key = Some (List.find ?P g, strHash key)"
        using False by (simp add: findElementWithHash_def Let_def)
      have "\<not> ?P x" if "x \<in> set xs - set g" for x
      proof
        assume "?P x"
        with far that have b: "bucket_of s x = ?i" by blast
        from that obtain j h where jh: "(j, h) \<in> set gs" "x \<in> set h" by (auto simp: gs(1))
        then have ne: "(j, h) \<noteq> (?i, g)" using that by auto
        have "run_ok (bucket_of s) (ht s) (j, h)" using jh(1) gs(2) by (simp add: buckets_def)
        with jh(2) b have "j = ?i" by (auto simp: run_ok_def)
        with jh ne gs(2) show False unfolding buckets_def g by (auto simp: image_iff)
      qed
      then show ?thesis using f by (intro exI [of _ g]) (auto simp: gs(1) g)
    next
      case no: False
      have "?i < length (ht s)" using False by simp
      then have "ht_count (ht s ! ?i) = 0" using gs(2) no by (simp add: buckets_def)
      then have f: "findElementWithHash s key = Some (List.find ?P [], strHash key)"
        using False by (simp add: findElementWithHash_def Let_def)
      have "\<not> ?P x" if "x \<in> set xs" for x
      proof
        assume "?P x"
        with far that have b: "bucket_of s x = ?i" by blast
        from that obtain j h where jh: "(j, h) \<in> set gs" "x \<in> set h" by (auto simp: gs(1))
        have "run_ok (bucket_of s) (ht s) (j, h)" using jh(1) gs(2) by (simp add: buckets_def)
        with jh(2) b have "j = ?i" by (auto simp: run_ok_def)
        with jh(1) no show False by force
      qed
      then show ?thesis using f by (intro exI [of _ "[]"]) auto
    qed
  qed
  then obtain ys where f: "findElementWithHash s key = Some (List.find ?P ys, strHash key)" "set ys \<subseteq> set xs"
    "\<forall>x \<in> set xs - set ys. \<not> ?P x" by blast
  show ?thesis
  proof (intro exI [of _ "List.find ?P ys"] conjI f(1))
    show "case List.find ?P ys of None \<Rightarrow> \<forall>x e. content s x = Some e \<longrightarrow> key_of e \<noteq> fold_case key
     | Some p \<Rightarrow> \<exists>d k. content s p = Some (d, k, strHash k) \<and> fold_case k = fold_case key"
    proof (cases "List.find ?P ys")
      case None
      then have "\<forall>x \<in> set xs. \<not> ?P x" using f(3) by (auto simp: find_None_iff)
      moreover have "x \<in> set xs" if "content s x = Some e" for x e
        using that xs(2) dom_content [of s] by blast
      ultimately have "\<forall>x e. content s x = Some e \<longrightarrow> key_of e \<noteq> fold_case key"
      proof (intro allI impI notI)
        fix x e assume e: "content s x = Some e" "key_of e = fold_case key"
        then have "x \<in> set xs" using xs(2) dom_content [of s] by blast
        with P [of x] e \<open>\<forall>x \<in> set xs. \<not> ?P x\<close> show False by blast
      qed
      then show ?thesis unfolding None option.case .
    next
      case (Some p)
      then have "p \<in> set ys" "?P p" by (auto simp: find_Some_iff)
      with f(2) P [of p] obtain e where "content s p = Some e" "key_of e = fold_case key" by blast
      moreover have "snd (snd e) = strHash (fst (snd e))" using content_okD(3) [OF c] calculation(1) .
      ultimately have "content s p = Some (fst e, fst (snd e), strHash (fst (snd e)))" "fold_case (fst (snd e)) = fold_case key"
        by (cases e; simp)+
      then show ?thesis unfolding Some option.case by blast
    qed
  qed
qed

section \<open>Removing and inserting\<close>

lemma clear_loop_ok:
  "chain m xs None \<Longrightarrow> distinct xs \<Longrightarrow> clear_loop m (hdo xs None) = Some (m |` (- set xs))"
proof (induction xs arbitrary: m)
  case Nil
  then show ?case by (subst clear_loop.simps) (simp add: restrict_map_def)
next
  case (Cons x xs)
  then obtain e where e: "m x = Some e" "he_next e = hdo xs None" by auto
  have "clear_loop (m(x := None)) (hdo xs None) = Some (m(x := None) |` (- set xs))"
  proof (rule Cons.IH)
    show "chain (m(x := None)) xs None" "distinct xs" using Cons.prems chain_upd [of x xs m None None] by auto
  qed
  moreover have "m(x := None) |` (- set xs) = m |` (- set (x # xs))" by (auto simp: restrict_map_def)
  ultimately show ?case using e by (subst clear_loop.simps) simp
qed

definition hash_abs :: "hash \<Rightarrow> int list \<Rightarrow> nat option" where
  "hash_abs s = cmap (content s)"

lemma clear_ok:
  assumes "hash_inv s"
  shows "\<exists>t. sqlite3HashClear s = Some t \<and> hash_inv t \<and> elems t = Map.empty \<and> hcount t = 0 \<and> ht t = []"
proof -
  obtain xs where xs: "table_list s xs" "dom (elems s) = set xs" using assms by (auto simp: hash_inv_def)
  then have "clear_loop (elems s) (first s) = Some (elems s |` (- dom (elems s)))"
    using clear_loop_ok [of "elems s" xs] by (auto simp: table_list_def intro: links_chain)
  moreover have "elems s |` (- dom (elems s)) = Map.empty" by (auto simp: restrict_map_def)
  ultimately show ?thesis
    by (auto simp: sqlite3HashClear_def hash_inv_def table_list_def content_ok_def content_def)
qed

lemma remove_ok:
  assumes "hash_inv s" "content s p = Some e0"
  shows "\<exists>t. removeElement s p = Some t \<and> hash_inv t \<and> hash_abs t = (hash_abs s)(key_of e0 := None)"
proof -
  obtain xs where xs: "table_list s xs" "dom (elems s) = set xs" "hcount s = length xs"
    and fr: "\<forall>x \<in> dom (elems s). x < fresh s" and c: "content_ok (content s)" using assms(1) by (auto simp: hash_inv_def)
  have "p \<in> set xs" using assms(2) xs(2) dom_content [of s] by blast
  then obtain pre post where p: "xs = pre @ p # post" using split_list by metis
  obtain e where e: "elems s p = Some e" using assms(2) by (cases "elems s p") (auto simp: content_def)
  have l: "links (elems s) None (pre @ p # post) None" "distinct (pre @ p # post)" "first s = hdo (pre @ p # post) None"
    using xs(1) by (simp_all add: table_list_def p)
  from unlink_ok [OF l e] obtain u where u: "unlinkElement s e = Some u" "links (elems u) None (pre @ post) None" "he_next e = hdo post None"
    "first u = hdo (pre @ post) None" "hcount u = hcount s" "fresh u = fresh s" "ht u = ht s" "elems u p = Some e"
    "content u = content s" unfolding content_def by (auto simp: fun_eq_iff)
  let ?i = "unat (he_h e) mod length (ht s)"
  let ?t = "if ht s \<noteq> [] then count_out (ht s) ?i p (he_next e) else ht s"
  let ?v = "u\<lparr>ht := ?t, elems := (elems u)(p := None), hcount := hcount s - 1\<rparr>"
  have r: "removeElement s p = (if hcount ?v = 0 then sqlite3HashClear ?v else Some ?v)"
    by (cases "ht s = []"; cases u) (use u(5,7) in \<open>auto simp: removeElement_def e u(1) count_out_def Let_def\<close>)
  have cv: "content ?v = (content s)(p := None)" using u(9) by (auto simp: content_def fun_eq_iff)
  have dv: "dom (elems ?v) = set (pre @ post)"
  proof -
    have "dom (elems u) = dom (elems s)" by (simp add: dom_content u(9))
    then show ?thesis using xs(2) l(2) by (auto simp: p)
  qed
  have tl: "table_list ?v (pre @ post)"
  proof (cases "ht s = []")
    case True
    then show ?thesis using u l(2) by (simp add: table_list_def)
  next
    case False
    then obtain gs where gs: "flat gs = pre @ p # post" "buckets (bucket_of s) (ht s) gs"
      using xs(1) by (auto simp: table_list_def p)
    have i: "bucket_of s p = ?i" using bucket_no_eq(1) [of "content s" p] by (simp add: bucket_of_def content_def e)
    from buckets_remove [OF gs(2) _ gs(1)] l(2) obtain hs where hs: "flat hs = pre @ post"
      "buckets (bucket_of s) (count_out (ht s) ?i p (hdo post None)) hs" by (auto simp: gs(1) i)
    have "buckets (bucket_of ?v) (ht ?v) hs"
    proof -
      have "bucket_of ?v x = bucket_of s x" if "x \<noteq> p" for x
      proof -
        have "length (ht ?v) = length (ht s)" using False by (simp add: count_out_def)
        then show ?thesis unfolding bucket_of_def cv using that by (simp add: bucket_no_def)
      qed
      moreover have "p \<notin> set (flat hs)" using l(2) by (simp add: hs(1))
      ultimately have "bucket_of s x = bucket_of ?v x" if "x \<in> set (flat hs)" for x using that by metis
      from buckets_cong [OF this hs(2)] show ?thesis using False u(3) by simp
    qed
    then show ?thesis using u l(2) hs(1) by (auto simp: table_list_def)
  qed
  have cd: "content_ok (content ?v)" "hash_abs ?v = (hash_abs s)(key_of e0 := None)"
    using content_del [OF c assms(2)] unfolding hash_abs_def cv by blast+
  have inv: "hash_inv ?v"
    using tl dv fr cd(1) xs(2,3) u(6) by (auto simp: hash_inv_def p)
  show ?thesis
  proof (cases "hcount ?v = 0")
    case True
    from clear_ok [OF inv] obtain t where t: "sqlite3HashClear ?v = Some t" "hash_inv t" "elems t = Map.empty" by blast
    have "pre @ post = []" using True xs(3) by (simp add: p)
    then have "elems t = elems ?v" using dv t(3) by (simp only: set_simps(1) dom_eq_empty_conv)
    then have "content t = content ?v" by (intro ext) (simp only: content_def)
    then have "hash_abs t = hash_abs ?v" by (simp add: hash_abs_def)
    then show ?thesis using t r True cd(2) by auto
  next
    case False
    then show ?thesis using r inv cd(2) by auto
  qed
qed

lemma insert_ok:
  assumes "hash_inv s" "nul_free key"
  shows "\<exists>t. sqlite3HashInsert s key d ok alloc =
      Some (t, case hash_abs s (fold_case key) of Some old \<Rightarrow> old | None \<Rightarrow> if d \<noteq> 0 \<and> \<not> ok then d else 0) \<and>
    hash_inv t \<and>
    hash_abs t = (if d = 0 then (hash_abs s)(fold_case key := None)
                  else if hash_abs s (fold_case key) = None \<and> \<not> ok then hash_abs s
                  else (hash_abs s)(fold_case key \<mapsto> d))"
proof -
  obtain xs where xs: "table_list s xs" "dom (elems s) = set xs" "hcount s = length xs"
    and fr: "\<forall>x \<in> dom (elems s). x < fresh s" and c: "content_ok (content s)" using assms(1) by (auto simp: hash_inv_def)
  from findElement_ok [OF assms] obtain r where r: "findElementWithHash s key = Some (r, strHash key)"
    "case r of None \<Rightarrow> \<forall>x e. content s x = Some e \<longrightarrow> key_of e \<noteq> fold_case key
     | Some p \<Rightarrow> \<exists>d k. content s p = Some (d, k, strHash k) \<and> fold_case k = fold_case key" by blast
  show ?thesis
  proof (cases r)
    case (Some p)
    then obtain d0 k0 where p: "content s p = Some (d0, k0, strHash k0)" "fold_case k0 = fold_case key" using r(2) by auto
    obtain e where e: "elems s p = Some e" "he_data e = d0" "he_h e = strHash k0"
      using p(1) by (cases "elems s p") (auto simp: content_def)
    have a: "hash_abs s (fold_case key) = Some d0" using cmap_Some [OF c p(1)] p(2) by (simp add: hash_abs_def)
    show ?thesis
    proof (cases "d = 0")
      case True
      from remove_ok [OF assms(1) p(1)] True Some r(1) e a p(2) show ?thesis by (auto simp: sqlite3HashInsert_def)
    next
      case False
      let ?t = "s\<lparr>elems := (elems s)(p \<mapsto> e\<lparr>he_data := d, he_pKey := key\<rparr>)\<rparr>"
      have t: "sqlite3HashInsert s key d ok alloc = Some (?t, d0)"
        using Some r(1) e False by (simp add: sqlite3HashInsert_def at_elem_def)
      have h: "strHash k0 = strHash key" using strHash_fold p(2) by blast
      then have ct: "content ?t = (content s)(p \<mapsto> (d, key, strHash key))" using e by (auto simp: content_def fun_eq_iff)
      have put: "content_ok (content ?t) \<and> hash_abs ?t = (hash_abs s)(fold_case key \<mapsto> d)"
        unfolding hash_abs_def ct
        using False assms(2) content_okD(4) [OF c p(1)] p by (intro content_put [OF c]) auto
      have b: "bucket_of ?t = bucket_of s"
        unfolding bucket_of_def ct using p(1) h by (intro ext) (simp add: bucket_no_def)
      have "links (elems ?t) q ys n = links (elems s) q ys n" for q ys n
        using e(1) by (induction ys arbitrary: q) auto
      then have "table_list ?t xs" using xs(1) by (simp add: table_list_def b)
      moreover have "dom (elems ?t) = dom (elems s)" using e(1) by auto
      ultimately have "hash_inv ?t" using xs fr put by (auto simp: hash_inv_def)
      then show ?thesis using t a put False by auto
    qed
  next
    case None
    then have "\<forall>x e. content s x = Some e \<longrightarrow> key_of e \<noteq> fold_case key" using r(2) by (simp only: option.case)
    then have n: "\<And>x e. content s x = Some e \<Longrightarrow> key_of e \<noteq> fold_case key" by blast
    then have a: "hash_abs s (fold_case key) = None" unfolding hash_abs_def by (rule cmap_None)
    show ?thesis
    proof (cases "d = 0 \<or> \<not> ok")
      case True
      then show ?thesis using None r(1) a assms(1) by (auto simp: sqlite3HashInsert_def fun_upd_idem)
    next
      case False
      let ?s = "s\<lparr>hcount := hcount s + 1\<rparr>"
      have s1: "table_list ?s xs" "dom (elems ?s) = set xs" "content_ok (content ?s)"
        using xs c by (simp_all add: table_list_def bucket_of_def content_def)
      have "\<exists>u ys. (if hcount ?s \<ge> 5 \<and> hcount ?s > 2 * length (ht ?s) then rehash ?s (hcount ?s * 3) alloc else Some ?s) = Some u \<and>
        table_list u ys \<and> set ys = set xs \<and> hcount u = hcount ?s \<and> fresh u = fresh ?s \<and> content u = content ?s"
        using rehash_ok [OF s1, of "hcount ?s * 3" alloc] s1(1) by auto
      then obtain u ys where u: "(if hcount ?s \<ge> 5 \<and> hcount ?s > 2 * length (ht ?s) then rehash ?s (hcount ?s * 3) alloc else Some ?s) = Some u"
        "table_list u ys" "set ys = set xs" "hcount u = hcount s + 1" "fresh u = fresh s" "content u = content s"
        by (auto simp: content_def fun_eq_iff)
      let ?new = "fresh s"
      let ?v = "u\<lparr>fresh := ?new + 1,
        elems := (elems u)(?new \<mapsto> \<lparr>he_next = None, he_prev = None, he_data = d, he_pKey = key, he_h = strHash key\<rparr>)\<rparr>"
      have newn: "?new \<notin> set ys" using fr xs(2) u(3) by auto
      have cs: "content s ?new = None" using newn u(3) xs(2) dom_content [of s] by blast
      have cv: "content ?v = (content s)(?new \<mapsto> (d, key, strHash key))" using u(6) by (auto simp: content_def fun_eq_iff)
      have put: "content_ok (content ?v) \<and> hash_abs ?v = (hash_abs s)(fold_case key \<mapsto> d)"
        unfolding hash_abs_def cv using False assms(2) cs n by (intro content_put [OF c]) auto
      have tv: "table_list ?v ys"
      proof -
        have lv: "links (elems ?v) None ys None = links (elems u) None ys None" using newn by simp
        have "buckets (bucket_of ?v) (ht u) gs" if "buckets (bucket_of u) (ht u) gs" "ys = flat gs" for gs
        proof -
          have "bucket_of ?v x = bucket_of u x" if "x \<in> set ys" for x
          proof -
            have "length (ht ?v) = length (ht u)" "x \<noteq> ?new" using that newn by auto
            then show ?thesis unfolding bucket_of_def cv u(6) by (simp add: bucket_no_def)
          qed
          then have "bucket_of u x = bucket_of ?v x" if "x \<in> set (flat gs)" for x using that \<open>ys = flat gs\<close> by metis
          from buckets_cong [OF this that(1)] show ?thesis .
        qed
        then show ?thesis using u(2) lv by (auto simp: table_list_def)
      qed
      have bn: "unat (strHash key) mod length (ht u) = bucket_of ?v ?new" unfolding bucket_of_def cv by (simp add: bucket_no_def)
      from insert_into [OF tv, of ?new "if ht u = [] then None else Some (bucket_of ?v ?new)"] newn
      obtain t zs where t: "insertElement ?v (if ht u = [] then None else Some (bucket_of ?v ?new)) ?new = Some t"
        "table_list t zs" "set zs = insert ?new (set ys)" "hcount t = hcount u" "fresh t = ?new + 1" "content t = content ?v"
        by auto
      have ins: "sqlite3HashInsert s key d ok alloc = Some (t, 0)"
        using None r(1) False u(1) t(1) unfolding sqlite3HashInsert_def Let_def
        by (cases "ht u = []") (simp_all add: bn)
      have dt: "dom (elems t) = set zs"
      proof -
        have "dom (elems t) = dom (content ?v)" unfolding dom_content t(6) ..
        also have "\<dots> = insert ?new (dom (elems s))" unfolding cv dom_content by simp
        finally show ?thesis using t(3) u(3) xs(2) by simp
      qed
      have "length zs = hcount t"
      proof -
        have "distinct zs" "distinct xs" using t(2) xs(1) by (simp_all add: table_list_def)
        then have "length zs = card (set zs)" "length xs = card (set xs)" by (simp_all add: distinct_card)
        then show ?thesis using t(3,4) u(3,4) newn xs(3) by simp
      qed
      moreover have "\<forall>x \<in> dom (elems t). x < fresh t" using fr xs(2) u(3) by (auto simp: dt t(3,5))
      ultimately have "hash_inv t" using t(2,6) dt put by (auto simp: hash_inv_def)
      moreover have "hash_abs t = hash_abs ?v" by (simp add: hash_abs_def t(6))
      ultimately show ?thesis using ins a put False by auto
    qed
  qed
qed

section \<open>Refinement\<close>

text \<open>The specification: a map from strings up to case. An insertion carries the outcomes of its
  allocations.\<close>

datatype hash_op = HashInsert bytes nat bool "nat option" | HashFind bytes

fun hash_step :: "hash \<Rightarrow> hash_op \<Rightarrow> (hash \<times> nat) option" where
  "hash_step s (HashInsert k d ok alloc) = sqlite3HashInsert s k d ok alloc"
| "hash_step s (HashFind k) = map_option (Pair s) (sqlite3HashFind s k)"

fun map_step :: "(int list \<Rightarrow> nat option) \<Rightarrow> hash_op \<Rightarrow> (int list \<Rightarrow> nat option) \<times> nat" where
  "map_step m (HashInsert k d ok alloc) =
     (case m (fold_case k) of
        Some old \<Rightarrow> (m(fold_case k := (if d = 0 then None else Some d)), old)
      | None \<Rightarrow> if d = 0 then (m, 0) else if ok then (m(fold_case k \<mapsto> d), 0) else (m, d))"
| "map_step m (HashFind k) = (m, case m (fold_case k) of None \<Rightarrow> 0 | Some d \<Rightarrow> d)"

fun hash_op_ok :: "hash_op \<Rightarrow> bool" where
  "hash_op_ok (HashInsert k d ok alloc) = nul_free k"
| "hash_op_ok (HashFind k) = nul_free k"

lemma hash_step_ok:
  assumes "hash_inv s" "hash_op_ok x"
  shows "\<exists>t. hash_step s x = Some (t, snd (map_step (hash_abs s) x)) \<and> hash_inv t \<and>
    hash_abs t = fst (map_step (hash_abs s) x)"
proof (cases x)
  case (HashInsert k d ok alloc)
  then have "nul_free k" using assms(2) by simp
  from insert_ok [OF assms(1) this, of d ok alloc] show ?thesis
    by (auto simp: HashInsert fun_upd_idem split: option.splits)
next
  case (HashFind k)
  then have "nul_free k" using assms(2) by simp
  from findElement_ok [OF assms(1) this] obtain r where r: "findElementWithHash s k = Some (r, strHash k)"
    "case r of None \<Rightarrow> \<forall>x e. content s x = Some e \<longrightarrow> key_of e \<noteq> fold_case k
     | Some p \<Rightarrow> \<exists>d k'. content s p = Some (d, k', strHash k') \<and> fold_case k' = fold_case k" by blast
  have c: "content_ok (content s)" using assms(1) by (simp add: hash_inv_def)
  show ?thesis
  proof (cases r)
    case None
    then have "\<forall>x e. content s x = Some e \<longrightarrow> key_of e \<noteq> fold_case k" using r(2) by (simp only: option.case)
    then have "hash_abs s (fold_case k) = None" unfolding hash_abs_def by (intro cmap_None) blast
    then show ?thesis using r(1) None assms(1) by (simp add: HashFind sqlite3HashFind_def)
  next
    case (Some p)
    then obtain d k' where p: "content s p = Some (d, k', strHash k')" "fold_case k' = fold_case k" using r(2) by auto
    then have "hash_abs s (fold_case k) = Some d" using cmap_Some [OF c p(1)] by (simp add: hash_abs_def)
    moreover obtain e where "elems s p = Some e" "he_data e = d"
      using p(1) by (cases "elems s p") (auto simp: content_def)
    ultimately show ?thesis using r(1) Some assms(1) by (simp add: HashFind sqlite3HashFind_def)
  qed
qed

interpretation hash_table: bounded_simulation hash_step map_step hash_abs hash_inv hash_op_ok "\<lambda>_. 0" n for n
  using hash_step_ok by unfold_locales blast

lemma init_ok: "hash_inv sqlite3HashInit \<and> hash_abs sqlite3HashInit = Map.empty"
proof -
  have c: "content sqlite3HashInit = Map.empty" by (simp add: content_def sqlite3HashInit_def fun_eq_iff)
  have "hash_abs sqlite3HashInit = Map.empty" unfolding hash_abs_def c by (intro ext cmap_None) simp
  moreover have "table_list sqlite3HashInit []" by (simp add: table_list_def sqlite3HashInit_def)
  moreover have "content_ok (content sqlite3HashInit)" unfolding c by (simp add: content_ok_def)
  ultimately show ?thesis by (simp add: hash_inv_def sqlite3HashInit_def)
qed

section \<open>Properties\<close>

text \<open>
  C14. Every run of insertions, replacements, removals and searches on a hash table, whatever
  allocations fail and however large the blocks that the allocator returns, answers as a map from
  keys up to case, and never follows a pointer to an element that is not allocated.
\<close>

theorem hash_refines_map:
  assumes "list_all hash_op_ok xs"
  shows "run_ops hash_step sqlite3HashInit xs = Some (spec_ops map_step Map.empty xs)"
  using hash_table.run_refines [of sqlite3HashInit xs "length xs"] init_ok assms by simp

theorem hash_refines_map_witness:
  "run_ops hash_step sqlite3HashInit
     [HashInsert [0x41] 7 True None, HashInsert [0x62] 8 True (Some 3), HashInsert [0x61] 9 False None,
      HashFind [0x41], HashInsert [0x61] 0 True None, HashFind [0x41], HashFind [0x42]] = Some [0, 0, 7, 9, 9, 0, 8]"
proof -
  have f: "fold_case [0x41] = [97]" "fold_case [0x61] = [97]" "fold_case [0x42] = [98]" "fold_case [0x62] = [98]"
    by code_simp+
  show ?thesis by (subst hash_refines_map) (simp_all add: f)
qed

text \<open>
  C32. Every insertion or removal keeps the shape of the table: one doubly linked list of exactly
  the allocated elements, each key once up to case, the count equal to its length, and every
  bucket a run of that list. Emptying the table frees every element.
\<close>

theorem hash_insert_keeps_shape:
  assumes "hash_inv s" "nul_free key"
  shows "\<exists>t r. sqlite3HashInsert s key d ok alloc = Some (t, r) \<and> hash_inv t \<and>
    (\<exists>u. sqlite3HashClear t = Some u \<and> elems u = Map.empty \<and> hcount u = 0)"
  using insert_ok [OF assms] clear_ok by blast

theorem hash_insert_keeps_shape_witness:
  "\<exists>t r. sqlite3HashInsert sqlite3HashInit [0x41] 7 True None = Some (t, r) \<and> hash_inv t"
  using hash_insert_keeps_shape [of sqlite3HashInit "[0x41]" 7 True None] init_ok by auto

end
