(* ===== verification/Wal_Frame.thy ===== *)
theory Wal_Frame
  imports Varint
begin

text \<open>
  The frames of the write-ahead log of SQLite (wal.c). Slung opens its store with
  \<open>journal_mode=WAL\<close>, so a page of module data reaches the disk as the content of a frame: 24
  bytes of header and then the page. The header carries a running checksum over every frame
  before it, which is what recovery after a crash trusts. The host is little-endian
  (\<open>SQLITE_BIGENDIAN\<close> is 0), as on every target the build files name.
\<close>

section \<open>Model\<close>

subsection \<open>Checksum\<close>

definition BYTESWAP32 :: "u32 \<Rightarrow> u32" where
  "BYTESWAP32 x = push_bit 24 (x AND 0x000000ff) + push_bit 8 (x AND 0x0000ff00) +
     drop_bit 8 (x AND 0x00ff0000) + drop_bit 24 (x AND 0xff000000)"

text \<open>Reading through \<open>u32 *aData = (u32 *)a\<close>.\<close>

definition native32 :: "u8 \<Rightarrow> u8 \<Rightarrow> u8 \<Rightarrow> u8 \<Rightarrow> u32" where
  "native32 b0 b1 b2 b3 = push_bit 24 (ucast b3) OR push_bit 16 (ucast b2) OR push_bit 8 (ucast b1) OR ucast b0"

fun aData :: "bytes \<Rightarrow> u32 list" where
  "aData (b0 # b1 # b2 # b3 # r) = native32 b0 b1 b2 b3 # aData r"
| "aData r = []"

fun cksum_swap :: "u32 \<Rightarrow> u32 \<Rightarrow> u32 list \<Rightarrow> u32 \<times> u32" where
  "cksum_swap s1 s2 (x # y # r) =
     (let s1 = s1 + BYTESWAP32 x + s2; s2 = s2 + BYTESWAP32 y + s1 in cksum_swap s1 s2 r)"
| "cksum_swap s1 s2 r = (s1, s2)"

fun cksum_pair :: "u32 \<Rightarrow> u32 \<Rightarrow> u32 list \<Rightarrow> u32 \<times> u32" where
  "cksum_pair s1 s2 (x # y # r) = (let s1 = s1 + x + s2; s2 = s2 + y + s1 in cksum_pair s1 s2 r)"
| "cksum_pair s1 s2 r = (s1, s2)"

text \<open>The loop for multiples of 64 bytes, unrolled eight times.\<close>

function cksum_64 :: "u32 \<Rightarrow> u32 \<Rightarrow> u32 list \<Rightarrow> u32 \<times> u32" where
  "cksum_64 s1 s2 d =
     (if length d < 16 then (s1, s2)
      else (let s1 = s1 + d ! 0 + s2; s2 = s2 + d ! 1 + s1; s1 = s1 + d ! 2 + s2; s2 = s2 + d ! 3 + s1;
                s1 = s1 + d ! 4 + s2; s2 = s2 + d ! 5 + s1; s1 = s1 + d ! 6 + s2; s2 = s2 + d ! 7 + s1;
                s1 = s1 + d ! 8 + s2; s2 = s2 + d ! 9 + s1; s1 = s1 + d ! 10 + s2; s2 = s2 + d ! 11 + s1;
                s1 = s1 + d ! 12 + s2; s2 = s2 + d ! 13 + s1; s1 = s1 + d ! 14 + s2; s2 = s2 + d ! 15 + s1
            in cksum_64 s1 s2 (drop 16 d)))"
  by pat_completeness auto
termination
  by (relation "measure (\<lambda>(s1, s2, d). length d)") auto

declare cksum_64.simps [simp del]

definition walChecksumBytes :: "bool \<Rightarrow> bytes \<Rightarrow> u32 \<times> u32 \<Rightarrow> u32 \<times> u32" where
  "walChecksumBytes nativeCksum a aIn =
     (if \<not> nativeCksum then cksum_swap (fst aIn) (snd aIn) (aData a)
      else if length a mod 64 = 0 then cksum_64 (fst aIn) (snd aIn) (aData a)
      else cksum_pair (fst aIn) (snd aIn) (aData a))"

subsection \<open>The log\<close>

text \<open>The connection's copy of the wal-index header; \<open>aSalt\<close> is its eight bytes in memory.\<close>

record wal_index_hdr =
  iChange :: u32
  bigEndCksum :: u8
  hszPage :: u16
  mxFrame :: nat
  nPage :: u32
  aFrameCksum :: "u32 \<times> u32"
  aSalt :: bytes

record wal =
  hdr :: wal_index_hdr
  szPage :: u32
  nCkpt :: u32
  iReCksum :: nat
  minFrame :: nat

abbreviation hdr_upd :: "(wal_index_hdr \<Rightarrow> wal_index_hdr) \<Rightarrow> wal \<Rightarrow> wal" where
  "hdr_upd f w \<equiv> w\<lparr>hdr := f (hdr w)\<rparr>"

abbreviation nativeCksum :: "wal \<Rightarrow> bool" where
  "nativeCksum w \<equiv> bigEndCksum (hdr w) = 0"

text \<open>\<open>walEncodeFrame\<close> and \<open>walDecodeFrame\<close> both leave the running checksum in the connection's
  header, the second one even for a frame that it rejects.\<close>

definition walEncodeFrame :: "wal \<Rightarrow> u32 \<Rightarrow> u32 \<Rightarrow> bytes \<Rightarrow> wal \<times> bytes" where
  "walEncodeFrame pWal iPage nTruncate data =
     (let f0 = sqlite3Put4byte iPage @ sqlite3Put4byte nTruncate
      in if iReCksum pWal = 0
         then (let aCksum = walChecksumBytes (nativeCksum pWal) f0 (aFrameCksum (hdr pWal));
                   aCksum = walChecksumBytes (nativeCksum pWal) (take (unat (szPage pWal)) data) aCksum
               in (hdr_upd (\<lambda>h. h\<lparr>aFrameCksum := aCksum\<rparr>) pWal,
                   f0 @ aSalt (hdr pWal) @ sqlite3Put4byte (fst aCksum) @ sqlite3Put4byte (snd aCksum)))
         else (pWal, f0 @ replicate 16 0))"

definition walDecodeFrame :: "wal \<Rightarrow> bytes \<Rightarrow> bytes \<Rightarrow> wal \<times> (u32 \<times> u32) option" where
  "walDecodeFrame pWal data aFrame =
     (if take 8 (drop 8 aFrame) \<noteq> aSalt (hdr pWal) then (pWal, None)
      else (let pgno = the (sqlite3Get4byte aFrame)
            in if pgno = 0 then (pWal, None)
               else if szPage pWal = 0 then (pWal, None)
               else (let aCksum = walChecksumBytes (nativeCksum pWal) (take 8 aFrame) (aFrameCksum (hdr pWal));
                         aCksum = walChecksumBytes (nativeCksum pWal) (take (unat (szPage pWal)) data) aCksum;
                         w = hdr_upd (\<lambda>h. h\<lparr>aFrameCksum := aCksum\<rparr>) pWal
                     in if Some (fst aCksum) \<noteq> sqlite3Get4byte (drop 16 aFrame) \<or>
                           Some (snd aCksum) \<noteq> sqlite3Get4byte (drop 20 aFrame)
                        then (w, None)
                        else (w, Some (pgno, the (sqlite3Get4byte (drop 4 aFrame)))))))"

section \<open>The checksum is a fold over the words\<close>

text \<open>The words of a block in either byte order, and the recurrence of the file format.\<close>

fun block_words :: "bool \<Rightarrow> bytes \<Rightarrow> u32 list" where
  "block_words native (b0 # b1 # b2 # b3 # r) =
     (if native then native32 b0 b1 b2 b3 else native32 b3 b2 b1 b0) # block_words native r"
| "block_words native r = []"

fun word_pairs :: "u32 list \<Rightarrow> (u32 \<times> u32) list" where
  "word_pairs (x # y # r) = (x, y) # word_pairs r"
| "word_pairs r = []"

definition checksum_step :: "u32 \<times> u32 \<Rightarrow> u32 \<times> u32 \<Rightarrow> u32 \<times> u32" where
  "checksum_step w s = (let s1 = fst s + fst w + snd s in (s1, snd s + snd w + s1))"

definition checksum_ref :: "bool \<Rightarrow> bytes \<Rightarrow> u32 \<times> u32 \<Rightarrow> u32 \<times> u32" where
  "checksum_ref native a s = fold checksum_step (word_pairs (block_words native a)) s"

lemma mask_shift:
  "(x :: u32) AND 0xff = take_bit 8 x" "x AND 0xff00 = push_bit 8 (take_bit 8 (drop_bit 8 x))"
  "x AND 0xff0000 = push_bit 16 (take_bit 8 (drop_bit 16 x))" "x AND 0xff000000 = push_bit 24 (take_bit 8 (drop_bit 24 x))"
  by (rule u32_bitI, simp add: bit_simps)+

lemma BYTESWAP32_disjoint: "BYTESWAP32 x = push_bit 24 (x AND 0xff) OR push_bit 8 (x AND 0xff00) OR
  drop_bit 8 (x AND 0xff0000) OR drop_bit 24 (x AND 0xff000000)"
  unfolding BYTESWAP32_def mask_shift by (subst disjunctive_add, force simp: bit_simps)+ (simp add: ac_simps)

lemma BYTESWAP32_native: "BYTESWAP32 (native32 b0 b1 b2 b3) = native32 b3 b2 b1 b0"
  unfolding BYTESWAP32_disjoint native32_def by (rule u32_bitI) (simp add: bit_simps word_high_bit)

lemma block_words_native: "block_words True a = aData a"
  by (induction a rule: aData.induct) auto

lemma block_words_swapped: "block_words False a = map BYTESWAP32 (aData a)"
  by (induction a rule: aData.induct) (auto simp: BYTESWAP32_native)

lemma cksum_swap_fold: "cksum_swap s1 s2 d = fold checksum_step (word_pairs (map BYTESWAP32 d)) (s1, s2)"
  by (induction s1 s2 d rule: cksum_swap.induct) (auto simp: checksum_step_def Let_def)

lemma cksum_pair_fold: "cksum_pair s1 s2 d = fold checksum_step (word_pairs d) (s1, s2)"
  by (induction s1 s2 d rule: cksum_pair.induct) (auto simp: checksum_step_def Let_def)

lemma sixteen:
  assumes "16 \<le> length d"
  obtains x0 x1 x2 x3 x4 x5 x6 x7 x8 x9 xa xb xc xd xe xf r where
    "d = x0 # x1 # x2 # x3 # x4 # x5 # x6 # x7 # x8 # x9 # xa # xb # xc # xd # xe # xf # r"
  using assms by (auto simp: numeral_eq_Suc Suc_le_length_iff)

lemma cksum_64_pair: "length d mod 16 = 0 \<Longrightarrow> cksum_64 s1 s2 d = cksum_pair s1 s2 d"
proof (induction "length d" arbitrary: s1 s2 d rule: less_induct)
  case less
  show ?case
  proof (cases "length d < 16")
    case True
    with less.prems have "d = []" by simp
    then show ?thesis by (simp add: cksum_64.simps)
  next
    case False
    then have "16 \<le> length d" by simp
    then obtain x0 x1 x2 x3 x4 x5 x6 x7 x8 x9 xa xb xc xd xe xf r where
      d: "d = x0 # x1 # x2 # x3 # x4 # x5 # x6 # x7 # x8 # x9 # xa # xb # xc # xd # xe # xf # r"
      by (rule sixteen)
    have nths: "d ! 0 = x0" "d ! 1 = x1" "d ! 2 = x2" "d ! 3 = x3" "d ! 4 = x4" "d ! 5 = x5" "d ! 6 = x6" "d ! 7 = x7"
      "d ! 8 = x8" "d ! 9 = x9" "d ! 10 = xa" "d ! 11 = xb" "d ! 12 = xc" "d ! 13 = xd" "d ! 14 = xe" "d ! 15 = xf"
      "drop 16 d = r" by (simp_all add: d)
    have "length r mod 16 = 0" "length r < length d" using less.prems by (simp_all add: d)
    then have IH: "cksum_64 a b r = cksum_pair a b r" for a b using less.hyps by simp
    have "cksum_pair s1 s2 d = cksum_pair s1 s2 (x0 # x1 # x2 # x3 # x4 # x5 # x6 # x7 # x8 # x9 # xa # xb # xc # xd # xe # xf # r)"
      by (simp only: d)
    also have "\<dots> = cksum_64 s1 s2 d"
      using False by (subst cksum_64.simps) (simp only: nths cksum_pair.simps IH if_False)
    finally show ?thesis ..
  qed
qed

lemma length_aData: "length (aData a) = length a div 4"
  by (induction a rule: aData.induct) auto

lemma checksum_eq_ref:
  assumes "length a mod 8 = 0"
  shows "walChecksumBytes native a s = checksum_ref native a s"
proof -
  have "length a mod 64 = 0 \<Longrightarrow> length (aData a) mod 16 = 0" unfolding length_aData by presburger
  then show ?thesis
    by (cases s) (auto simp: walChecksumBytes_def checksum_ref_def block_words_native block_words_swapped
        cksum_64_pair cksum_pair_fold cksum_swap_fold)
qed

lemma mod4: "Suc (Suc (Suc (Suc n))) mod 4 = n mod 4" "Suc (Suc (Suc 0)) mod 4 = 3" for n :: nat
  by presburger+

lemma checksum_append:
  assumes "length a mod 8 = 0"
  shows "checksum_ref native (a @ b) s = checksum_ref native b (checksum_ref native a s)"
proof -
  have w: "block_words native (a @ b) = block_words native a @ block_words native b" if "length a mod 4 = 0" for a
    using that by (induction native a rule: block_words.induct) (auto simp: mod4)
  have p: "word_pairs (c @ d) = word_pairs c @ word_pairs d" if "length c mod 2 = 0" for c d
    using that by (induction c rule: word_pairs.induct) auto
  have "length (block_words native a) = length a div 4" for a
    by (induction native a rule: block_words.induct) auto
  then have "length (block_words native a) mod 2 = 0" using assms by presburger
  moreover have "length a mod 4 = 0" using assms by presburger
  ultimately show ?thesis by (simp add: checksum_ref_def w p)
qed

section \<open>Frames\<close>

lemma length_put4 [simp]: "length (sqlite3Put4byte v) = 4"
  by (simp add: sqlite3Put4byte_def)

lemma get4_put4_end: "sqlite3Get4byte (sqlite3Put4byte v) = Some v"
  using get4_put4 [of v "[]"] by simp

text \<open>The checksum of a frame's first eight bytes and of its page.\<close>

definition frame_cksum :: "bool \<Rightarrow> nat \<Rightarrow> u32 \<Rightarrow> u32 \<Rightarrow> bytes \<Rightarrow> u32 \<times> u32 \<Rightarrow> u32 \<times> u32" where
  "frame_cksum native n pgno nTruncate data c =
     walChecksumBytes native (take n data) (walChecksumBytes native (sqlite3Put4byte pgno @ sqlite3Put4byte nTruncate) c)"

definition frame_header :: "u32 \<Rightarrow> u32 \<Rightarrow> bytes \<Rightarrow> u32 \<times> u32 \<Rightarrow> bytes" where
  "frame_header pgno nTruncate salt c =
     sqlite3Put4byte pgno @ sqlite3Put4byte nTruncate @ salt @ sqlite3Put4byte (fst c) @ sqlite3Put4byte (snd c)"

lemma length_frame_header: "length salt = 8 \<Longrightarrow> length (frame_header pgno nTruncate salt c) = 24"
  by (simp add: frame_header_def)

lemma encode_frame:
  assumes "iReCksum w = 0"
    and "c = frame_cksum (nativeCksum w) (unat (szPage w)) pgno nTruncate data (aFrameCksum (hdr w))"
  shows "walEncodeFrame w pgno nTruncate data =
    (hdr_upd (\<lambda>h. h\<lparr>aFrameCksum := c\<rparr>) w, frame_header pgno nTruncate (aSalt (hdr w)) c)"
  using assms by (simp add: walEncodeFrame_def frame_cksum_def frame_header_def Let_def)

lemma decode_frame:
  assumes "length (aSalt (hdr w)) = 8" "pgno \<noteq> 0" "szPage w \<noteq> 0"
  shows "walDecodeFrame w data (frame_header pgno nTruncate (aSalt (hdr w)) d) =
    (hdr_upd (\<lambda>h. h\<lparr>aFrameCksum := frame_cksum (nativeCksum w) (unat (szPage w)) pgno nTruncate data (aFrameCksum (hdr w))\<rparr>) w,
     if frame_cksum (nativeCksum w) (unat (szPage w)) pgno nTruncate data (aFrameCksum (hdr w)) = d
     then Some (pgno, nTruncate) else None)"
proof -
  let ?f = "frame_header pgno nTruncate (aSalt (hdr w)) d"
  have a: "take 8 (drop 8 ?f) = aSalt (hdr w)" "take 8 ?f = sqlite3Put4byte pgno @ sqlite3Put4byte nTruncate"
    "drop 16 ?f = sqlite3Put4byte (fst d) @ sqlite3Put4byte (snd d)" "drop 20 ?f = sqlite3Put4byte (snd d)"
    "drop 4 ?f = sqlite3Put4byte nTruncate @ (aSalt (hdr w) @ sqlite3Put4byte (fst d) @ sqlite3Put4byte (snd d))"
    using assms(1) by (simp_all add: frame_header_def sqlite3Put4byte_def)
  have b: "sqlite3Get4byte ?f = Some pgno" unfolding frame_header_def by (rule get4_put4)
  show ?thesis
    unfolding walDecodeFrame_def a b get4_put4 get4_put4_end option.sel
    using assms(2,3) by (cases d) (auto simp: Let_def frame_cksum_def prod_eq_iff)
qed

section \<open>Properties\<close>

text \<open>
  C33. On a block of a whole number of eight-byte groups, each of the three loops of
  \<open>walChecksumBytes\<close> computes the recurrence of the file format over the block's words in the byte
  order of the log, and the checksum of two blocks is that of the second continued from the first.
\<close>

theorem wal_checksum_reference:
  assumes "length a mod 8 = 0" "length b mod 8 = 0"
  shows "walChecksumBytes native a s = checksum_ref native a s \<and>
    checksum_ref native (a @ b) s = walChecksumBytes native b (walChecksumBytes native a s)"
  by (simp only: checksum_eq_ref [OF assms(1)] checksum_eq_ref [OF assms(2)] checksum_append [OF assms(1)])

theorem wal_checksum_reference_witness:
  "walChecksumBytes False [0, 0, 0, 1, 0, 0, 0, 2] (0, 0) = (1, 3)"
proof -
  have "walChecksumBytes False [0, 0, 0, 1, 0, 0, 0, 2] (0, 0) = checksum_ref False [0, 0, 0, 1, 0, 0, 0, 2] (0, 0)"
    by (rule wal_checksum_reference [of _ "[]", THEN conjunct1]) simp_all
  also have "\<dots> = (1, 3)" by (simp add: checksum_ref_def checksum_step_def native32_def)
  finally show ?thesis .
qed

text \<open>
  C34. A frame header that \<open>walEncodeFrame\<close> writes is accepted by \<open>walDecodeFrame\<close> in the same
  state, gives back the page number and the commit size, and leaves both connections with the same
  running checksum.
\<close>

theorem wal_frame_roundtrip:
  assumes "iReCksum w = 0" "length (aSalt (hdr w)) = 8" "pgno \<noteq> 0" "szPage w \<noteq> 0"
    and "walEncodeFrame w pgno nTruncate data = (w', aFrame)"
  shows "length aFrame = 24 \<and> walDecodeFrame w data aFrame = (w', Some (pgno, nTruncate))"
  using assms by (auto simp: encode_frame decode_frame length_frame_header)

theorem wal_frame_roundtrip_witness:
  "\<exists>w' f. walDecodeFrame \<lparr>hdr = \<lparr>iChange = 0, bigEndCksum = 0, hszPage = 0, mxFrame = 0, nPage = 0, aFrameCksum = (3, 4),
      aSalt = replicate 8 1\<rparr>, szPage = 8, nCkpt = 0, iReCksum = 0, minFrame = 1\<rparr> (replicate 8 5) f = (w', Some (2, 7))"
  (is "\<exists>w' f. walDecodeFrame ?w ?d f = _")
proof -
  obtain w' f where "walEncodeFrame ?w 2 7 ?d = (w', f)" by fastforce
  from wal_frame_roundtrip [OF _ _ _ _ this] show ?thesis by auto
qed

end
