(* ===== verification/Wal_Index.thy ===== *)
theory Wal_Index
  imports Wal_Frame Probing
begin

text \<open>
  The wal-index of SQLite (wal.c): which frame of the log holds the newest version of a page. It
  is a sequence of tables of 32 kilobytes; each lists the page numbers of 4096 consecutive frames
  (the first of 4062) and hashes them into 8192 slots of frame numbers relative to the table. A
  table is reused without being cleared until its first frame is written again, and may hold
  remnants of a writer that died; the lemmas below hold for any such contents.
  A table that cannot be mapped is its error code. Frame numbers are naturals.
\<close>

section \<open>Model\<close>

datatype rc = SQLITE_OK | SQLITE_ERROR | SQLITE_BUSY | SQLITE_NOMEM | SQLITE_IOERR | SQLITE_CORRUPT
  | SQLITE_CANTOPEN | SQLITE_INTERRUPT

abbreviation (input) HASHTABLE_NPAGE :: nat where "HASHTABLE_NPAGE \<equiv> 4096"
abbreviation (input) HASHTABLE_NPAGE_ONE :: nat where "HASHTABLE_NPAGE_ONE \<equiv> 4062"
abbreviation (input) HASHTABLE_NSLOT :: nat where "HASHTABLE_NSLOT \<equiv> 8192"

record wi_page =
  aPgno :: "u32 list"
  aHash :: "nat list"

type_synonym wal_index = "nat \<Rightarrow> rc + wi_page"

definition walHash :: "u32 \<Rightarrow> nat" where
  "walHash iPage = unat ((iPage * 383) AND 8191)"

definition walNextHash :: "nat \<Rightarrow> nat" where
  "walNextHash iPriorHash = (iPriorHash + 1) AND (HASHTABLE_NSLOT - 1)"

definition iZero :: "nat \<Rightarrow> nat" where
  "iZero iHash = (if iHash = 0 then 0 else HASHTABLE_NPAGE_ONE + (iHash - 1) * HASHTABLE_NPAGE)"

definition walHashGet :: "wal_index \<Rightarrow> nat \<Rightarrow> rc + wi_page \<times> nat" where
  "walHashGet wi iHash =
     (case wi iHash of Inr pg \<Rightarrow> Inr (pg, iZero iHash)
      | Inl rc \<Rightarrow> Inl (if rc = SQLITE_OK then SQLITE_ERROR else rc))"

definition walFramePage :: "nat \<Rightarrow> nat" where
  "walFramePage iFrame = (iFrame + HASHTABLE_NPAGE - HASHTABLE_NPAGE_ONE - 1) div HASHTABLE_NPAGE"

definition walFramePgno :: "wal_index \<Rightarrow> nat \<Rightarrow> u32 option" where
  "walFramePgno wi iFrame =
     (let iHash = walFramePage iFrame
      in case wi iHash of Inl rc \<Rightarrow> None
         | Inr pg \<Rightarrow> Some (if iHash = 0 then aPgno pg ! (iFrame - 1)
                          else aPgno pg ! ((iFrame - 1 - HASHTABLE_NPAGE_ONE) mod HASHTABLE_NPAGE)))"

definition cleanup_page :: "nat \<Rightarrow> wi_page \<Rightarrow> wi_page" where
  "cleanup_page iLimit pg =
     \<lparr>aPgno = take iLimit (aPgno pg) @ replicate (length (aPgno pg) - iLimit) 0,
      aHash = map (\<lambda>v. if v > iLimit then 0 else v) (aHash pg)\<rparr>"

definition walCleanupHash :: "nat \<Rightarrow> wal_index \<Rightarrow> wal_index" where
  "walCleanupHash mxFr wi =
     (if mxFr = 0 then wi
      else case walHashGet wi (walFramePage mxFr) of
        Inl rc \<Rightarrow> wi
      | Inr (pg, z) \<Rightarrow> wi(walFramePage mxFr := Inr (cleanup_page (mxFr - z) pg)))"

fun append_loop :: "nat list \<Rightarrow> nat \<Rightarrow> nat \<Rightarrow> nat option" where
  "append_loop a iKey 0 = (if a ! iKey = 0 then Some iKey else None)"
| "append_loop a iKey (Suc nCollide) =
     (if a ! iKey = 0 then Some iKey else append_loop a (walNextHash iKey) nCollide)"

text \<open>\<open>mxFr\<close> is \<open>pWal->hdr.mxFrame\<close>, which a writer moves only after it has appended all its
  frames.\<close>

definition walIndexAppend :: "wal_index \<Rightarrow> nat \<Rightarrow> nat \<Rightarrow> u32 \<Rightarrow> wal_index \<times> rc" where
  "walIndexAppend wi mxFr iFrame iPage =
     (let p = walFramePage iFrame
      in case walHashGet wi p of
        Inl rc \<Rightarrow> (wi, rc)
      | Inr (pg, z) \<Rightarrow>
          (let idx = iFrame - z;
               pg = (if idx = 1
                     then \<lparr>aPgno = replicate (length (aPgno pg)) 0, aHash = replicate (length (aHash pg)) 0\<rparr>
                     else pg);
               wi = wi(p := Inr pg);
               wi = (if aPgno pg ! (idx - 1) \<noteq> 0 then walCleanupHash mxFr wi else wi)
           in case wi p of
             Inl rc \<Rightarrow> (wi, rc)
           | Inr pg \<Rightarrow>
               (case append_loop (aHash pg) (walHash iPage) idx of
                  None \<Rightarrow> (wi, SQLITE_CORRUPT)
                | Some iKey \<Rightarrow>
                    (wi(p := Inr \<lparr>aPgno = (aPgno pg)[(idx - 1) AND (HASHTABLE_NPAGE - 1) := iPage],
                                  aHash = (aHash pg)[iKey := idx]\<rparr>), SQLITE_OK))))"

text \<open>The search of one table.\<close>

fun find_slot_loop :: "wi_page \<Rightarrow> nat \<Rightarrow> nat \<Rightarrow> nat \<Rightarrow> u32 \<Rightarrow> nat \<Rightarrow> nat \<Rightarrow> nat \<Rightarrow> nat option" where
  "find_slot_loop pg z iLast minFr pgno iKey iRead nCollide =
     (let iH = aHash pg ! iKey
      in if iH = 0 then Some iRead
         else (let iFrame = iH + z;
                   iRead = (if iFrame \<le> iLast \<and> iFrame \<ge> minFr \<and>
                               aPgno pg ! ((iH - 1) AND (HASHTABLE_NPAGE - 1)) = pgno
                            then iFrame else iRead)
               in case nCollide of
                    0 \<Rightarrow> None
                  | Suc nCollide \<Rightarrow> find_slot_loop pg z iLast minFr pgno (walNextHash iKey) iRead nCollide))"

declare find_slot_loop.simps [simp del]

text \<open>The tables \<open>iMinHash + n - 1\<close> down to \<open>iMinHash\<close>.\<close>

fun find_tables :: "wal_index \<Rightarrow> nat \<Rightarrow> nat \<Rightarrow> u32 \<Rightarrow> nat \<Rightarrow> nat \<Rightarrow> rc + nat" where
  "find_tables wi iLast minFr pgno iMinHash 0 = Inr 0"
| "find_tables wi iLast minFr pgno iMinHash (Suc n) =
     (case walHashGet wi (iMinHash + n) of
        Inl rc \<Rightarrow> Inl rc
      | Inr (pg, z) \<Rightarrow>
          (case find_slot_loop pg z iLast minFr pgno (walHash pgno) 0 HASHTABLE_NSLOT of
             None \<Rightarrow> Inl SQLITE_CORRUPT
           | Some iRead \<Rightarrow> if iRead \<noteq> 0 then Inr iRead
                           else find_tables wi iLast minFr pgno iMinHash n))"

text \<open>\<open>noWal\<close> is \<open>pWal->readLock==0 && pWal->bShmUnreliable==0\<close>.\<close>

definition walFindFrame :: "wal_index \<Rightarrow> bool \<Rightarrow> nat \<Rightarrow> nat \<Rightarrow> u32 \<Rightarrow> rc + nat" where
  "walFindFrame wi noWal iLast minFr pgno =
     (if iLast = 0 \<or> noWal then Inr 0
      else find_tables wi iLast minFr pgno (walFramePage minFr)
             (walFramePage iLast + 1 - walFramePage minFr))"

section \<open>Slots\<close>

lemma walHash_less: "walHash p < 8192"
proof -
  have "(p * 383) AND 8191 = take_bit 13 (p * 383)" by (simp add: take_bit_eq_mask mask_eq_exp_minus_1)
  then show ?thesis by (simp add: walHash_def unsigned_take_bit_eq take_bit_nat_less_exp [of 13, simplified])
qed

lemma nat_and_mask: "(n :: nat) AND 8191 = n mod 8192" "n AND 4095 = n mod 4096"
  using take_bit_eq_mask [of 13 n] take_bit_eq_mask [of 12 n]
  by (simp_all add: mask_eq_exp_minus_1 take_bit_eq_mod)

lemma walNextHash_mod: "walNextHash k = (k + 1) mod 8192"
  by (simp add: walNextHash_def nat_and_mask)

text \<open>
  The slots of a table that lists \<open>qs\<close>: value \<open>v\<close> stands for entry \<open>v - 1\<close>, every value up to the
  length is in exactly one slot, and the slots from a value's hash to its own hold earlier values.
\<close>

definition dist :: "nat \<Rightarrow> nat \<Rightarrow> nat" where
  "dist h k = (k + 8192 - h) mod 8192"

definition slots_ok :: "nat list \<Rightarrow> u32 list \<Rightarrow> bool" where
  "slots_ok a qs \<longleftrightarrow> length a = 8192 \<and>
     (\<forall>k < 8192. a ! k \<noteq> 0 \<longrightarrow> a ! k \<le> length qs \<and>
        (\<forall>d < dist (walHash (qs ! (a ! k - 1))) k.
           a ! ((walHash (qs ! (a ! k - 1)) + d) mod 8192) \<noteq> 0 \<and>
           a ! ((walHash (qs ! (a ! k - 1)) + d) mod 8192) < a ! k)) \<and>
     (\<forall>k < 8192. \<forall>k' < 8192. a ! k \<noteq> 0 \<longrightarrow> a ! k = a ! k' \<longrightarrow> k = k') \<and>
     (\<forall>v. 1 \<le> v \<and> v \<le> length qs \<longrightarrow> (\<exists>k < 8192. a ! k = v))"

lemma slots_okD:
  assumes "slots_ok a qs"
  shows "length a = 8192"
    "k < 8192 \<Longrightarrow> a ! k \<noteq> 0 \<Longrightarrow> a ! k \<le> length qs"
    "k < 8192 \<Longrightarrow> a ! k \<noteq> 0 \<Longrightarrow> d < dist (walHash (qs ! (a ! k - 1))) k \<Longrightarrow>
       a ! ((walHash (qs ! (a ! k - 1)) + d) mod 8192) \<noteq> 0 \<and>
       a ! ((walHash (qs ! (a ! k - 1)) + d) mod 8192) < a ! k"
    "k < 8192 \<Longrightarrow> k' < 8192 \<Longrightarrow> a ! k \<noteq> 0 \<Longrightarrow> a ! k = a ! k' \<Longrightarrow> k = k'"
    "1 \<le> v \<Longrightarrow> v \<le> length qs \<Longrightarrow> \<exists>k < 8192. a ! k = v"
  using assms unfolding slots_ok_def by blast+

lemma dist_less: "dist h k < 8192" by (simp add: dist_def)

lemma dist_slot: "h < 8192 \<Longrightarrow> k < 8192 \<Longrightarrow> (h + dist h k) mod 8192 = k"
  unfolding dist_def by (rule cyclic_offset(2))

lemma dist_unique: "h < 8192 \<Longrightarrow> d < 8192 \<Longrightarrow> dist h ((h + d) mod 8192) = d"
  unfolding dist_def by (rule offset_unique)

lemma slot_inj:
  fixes h d e :: nat
  assumes "h < 8192" "d < 8192" "e < 8192" "(h + d) mod 8192 = (h + e) mod 8192"
  shows "d = e"
proof -
  have "d = dist h ((h + d) mod 8192)" using dist_unique [OF assms(1,2)] ..
  also have "\<dots> = dist h ((h + e) mod 8192)" by (simp only: assms(4))
  also have "\<dots> = e" by (rule dist_unique [OF assms(1,3)])
  finally show ?thesis .
qed

lemma run_le:
  assumes "slots_ok a qs" "h < 8192" "e \<le> 8192" "\<And>d. d < e \<Longrightarrow> a ! ((h + d) mod 8192) \<noteq> 0"
  shows "e \<le> length qs"
proof -
  let ?f = "\<lambda>d. a ! ((h + d) mod 8192)"
  have "inj_on ?f {..<e}"
  proof (rule inj_onI)
    fix d d' assume "d \<in> {..<e}" "d' \<in> {..<e}" "?f d = ?f d'"
    with assms(2-4) slots_okD(4) [OF assms(1), of "(h + d) mod 8192" "(h + d') mod 8192"] slot_inj [OF assms(2), of d d']
    show "d = d'" by auto
  qed
  moreover have "?f ` {..<e} \<subseteq> {1..length qs}"
    using assms(4) slots_okD(2) [OF assms(1)] by (force simp: Suc_le_eq)
  ultimately have "card {..<e} \<le> card {1..length qs}" by (metis card_inj_on_le finite_atLeastAtMost)
  then show ?thesis by simp
qed

lemma append_loop_ok:
  assumes "h < 8192"
  shows "(\<exists>d \<le> n. a ! ((h + d) mod 8192) = 0) \<Longrightarrow>
    \<exists>d \<le> n. append_loop a h n = Some ((h + d) mod 8192) \<and> a ! ((h + d) mod 8192) = 0 \<and>
      (\<forall>e < d. a ! ((h + e) mod 8192) \<noteq> 0)"
  using assms
proof (induction n arbitrary: h)
  case 0
  then show ?case by simp
next
  case (Suc n)
  show ?case
  proof (cases "a ! h = 0")
    case True
    then show ?thesis using Suc.prems(2) by (intro exI [of _ 0]) simp
  next
    case False
    let ?h = "walNextHash h"
    have shift: "(?h + d) mod 8192 = (h + Suc d) mod 8192" for d by (simp add: walNextHash_mod mod_simps)
    obtain d where "d \<le> Suc n" "a ! ((h + d) mod 8192) = 0" using Suc.prems(1) by blast
    with False Suc.prems(2) have "\<exists>d \<le> n. a ! ((?h + d) mod 8192) = 0"
      unfolding shift by (cases d) auto
    then obtain d where d: "d \<le> n" "append_loop a ?h n = Some ((?h + d) mod 8192)" "a ! ((?h + d) mod 8192) = 0"
      "\<forall>e < d. a ! ((?h + e) mod 8192) \<noteq> 0" using Suc.IH by (metis walNextHash_mod mod_less_divisor zero_less_numeral)
    have "\<forall>e < Suc d. a ! ((h + e) mod 8192) \<noteq> 0"
    proof (intro allI impI)
      fix e assume "e < Suc d"
      then show "a ! ((h + e) mod 8192) \<noteq> 0" using d(4) False Suc.prems(2) unfolding shift by (cases e) auto
    qed
    with d False show ?thesis unfolding shift by (intro exI [of _ "Suc d"]) simp
  qed
qed

lemma slots_insert:
  assumes "slots_ok a qs" "length qs < 8192"
  shows "\<exists>k < 8192. append_loop a (walHash p) (Suc (length qs)) = Some k \<and> a ! k = 0 \<and>
    slots_ok (a[k := Suc (length qs)]) (qs @ [p])"
proof -
  let ?h = "walHash p" and ?v = "Suc (length qs)"
  have h: "?h < 8192" by (rule walHash_less)
  have free: "\<exists>d \<le> ?v. a ! ((?h + d) mod 8192) = 0"
  proof (rule ccontr)
    assume "\<not> ?thesis"
    then have nz: "\<And>d. d < ?v \<Longrightarrow> a ! ((?h + d) mod 8192) \<noteq> 0" by auto
    have "?v \<le> length qs" by (rule run_le [OF assms(1) h _ nz]) (use assms(2) in simp_all)
    then show False by simp
  qed
  from append_loop_ok [OF h this] obtain d where d: "d \<le> ?v" "append_loop a ?h ?v = Some ((?h + d) mod 8192)"
    "a ! ((?h + d) mod 8192) = 0" "\<And>e. e < d \<Longrightarrow> a ! ((?h + e) mod 8192) \<noteq> 0" by blast
  have dl: "d \<le> length qs"
  proof (rule ccontr)
    assume "\<not> d \<le> length qs"
    with d(1) have "d = ?v" by simp
    have "d \<le> length qs" by (rule run_le [OF assms(1) h _ d(4)]) (use assms(2) \<open>d = ?v\<close> in simp_all)
    with \<open>d = ?v\<close> show False by simp
  qed
  let ?k = "(?h + d) mod 8192" and ?a = "a[(?h + d) mod 8192 := ?v]"
  have k: "?k < 8192" by simp
  note L = slots_okD(1) [OF assms(1)]
  have av: "?a ! j = (if j = ?k then ?v else a ! j)" if "j < 8192" for j using that L by (simp add: nth_list_update)
  have le: "a ! j \<le> length qs" if "j < 8192" for j using slots_okD(2) [OF assms(1) that] by (cases "a ! j = 0") auto
  have "slots_ok ?a (qs @ [p])"
    unfolding slots_ok_def
  proof (intro conjI allI impI)
    show "length ?a = 8192" using L by simp
  next
    fix j assume j: "j < 8192" "?a ! j \<noteq> 0"
    then show "?a ! j \<le> length (qs @ [p])" using le [OF j(1)] by (simp add: av)
    fix e assume e: "e < dist (walHash ((qs @ [p]) ! (?a ! j - 1))) j"
    let ?m = "(walHash ((qs @ [p]) ! (?a ! j - 1)) + e) mod 8192"
    have m: "?m < 8192" by simp
    show "?a ! ?m \<noteq> 0" "?a ! ?m < ?a ! j"
    proof (atomize (full), cases "j = ?k")
      case True
      then have q: "(qs @ [p]) ! (?a ! j - 1) = p" using j(1) by (simp add: av)
      then have "e < d" using e dist_unique [OF h, of d] dl assms(2) True by simp
      then have "a ! ((?h + e) mod 8192) \<noteq> 0" "(?h + e) mod 8192 \<noteq> ?k"
        using d(4) slot_inj [OF h, of e d] dl assms(2) by auto
      then show "?a ! ?m \<noteq> 0 \<and> ?a ! ?m < ?a ! j" unfolding q using le [of "(?h + e) mod 8192"] True by (simp add: av le_imp_less_Suc)
    next
      case False
      then have aj: "?a ! j = a ! j" "a ! j \<noteq> 0" using j by (simp_all add: av)
      have "a ! j - 1 < length qs" using slots_okD(2) [OF assms(1) j(1) aj(2)] aj(2) by linarith
      then have q: "(qs @ [p]) ! (?a ! j - 1) = qs ! (a ! j - 1)" unfolding aj(1) by (simp add: nth_append)
      have "a ! ?m \<noteq> 0 \<and> a ! ?m < a ! j" using slots_okD(3) [OF assms(1) j(1) aj(2)] e unfolding q .
      moreover from this have "?m \<noteq> ?k" using d(3) by metis
      ultimately show "?a ! ?m \<noteq> 0 \<and> ?a ! ?m < ?a ! j" using m by (simp only: av aj if_False simp_thms)
    qed
  next
    fix j j' assume j: "j < 8192" "j' < 8192" "?a ! j \<noteq> 0" "?a ! j = ?a ! j'"
    then show "j = j'" using slots_okD(4) [OF assms(1) j(1,2)] le [OF j(1)] le [OF j(2)] by (auto simp: av split: if_splits)
  next
    fix v assume v: "1 \<le> v \<and> v \<le> length (qs @ [p])"
    show "\<exists>j < 8192. ?a ! j = v"
    proof (cases "v = ?v")
      case True
      then show ?thesis using k av [OF k] by (intro exI [of _ ?k]) simp
    next
      case False
      with v obtain j where "j < 8192" "a ! j = v" using slots_okD(5) [OF assms(1), of v] by auto
      moreover from this have "j \<noteq> ?k" using d(3) v by auto
      ultimately show ?thesis using av by auto
    qed
  qed
  then show ?thesis using d(2,3) k by blast
qed

lemma slots_cleanup:
  assumes "slots_ok a (qs @ extra)"
  shows "slots_ok (map (\<lambda>v. if v > length qs then 0 else v) a) qs"
proof -
  note L = slots_okD(1) [OF assms]
  let ?a = "map (\<lambda>v. if v > length qs then 0 else v) a"
  have av: "?a ! j = (if a ! j > length qs then 0 else a ! j)" if "j < 8192" for j using that L by simp
  show ?thesis
    unfolding slots_ok_def
  proof (intro conjI allI impI)
    show "length ?a = 8192" using L by simp
  next
    fix j assume j: "j < 8192" "?a ! j \<noteq> 0"
    then have aj: "?a ! j = a ! j" "a ! j \<le> length qs" "a ! j \<noteq> 0" by (auto simp: av split: if_splits)
    then show "?a ! j \<le> length qs" by simp
    fix e assume e: "e < dist (walHash (qs ! (?a ! j - 1))) j"
    let ?m = "(walHash (qs ! (?a ! j - 1)) + e) mod 8192"
    have "a ! j - 1 < length qs" using aj by linarith
    then have q: "(qs @ extra) ! (a ! j - 1) = qs ! (?a ! j - 1)" unfolding aj(1) by (simp add: nth_append)
    have "a ! ?m \<noteq> 0 \<and> a ! ?m < a ! j" using slots_okD(3) [OF assms j(1) aj(3)] e unfolding q .
    moreover have "?a ! ?m = (if a ! ?m > length qs then 0 else a ! ?m)" by (rule av) simp
    ultimately show "?a ! ?m \<noteq> 0" "?a ! ?m < ?a ! j" using aj by auto
  next
    fix j j' assume j: "j < 8192" "j' < 8192" "?a ! j \<noteq> 0" "?a ! j = ?a ! j'"
    then show "j = j'" using slots_okD(4) [OF assms j(1,2)] by (auto simp: av split: if_splits)
  next
    fix v assume v: "1 \<le> v \<and> v \<le> length qs"
    then obtain j where "j < 8192" "a ! j = v" using slots_okD(5) [OF assms, of v] by auto
    then show "\<exists>j < 8192. ?a ! j = v" using v av by (intro exI [of _ j]) simp
  qed
qed

lemma slots_empty: "slots_ok (replicate 8192 0) []"
  unfolding slots_ok_def by simp

section \<open>The search of a table\<close>

text \<open>The newest of the first \<open>n\<close> entries of a table that a reader may use.\<close>

fun newest :: "(nat \<Rightarrow> bool) \<Rightarrow> nat \<Rightarrow> nat" where
  "newest P 0 = 0"
| "newest P (Suc n) = (if P (Suc n) then Suc n else newest P n)"

lemma newest_cases:
  obtains "newest P n = 0" "\<And>i. 1 \<le> i \<Longrightarrow> i \<le> n \<Longrightarrow> \<not> P i"
  | "1 \<le> newest P n" "newest P n \<le> n" "P (newest P n)" "\<And>i. newest P n < i \<Longrightarrow> i \<le> n \<Longrightarrow> \<not> P i"
proof (induction n arbitrary: thesis)
  case 0
  show ?case by (rule 0(1)) simp_all
next
  case (Suc n)
  show ?case
  proof (cases "P (Suc n)")
    case True
    show ?thesis by (rule Suc.prems(2)) (use True in simp_all)
  next
    case False
    show ?thesis
    proof (rule Suc.IH)
      assume "newest P n = 0" "\<And>i. 1 \<le> i \<Longrightarrow> i \<le> n \<Longrightarrow> \<not> P i"
      then show thesis using False by (intro Suc.prems(1)) (auto simp: le_Suc_eq)
    next
      assume "1 \<le> newest P n" "newest P n \<le> n" "P (newest P n)" "\<And>i. newest P n < i \<Longrightarrow> i \<le> n \<Longrightarrow> \<not> P i"
      then show thesis using False by (intro Suc.prems(2)) (auto simp: le_Suc_eq)
    qed
  qed
qed

text \<open>Whether slot value \<open>v\<close> is what the reader looks for.\<close>

abbreviation wanted :: "wi_page \<Rightarrow> nat \<Rightarrow> nat \<Rightarrow> nat \<Rightarrow> u32 \<Rightarrow> nat \<Rightarrow> bool" where
  "wanted pg z iLast minFr pgno v \<equiv>
     v + z \<le> iLast \<and> minFr \<le> v + z \<and> aPgno pg ! ((v - 1) AND 4095) = pgno"

text \<open>The loop sees the slots from the hash to the first free one, in order.\<close>

lemma find_loop_run:
  assumes "h < 8192" "d \<le> n" "aHash pg ! ((h + d) mod 8192) = 0" "\<And>e. e < d \<Longrightarrow> aHash pg ! ((h + e) mod 8192) \<noteq> 0"
  shows "find_slot_loop pg z iLast minFr pgno h r n =
    Some (fold (\<lambda>v r. if wanted pg z iLast minFr pgno v then v + z else r)
            (map (\<lambda>e. aHash pg ! ((h + e) mod 8192)) [0..<d]) r)"
  using assms
proof (induction d arbitrary: h r n)
  case 0
  then show ?case by (subst find_slot_loop.simps) (simp add: Let_def)
next
  case (Suc d)
  obtain m where n: "n = Suc m" "d \<le> m" using Suc.prems(2) by (cases n) auto
  let ?h = "walNextHash h"
  have shift: "(?h + e) mod 8192 = (h + Suc e) mod 8192" for e by (simp add: walNextHash_mod mod_simps)
  have nz: "aHash pg ! h \<noteq> 0" using Suc.prems(4) [of 0] Suc.prems(1) by simp
  have IH: "find_slot_loop pg z iLast minFr pgno ?h r' m =
    Some (fold (\<lambda>v r. if wanted pg z iLast minFr pgno v then v + z else r)
            (map (\<lambda>e. aHash pg ! ((?h + e) mod 8192)) [0..<d]) r')" for r'
  proof (rule Suc.IH)
    show "?h < 8192" by (simp add: walNextHash_mod)
    show "d \<le> m" by (rule n(2))
    show "aHash pg ! ((?h + d) mod 8192) = 0" unfolding shift by (rule Suc.prems(3))
    show "\<And>e. e < d \<Longrightarrow> aHash pg ! ((?h + e) mod 8192) \<noteq> 0" unfolding shift by (rule Suc.prems(4)) simp
  qed
  have split: "map (\<lambda>e. aHash pg ! ((h + e) mod 8192)) [0..<Suc d] =
    aHash pg ! h # map (\<lambda>e. aHash pg ! ((?h + e) mod 8192)) [0..<d]"
    unfolding shift using Suc.prems(1) by (simp add: upt_conv_Cons map_Suc_upt [symmetric] del: upt_Suc)
  show ?case unfolding split by (subst find_slot_loop.simps) (use nz n IH in \<open>simp add: Let_def\<close>)
qed

lemma fold_last:
  assumes "W m" "\<And>v. v \<in> set ys \<Longrightarrow> \<not> W v"
  shows "fold (\<lambda>v r. if W v then v + z else r) (xs @ m # ys) r = m + (z :: nat)"
proof -
  have "fold (\<lambda>v r. if W v then v + z else r) ys q = q" for q using assms(2) by (induction ys arbitrary: q) auto
  then show ?thesis using assms(1) by simp
qed

lemma fold_none: "(\<And>v. v \<in> set ys \<Longrightarrow> \<not> W v) \<Longrightarrow> fold (\<lambda>v r. if W v then v + z else r) ys r = (r :: nat)"
  by (induction ys arbitrary: r) auto

lemma find_table:
  assumes ok: "slots_ok (aHash pg) qs" and len: "length qs \<le> 4096"
    and W: "\<And>v. 1 \<le> v \<Longrightarrow> v \<le> length qs \<Longrightarrow> wanted pg z iLast minFr pgno v \<Longrightarrow> qs ! (v - 1) = pgno"
  shows "find_slot_loop pg z iLast minFr pgno (walHash pgno) 0 8192 =
    Some (let m = newest (wanted pg z iLast minFr pgno) (length qs) in if m = 0 then 0 else m + z)"
proof -
  let ?a = "aHash pg" and ?h = "walHash pgno" and ?W = "wanted pg z iLast minFr pgno"
  let ?s = "\<lambda>e. ?a ! ((?h + e) mod 8192)"
  have h: "?h < 8192" by (rule walHash_less)
  have "\<exists>d \<le> length qs. ?s d = 0"
  proof (rule ccontr)
    assume "\<not> ?thesis"
    then have nz: "\<And>d. d < Suc (length qs) \<Longrightarrow> ?s d \<noteq> 0" by auto
    have "Suc (length qs) \<le> length qs" by (rule run_le [OF ok h _ nz]) (use len in simp_all)
    then show False by simp
  qed
  from append_loop_ok [OF h this] obtain d where d: "d \<le> length qs" "?s d = 0" "\<And>e. e < d \<Longrightarrow> ?s e \<noteq> 0" by blast
  have dl: "d \<le> 8192" using d(1) len by simp
  let ?vs = "map ?s [0..<d]"
  have run: "find_slot_loop pg z iLast minFr pgno ?h 0 8192 =
      Some (fold (\<lambda>v r. if ?W v then v + z else r) ?vs 0)"
    by (rule find_loop_run [OF h dl d(2,3)])
  have vs: "1 \<le> v \<and> v \<le> length qs" if "v \<in> set ?vs" for v
    using that d(3) slots_okD(2) [OF ok] by (force simp: Suc_le_eq)
  show ?thesis
  proof (rule newest_cases [of ?W "length qs"])
    assume "newest ?W (length qs) = 0" and none: "\<And>i. 1 \<le> i \<Longrightarrow> i \<le> length qs \<Longrightarrow> \<not> ?W i"
    have "fold (\<lambda>v r. if ?W v then v + z else r) ?vs 0 = 0"
      by (rule fold_none) (use none vs in blast)
    with \<open>newest ?W (length qs) = 0\<close> run show ?thesis by (simp only: Let_def) simp
  next
    define m where "m = newest ?W (length qs)"
    assume "1 \<le> newest ?W (length qs)" "newest ?W (length qs) \<le> length qs" "?W (newest ?W (length qs))"
      and max: "\<And>i. newest ?W (length qs) < i \<Longrightarrow> i \<le> length qs \<Longrightarrow> \<not> ?W i"
    then have m: "1 \<le> m" "m \<le> length qs" "?W m" by (simp_all only: m_def)
    note max = max [folded m_def]
    obtain k where k: "k < 8192" "?a ! k = m" using slots_okD(5) [OF ok m(1,2)] by blast
    have key: "walHash (qs ! (m - 1)) = ?h" using W [OF m] by simp
    define e where "e = dist ?h k"
    have e: "e < 8192" "(?h + e) mod 8192 = k" unfolding e_def using dist_less dist_slot [OF h k(1)] by simp_all
    have path: "?s i \<noteq> 0" if "i < e" for i
      using slots_okD(3) [OF ok k(1), of i] k(2) m(1) that unfolding k(2) key e_def by simp
    have "e < d"
    proof (rule ccontr)
      assume "\<not> e < d"
      then have "d < e \<or> d = e" by linarith
      then show False using path [of d] d(2) e(2) k(2) m(1) by auto
    qed
    then have "[0..<d] = [0..<e] @ e # [Suc e..<d]"
      using upt_add_eq_append [of 0 e "d - e"] upt_conv_Cons [of e d] by simp
    then have split: "?vs = map ?s [0..<e] @ m # map ?s [Suc e..<d]" using e(2) k(2) by simp
    have "\<not> ?W v" if "v \<in> set (map ?s [Suc e..<d])" for v
    proof
      assume w: "?W v"
      from that obtain i where i: "e < i" "i < d" "v = ?s i" by (auto simp: Suc_le_eq)
      then have v: "1 \<le> v" "v \<le> length qs" using vs [of v] by auto
      have key': "walHash (qs ! (v - 1)) = ?h" using W [OF v w] by simp
      have il: "i < 8192" using i(2) dl by simp
      have "e < dist (walHash (qs ! (?s i - 1))) ((?h + i) mod 8192)"
        using i(1) unfolding i(3) [symmetric] key' dist_unique [OF h il] .
      from slots_okD(3) [OF ok _ _ this] v(1) i(3) have "?s e < v"
        unfolding i(3) [symmetric] key' by simp
      then have "m < v" using e(2) k(2) by simp
      with max [OF this v(2)] w show False by blast
    qed
    then have "fold (\<lambda>v r. if ?W v then v + z else r) ?vs 0 = m + z"
      unfolding split by (rule fold_last [of ?W, OF m(3)])
    then show ?thesis using run m(1) unfolding m_def [symmetric] by (simp add: Let_def)
  qed
qed

section \<open>The index\<close>

text \<open>
  The index lists the frames \<open>1, ..., length ps\<close> of a log: every table that some of them fall into
  lists its share of them, possibly followed by remnants (\<open>extra\<close>). \<open>m\<close> is the frame up to which
  the last transaction was committed; once frames beyond it are appended, no remnants follow.
\<close>

definition cap :: "nat \<Rightarrow> nat" where
  "cap h = (if h = 0 then 4062 else 4096)"

definition page_ok :: "nat \<Rightarrow> wi_page \<Rightarrow> u32 list \<Rightarrow> bool" where
  "page_ok n pg qs \<longleftrightarrow> length (aPgno pg) = n \<and> length qs \<le> n \<and> aPgno pg = qs @ replicate (n - length qs) 0 \<and>
     0 \<notin> set qs \<and> slots_ok (aHash pg) qs"

definition share :: "u32 list \<Rightarrow> nat \<Rightarrow> u32 list" where
  "share ps h = take (cap h) (drop (iZero h) ps)"

definition shape :: "wal_index \<Rightarrow> bool" where
  "shape wi \<longleftrightarrow> (\<forall>h pg. wi h = Inr pg \<longrightarrow> length (aPgno pg) = cap h \<and> length (aHash pg) = 8192)"

definition index_ok :: "wal_index \<Rightarrow> nat \<Rightarrow> u32 list \<Rightarrow> bool" where
  "index_ok wi m ps \<longleftrightarrow> shape wi \<and> m \<le> length ps \<and>
     (\<forall>h. iZero h < length ps \<longrightarrow>
        (\<exists>pg extra. wi h = Inr pg \<and> page_ok (cap h) pg (share ps h @ extra) \<and>
           (m < length ps \<longrightarrow> extra = [])))"

lemma iZero_Suc: "iZero (Suc h) = iZero h + cap h"
  by (cases h) (auto simp: iZero_def cap_def)

lemma iZero_mono: "h < k \<Longrightarrow> iZero h + cap h \<le> iZero k"
proof (induction k)
  case (Suc k)
  then show ?case by (cases "h = k") (auto simp: iZero_Suc)
qed simp

lemma cap_pos: "0 < cap h" "cap h \<le> 4096" by (simp_all add: cap_def)

lemma div_block: "0 < (n :: nat) \<Longrightarrow> a div n = h \<longleftrightarrow> n * h \<le> a \<and> a < n * h + n"
  using div_nat_eqI [of n h a] times_div_less_eq_dividend [of n a] dividend_less_times_div [of n a]
  by auto

text \<open>Frame \<open>f\<close> falls into the table \<open>walFramePage f\<close>.\<close>

lemma walFramePage_iff:
  assumes "1 \<le> f"
  shows "walFramePage f = h \<longleftrightarrow> iZero h < f \<and> f \<le> iZero h + cap h"
proof (cases h)
  case 0
  have "walFramePage f = 0 \<longleftrightarrow> f + 33 < 4096" by (auto simp: walFramePage_def)
  then show ?thesis using assms by (auto simp: 0 iZero_def cap_def)
next
  case (Suc g)
  have "(f + 33) div 4096 = h \<longleftrightarrow> 4096 * h \<le> f + 33 \<and> f + 33 < 4096 * h + 4096"
    by (rule div_block) simp
  then have "walFramePage f = h \<longleftrightarrow> 4096 * h \<le> f + 33 \<and> f + 33 < 4096 * h + 4096"
    by (simp add: walFramePage_def add.commute)
  then show ?thesis using assms by (auto simp: Suc iZero_def cap_def)
qed


lemma walFramePage_range: "1 \<le> f \<Longrightarrow> iZero (walFramePage f) < f \<and> f \<le> iZero (walFramePage f) + cap (walFramePage f)"
  using walFramePage_iff by blast

lemma walFramePage_mono: "f \<le> g \<Longrightarrow> walFramePage f \<le> walFramePage g"
  unfolding walFramePage_def by (intro div_le_mono) simp

lemma share_length: "length (share ps h) = min (cap h) (length ps - iZero h)"
  by (simp add: share_def)

lemma share_nth: "i < cap h \<Longrightarrow> iZero h + i < length ps \<Longrightarrow> share ps h ! i = ps ! (iZero h + i)"
  by (simp add: share_def)

lemma share_append_same:
  "iZero h + cap h \<le> length ps \<Longrightarrow> share (ps @ qs) h = share ps h"
  by (simp add: share_def)

lemma share_append_last:
  assumes "iZero h \<le> length ps" "length ps < iZero h + cap h"
  shows "share (ps @ [p]) h = share ps h @ [p]"
proof -
  have "length (drop (iZero h) ps @ [p]) \<le> cap h" using assms by simp
  then show ?thesis using assms unfolding share_def by simp
qed

lemma index_okD:
  assumes "index_ok wi m ps" "iZero h < length ps"
  obtains pg extra where "wi h = Inr pg" "page_ok (cap h) pg (share ps h @ extra)" "m < length ps \<longrightarrow> extra = []"
  using assms unfolding index_ok_def by blast

lemma page_ok_nth:
  assumes "page_ok n pg qs"
  shows "i < n \<Longrightarrow> aPgno pg ! i = (if i < length qs then qs ! i else 0)" "i < length qs \<Longrightarrow> qs ! i \<noteq> 0"
    "length qs \<le> n" "length (aPgno pg) = n" "slots_ok (aHash pg) qs"
proof -
  have pg: "aPgno pg = qs @ replicate (n - length qs) 0" "0 \<notin> set qs"
    using assms by (simp_all add: page_ok_def)
  show "i < n \<Longrightarrow> aPgno pg ! i = (if i < length qs then qs ! i else 0)"
    unfolding pg(1) by (simp add: nth_append)
  show "i < length qs \<Longrightarrow> qs ! i \<noteq> 0" using pg(2) by (metis nth_mem)
qed (use assms in \<open>simp_all add: page_ok_def\<close>)

text \<open>Cutting a page back.\<close>

lemma page_cleanup:
  assumes "page_ok n pg (qs @ extra)"
  shows "page_ok n (cleanup_page (length qs) pg) qs"
proof -
  have "aPgno pg = (qs @ extra) @ replicate (n - length (qs @ extra)) 0" "length (aPgno pg) = n" "length (qs @ extra) \<le> n"
    "0 \<notin> set (qs @ extra)" "slots_ok (aHash pg) (qs @ extra)"
    using assms by (simp_all add: page_ok_def)
  then show ?thesis using slots_cleanup [of "aHash pg" qs extra]
    unfolding page_ok_def cleanup_page_def by simp
qed

lemma page_append:
  assumes "page_ok n pg qs" "length qs < n" "n \<le> 4096" "p \<noteq> 0"
  obtains k where "k < 8192" "append_loop (aHash pg) (walHash p) (Suc (length qs)) = Some k"
    "page_ok n \<lparr>aPgno = (aPgno pg)[length qs := p], aHash = (aHash pg)[k := Suc (length qs)]\<rparr> (qs @ [p])"
proof -
  have pg: "aPgno pg = qs @ replicate (n - length qs) 0" "slots_ok (aHash pg) qs" "0 \<notin> set qs"
    using assms(1) by (simp_all add: page_ok_def)
  obtain k where k: "k < 8192" "append_loop (aHash pg) (walHash p) (Suc (length qs)) = Some k"
    "slots_ok ((aHash pg)[k := Suc (length qs)]) (qs @ [p])"
    using slots_insert [OF pg(2), of p] assms(2,3) by auto
  have "n - length qs = Suc (n - Suc (length qs))" using assms(2) by simp
  then have "(aPgno pg)[length qs := p] = (qs @ [p]) @ replicate (n - length (qs @ [p])) 0"
    using pg(1) by (simp add: list_update_append)
  then have "page_ok n \<lparr>aPgno = (aPgno pg)[length qs := p], aHash = (aHash pg)[k := Suc (length qs)]\<rparr> (qs @ [p])"
    using assms k(3) pg(3) by (simp add: page_ok_def)
  with k(1,2) show ?thesis by (rule that)
qed


text \<open>The page that the new entry goes to, cleared or cut back first when it has to be.\<close>

lemma page_ready:
  assumes ok: "index_ok wi m ps" and p: "p = walFramePage (Suc (length ps))" and wi: "wi p = Inr pg"
  obtains pg' where "page_ok (cap p) pg' (share ps p)"
    "walIndexAppend wi m (Suc (length ps)) iPage =
       (let idx = Suc (length ps) - iZero p
        in case append_loop (aHash pg') (walHash iPage) idx of
             None \<Rightarrow> (wi(p := Inr pg'), SQLITE_CORRUPT)
           | Some iKey \<Rightarrow> (wi(p := Inr \<lparr>aPgno = (aPgno pg')[(idx - 1) AND 4095 := iPage],
                                         aHash = (aHash pg')[iKey := idx]\<rparr>), SQLITE_OK))"
proof -
  have r: "iZero p < Suc (length ps)" "Suc (length ps) \<le> iZero p + cap p"
    using walFramePage_range [of "Suc (length ps)"] unfolding p by simp_all
  have len: "length (aPgno pg) = cap p" "length (aHash pg) = 8192"
    using ok wi unfolding index_ok_def shape_def by blast+
  have q: "length (share ps p) = length ps - iZero p" using r by (simp add: share_length)
  note W = walIndexAppend_def [of wi m "Suc (length ps)" iPage, folded p]
  have mask: "(4096 :: nat) - 1 = 4095" by simp
  have upd: "wi(p := Inr pg) = wi" using wi by auto
  show thesis
  proof (cases "iZero p = length ps")
    case True
    have id1: "Suc (length ps) - iZero p = 1" using True by simp
    let ?pg = "\<lparr>aPgno = replicate (length (aPgno pg)) 0, aHash = replicate (length (aHash pg)) 0\<rparr>"
    have c0: "0 < cap p" by (rule cap_pos)
    have "share ps p = []" using q True by simp
    then have "page_ok (cap p) ?pg (share ps p)" using len slots_empty by (simp add: page_ok_def)
    then show thesis
      by (rule that) (unfold W walHashGet_def wi prod.case sum.case id1 Let_def,
          simp add: len c0 fun_upd_same)
  next
    case False
    then have z: "iZero p < length ps" and id1: "Suc (length ps) - iZero p \<noteq> 1" using r by simp_all
    obtain pg0 extra where pg0: "wi p = Inr pg0" "page_ok (cap p) pg0 (share ps p @ extra)" "m < length ps \<longrightarrow> extra = []"
      by (rule index_okD [OF ok z])
    have pok: "page_ok (cap p) pg (share ps p @ extra)" using pg0 wi by simp
    let ?i = "Suc (length ps) - iZero p - 1"
    have i: "?i = length (share ps p)" "?i < cap p" using q r z by simp_all
    have nth: "aPgno pg ! ?i = (if extra = [] then 0 else extra ! 0)" "extra \<noteq> [] \<Longrightarrow> extra ! 0 \<noteq> 0"
      using page_ok_nth(1) [OF pok, of ?i] page_ok_nth(2) [OF pok, of ?i] i by (cases extra; simp)+
    show thesis
    proof (cases "extra = []")
      case True
      have pok': "page_ok (cap p) pg (share ps p)" using pok True by simp
      have a: "aPgno pg ! ?i = 0" using nth(1) True by simp
      show thesis
        by (rule that [OF pok']) (simp only: W walHashGet_def wi prod.case sum.case id1 Let_def a simp_thms if_False fun_upd_same fun_upd_upd upd mask)
    next
      case False
      then have "m = length ps" using ok pg0(3) unfolding index_ok_def by auto
      have wm: "walFramePage m = p"
        using walFramePage_iff [of m p] z r \<open>m = length ps\<close> by simp
      let ?pg = "cleanup_page (length (share ps p)) pg"
      have c: "walCleanupHash m wi = wi(p := Inr ?pg)"
        using z \<open>m = length ps\<close> unfolding walCleanupHash_def wm walHashGet_def wi q by simp (use z in \<open>metis list.size(3) not_less0\<close>)
      have a: "(aPgno pg ! ?i \<noteq> 0) = True" using nth False by simp
      show thesis
        by (rule that [OF page_cleanup [OF pok]]) (simp only: W walHashGet_def wi prod.case sum.case id1 Let_def a c if_False if_True fun_upd_same fun_upd_upd upd mask)
    qed
  qed
qed

lemma index_append:
  assumes ok: "index_ok wi m ps" and wi: "wi (walFramePage (Suc (length ps))) = Inr pg" and pz: "iPage \<noteq> 0"
  obtains wi' where "walIndexAppend wi m (Suc (length ps)) iPage = (wi', SQLITE_OK)" "index_ok wi' m (ps @ [iPage])"
    "\<forall>h. isl (wi' h) \<longleftrightarrow> isl (wi h)"
proof -
  define p where "p = walFramePage (Suc (length ps))"
  have r: "iZero p < Suc (length ps)" "Suc (length ps) \<le> iZero p + cap p"
    using walFramePage_range [of "Suc (length ps)"] unfolding p_def by simp_all
  have q: "Suc (length ps) - iZero p = Suc (length (share ps p))" using r by (simp add: share_length)
  have ql: "length (share ps p) < cap p" using q r by linarith
  obtain pg' where pg': "page_ok (cap p) pg' (share ps p)"
    "walIndexAppend wi m (Suc (length ps)) iPage =
       (let idx = Suc (length ps) - iZero p
        in case append_loop (aHash pg') (walHash iPage) idx of
             None \<Rightarrow> (wi(p := Inr pg'), SQLITE_CORRUPT)
           | Some iKey \<Rightarrow> (wi(p := Inr \<lparr>aPgno = (aPgno pg')[(idx - 1) AND 4095 := iPage],
                                         aHash = (aHash pg')[iKey := idx]\<rparr>), SQLITE_OK))"
    by (rule page_ready [OF ok p_def wi [folded p_def]])
  obtain k where k: "k < 8192" "append_loop (aHash pg') (walHash iPage) (Suc (length (share ps p))) = Some k"
    "page_ok (cap p) \<lparr>aPgno = (aPgno pg')[length (share ps p) := iPage],
       aHash = (aHash pg')[k := Suc (length (share ps p))]\<rparr> (share ps p @ [iPage])"
    by (rule page_append [OF pg'(1) ql cap_pos(2) pz])
  have mask: "(Suc (length (share ps p)) - 1) AND 4095 = length (share ps p)"
    using ql cap_pos(2) [of p] by (simp add: nat_and_mask)
  let ?pg = "\<lparr>aPgno = (aPgno pg')[length (share ps p) := iPage], aHash = (aHash pg')[k := Suc (length (share ps p))]\<rparr>"
  have res: "walIndexAppend wi m (Suc (length ps)) iPage = (wi(p := Inr ?pg), SQLITE_OK)"
    unfolding pg'(2) q Let_def k(2) mask by simp
  have "index_ok (wi(p := Inr ?pg)) m (ps @ [iPage])"
    unfolding index_ok_def
  proof (intro conjI allI impI)
    show "shape (wi(p := Inr ?pg))"
      using ok page_ok_nth(4) [OF pg'(1)] slots_okD(1) [OF page_ok_nth(5) [OF pg'(1)]]
      unfolding index_ok_def shape_def by auto
    show "m \<le> length (ps @ [iPage])" using ok by (simp add: index_ok_def)
    fix h assume h: "iZero h < length (ps @ [iPage])"
    show "\<exists>pg extra. (wi(p := Inr ?pg)) h = Inr pg \<and> page_ok (cap h) pg (share (ps @ [iPage]) h @ extra) \<and>
        (m < length (ps @ [iPage]) \<longrightarrow> extra = [])"
    proof (cases "h = p")
      case True
      have "share (ps @ [iPage]) p = share ps p @ [iPage]" by (rule share_append_last) (use r in simp_all)
      then show ?thesis using k(3) True by (intro exI [of _ ?pg] exI [of _ "[]"]) simp
    next
      case False
      have "\<not> p < h" using iZero_mono [of p h] r h by auto
      with False have le: "iZero h + cap h \<le> length ps" using iZero_mono [of h p] r by simp
      then have hl: "iZero h < length ps" using cap_pos(1) [of h] by simp
      obtain pg0 extra where pg0: "wi h = Inr pg0" "page_ok (cap h) pg0 (share ps h @ extra)" "m < length ps \<longrightarrow> extra = []"
        by (rule index_okD [OF ok hl])
      have "extra = []" using page_ok_nth(3) [OF pg0(2)] le by (simp add: share_length)
      then show ?thesis using pg0 False le by (intro exI [of _ pg0] exI [of _ "[]"]) (simp add: share_append_same)
    qed
  qed
  moreover have "\<forall>h. isl ((wi(p := Inr ?pg)) h) \<longleftrightarrow> isl (wi h)" using wi unfolding p_def by simp
  ultimately show thesis by (rule that [OF res])
qed

lemma index_append_unmapped:
  "wi (walFramePage f) = Inl rc \<Longrightarrow>
    walIndexAppend wi m f iPage = (wi, if rc = SQLITE_OK then SQLITE_ERROR else rc)"
  unfolding walIndexAppend_def walHashGet_def by simp


text \<open>What the writer may forget: that it appended, and the frames after a point.\<close>

lemma index_commit: "index_ok wi m ps \<Longrightarrow> index_ok wi (length ps) ps"
  unfolding index_ok_def by blast

lemma share_take:
  assumes "n \<le> length ps"
  obtains extra where "share ps h = share (take n ps) h @ extra"
proof -
  have "share (take n ps) h = take (min (cap h) (n - iZero h)) (drop (iZero h) ps)"
    by (simp add: share_def drop_take min.commute)
  also have "\<dots> = take (n - iZero h) (share ps h)" by (simp add: share_def min.commute)
  finally show thesis by (metis append_take_drop_id that)
qed

lemma index_prefix:
  assumes "index_ok wi m ps" "n \<le> length ps"
  shows "index_ok wi n (take n ps)"
  unfolding index_ok_def
proof (intro conjI allI impI)
  show "shape wi" using assms(1) by (simp add: index_ok_def)
  show "n \<le> length (take n ps)" using assms(2) by simp
  fix h assume "iZero h < length (take n ps)"
  then have z: "iZero h < length ps" by simp
  obtain pg extra where pg: "wi h = Inr pg" "page_ok (cap h) pg (share ps h @ extra)" "m < length ps \<longrightarrow> extra = []"
    by (rule index_okD [OF assms(1) z])
  obtain extra' where "share ps h = share (take n ps) h @ extra'" by (rule share_take [OF assms(2)])
  then show "\<exists>pg extra. wi h = Inr pg \<and> page_ok (cap h) pg (share (take n ps) h @ extra) \<and>
      (n < length (take n ps) \<longrightarrow> extra = [])"
    using pg assms(2) by auto
qed

lemma newest_skip:
  assumes "k \<le> n" "\<And>i. k < i \<Longrightarrow> i \<le> n \<Longrightarrow> \<not> P i"
  shows "newest P n = newest P k"
  using assms
proof (induction n)
  case (Suc n)
  then show ?case by (cases "k = Suc n") (auto simp: le_Suc_eq)
qed simp

lemma newest_unique:
  assumes "1 \<le> f" "f \<le> n" "P f" "\<And>i. f < i \<Longrightarrow> i \<le> n \<Longrightarrow> \<not> P i"
  shows "newest P n = f"
  using newest_skip [of f n P] assms by (cases f) auto

text \<open>One table of the index, seen by a reader whose snapshot ends with frame \<open>iLast\<close>.\<close>

lemma find_in_index:
  assumes ok: "index_ok wi m ps" and last: "iLast \<le> length ps" and z: "iZero h < iLast"
    and P: "P = (\<lambda>f. minFr \<le> f \<and> ps ! (f - 1) = pgno)"
  obtains pg r where "wi h = Inr pg"
    "find_slot_loop pg (iZero h) iLast minFr pgno (walHash pgno) 0 8192 = Some r"
    "newest P (min iLast (iZero h + cap h)) = (if r = 0 then newest P (iZero h) else r)"
proof -
  have zl: "iZero h < length ps" using z last by simp
  obtain pg extra where pg: "wi h = Inr pg" "page_ok (cap h) pg (share ps h @ extra)" "m < length ps \<longrightarrow> extra = []"
    by (rule index_okD [OF ok zl])
  let ?z = "iZero h" and ?qs = "share ps h @ extra" and ?W = "wanted pg (iZero h) iLast minFr pgno"
  have ql: "length ?qs \<le> cap h" "length (share ps h) = min (cap h) (length ps - ?z)"
    using page_ok_nth(3) [OF pg(2)] by (simp_all add: share_length)
  have entry: "aPgno pg ! ((v - 1) AND 4095) = ps ! (v + ?z - 1)" "?qs ! (v - 1) = ps ! (v + ?z - 1)" "v \<le> length ?qs"
    if v: "1 \<le> v" "v + ?z \<le> iLast" "v \<le> cap h" for v
  proof -
    have le: "v - 1 < length (share ps h)" "v - 1 < cap h" using v last ql by auto
    then show "v \<le> length ?qs" by simp
    have "?z + (v - 1) = v + ?z - 1" using v by simp
    then have "share ps h ! (v - 1) = ps ! (v + ?z - 1)" using share_nth [of "v - 1" h ps] le v last by simp
    then show q: "?qs ! (v - 1) = ps ! (v + ?z - 1)" using le by (simp add: nth_append)
    have "(v - 1) AND 4095 = v - 1" using v cap_pos(2) [of h] by (simp add: nat_and_mask)
    then show "aPgno pg ! ((v - 1) AND 4095) = ps ! (v + ?z - 1)"
      using page_ok_nth(1) [OF pg(2) le(2)] le(1) q by simp
  qed
  have W: "?W v \<longleftrightarrow> v + ?z \<le> iLast \<and> P (v + ?z)" if "1 \<le> v" "v \<le> length ?qs" for v
    using entry(1) [of v] that ql(1) unfolding P by auto
  have "find_slot_loop pg ?z iLast minFr pgno (walHash pgno) 0 8192 =
      Some (let k = newest ?W (length ?qs) in if k = 0 then 0 else k + ?z)"
  proof (rule find_table)
    show "slots_ok (aHash pg) ?qs" by (rule page_ok_nth(5) [OF pg(2)])
    show "length ?qs \<le> 4096" using ql(1) cap_pos(2) [of h] by linarith
    fix v assume v: "1 \<le> v" "v \<le> length ?qs" "?W v"
    then show "?qs ! (v - 1) = pgno" using entry(2) [of v] W [of v] ql(1) unfolding P by auto
  qed
  moreover have "newest P (min iLast (?z + cap h)) =
      (if (let k = newest ?W (length ?qs) in if k = 0 then 0 else k + ?z) = 0 then newest P ?z
       else (let k = newest ?W (length ?qs) in if k = 0 then 0 else k + ?z))"
  proof (rule newest_cases [of ?W "length ?qs"])
    assume n: "newest ?W (length ?qs) = 0" and none: "\<And>i. 1 \<le> i \<Longrightarrow> i \<le> length ?qs \<Longrightarrow> \<not> ?W i"
    have "newest P (min iLast (?z + cap h)) = newest P ?z"
    proof (rule newest_skip)
      show "?z \<le> min iLast (?z + cap h)" using z by simp
      fix i assume i: "?z < i" "i \<le> min iLast (?z + cap h)"
      define v where "v = i - ?z"
      have v: "1 \<le> v" "v + ?z \<le> iLast" "v \<le> cap h" "i = v + ?z" using i unfolding v_def min.bounded_iff by linarith+
      show "\<not> P i" using none [OF v(1) entry(3) [OF v(1-3)]] W [OF v(1) entry(3) [OF v(1-3)]] v by blast
    qed
    then show ?thesis unfolding n by simp
  next
    define k where "k = newest ?W (length ?qs)"
    assume "1 \<le> newest ?W (length ?qs)" "newest ?W (length ?qs) \<le> length ?qs" "?W (newest ?W (length ?qs))"
      and max: "\<And>i. newest ?W (length ?qs) < i \<Longrightarrow> i \<le> length ?qs \<Longrightarrow> \<not> ?W i"
    then have k: "1 \<le> k" "k \<le> length ?qs" "?W k" by (simp_all only: k_def)
    note max = max [folded k_def]
    have kk: "k + ?z \<le> iLast" "P (k + ?z)" using W [OF k(1,2)] k(3) by blast+
    have "newest P (min iLast (?z + cap h)) = k + ?z"
    proof (rule newest_unique)
      show "1 \<le> k + ?z" "k + ?z \<le> min iLast (?z + cap h)" "P (k + ?z)" using k(1,2) kk ql(1) by auto
      fix i assume i: "k + ?z < i" "i \<le> min iLast (?z + cap h)"
      define v where "v = i - ?z"
      have v: "1 \<le> v" "v + ?z \<le> iLast" "v \<le> cap h" "i = v + ?z" "k < v" using i unfolding v_def min.bounded_iff by linarith+
      show "\<not> P i" using max [OF v(5) entry(3) [OF v(1-3)]] W [OF v(1) entry(3) [OF v(1-3)]] v by blast
    qed
    then show ?thesis using k(1) unfolding k_def [symmetric] Let_def by simp
  qed
  ultimately show thesis by (rule that [OF pg(1)])
qed

lemma find_tables_index:
  assumes ok: "index_ok wi m ps" and last: "iLast \<le> length ps" and min: "1 \<le> minFr"
    and P: "P = (\<lambda>f. minFr \<le> f \<and> ps ! (f - 1) = pgno)"
  shows "iZero (walFramePage minFr + n) < iLast \<or> n = 0 \<or> iZero (walFramePage minFr + n - 1) < iLast \<Longrightarrow>
    find_tables wi iLast minFr pgno (walFramePage minFr) n = Inr (newest P (min iLast (iZero (walFramePage minFr + n))))"
proof (induction n)
  case 0
  have "newest P (min iLast (iZero (walFramePage minFr))) = newest P 0"
    by (rule newest_skip) (use walFramePage_range [OF min] in \<open>auto simp: P\<close>)
  then show ?case by simp
next
  case (Suc n)
  let ?h = "walFramePage minFr + n"
  have z: "iZero ?h < iLast" using Suc.prems iZero_Suc [of ?h] by auto
  obtain pg r where t: "wi ?h = Inr pg"
    "find_slot_loop pg (iZero ?h) iLast minFr pgno (walHash pgno) 0 8192 = Some r"
    "newest P (min iLast (iZero ?h + cap ?h)) = (if r = 0 then newest P (iZero ?h) else r)"
    by (rule find_in_index [OF ok last z P])
  have IH: "find_tables wi iLast minFr pgno (walFramePage minFr) n = Inr (newest P (iZero ?h))"
    using Suc.IH z by simp
  have "find_tables wi iLast minFr pgno (walFramePage minFr) (Suc n) =
      Inr (if r \<noteq> 0 then r else newest P (iZero ?h))"
    by (simp add: walHashGet_def t(1,2) IH)
  then show ?case using t(3) by (simp add: iZero_Suc)
qed

lemma find_frame:
  assumes "index_ok wi m ps" "iLast \<le> length ps" "1 \<le> minFr" "\<not> noWal"
  shows "walFindFrame wi noWal iLast minFr pgno = Inr (newest (\<lambda>f. minFr \<le> f \<and> ps ! (f - 1) = pgno) iLast)"
proof (cases "iLast = 0")
  case True
  then show ?thesis by (simp add: walFindFrame_def)
next
  case False
  define P where "P = (\<lambda>f. minFr \<le> f \<and> ps ! (f - 1) = pgno)"
  let ?lo = "walFramePage minFr" and ?hi = "walFramePage iLast"
  have r: "iZero ?hi < iLast" "iLast \<le> iZero ?hi + cap ?hi" using walFramePage_range [of iLast] False by auto
  show ?thesis
  proof (cases "?lo \<le> ?hi")
    case True
    have e: "?lo + (?hi + 1 - ?lo) = Suc ?hi" "?lo + (?hi + 1 - ?lo) - 1 = ?hi" using True by simp_all
    have "find_tables wi iLast minFr pgno ?lo (?hi + 1 - ?lo) = Inr (newest P (min iLast (iZero (Suc ?hi))))"
      using find_tables_index [OF assms(1-3) P_def, of "?hi + 1 - ?lo"] r(1) unfolding e by (metis diff_Suc_1)
    then show ?thesis using False assms(4) r(2) unfolding walFindFrame_def P_def [symmetric] by (simp add: iZero_Suc)
  next
    case False
    then have n: "?hi + 1 - ?lo = 0" by simp
    have "iLast < minFr" using walFramePage_mono [of minFr iLast] False by (meson not_le)
    then have "newest P iLast = newest P 0" by (intro newest_skip) (auto simp: P_def)
    then show ?thesis using assms(4) unfolding walFindFrame_def P_def [symmetric] n by simp
  qed
qed


lemma index_cleanup:
  assumes ok: "index_ok wi m ps"
  shows "index_ok (walCleanupHash (length ps) wi) (length ps) ps"
proof (cases "ps = []")
  case True
  then show ?thesis using ok by (simp add: walCleanupHash_def index_ok_def)
next
  case False
  let ?p = "walFramePage (length ps)"
  have r: "iZero ?p < length ps" "length ps \<le> iZero ?p + cap ?p"
    using walFramePage_range [of "length ps"] False by (auto simp: Suc_le_eq)
  obtain pg extra where pg: "wi ?p = Inr pg" "page_ok (cap ?p) pg (share ps ?p @ extra)" "m < length ps \<longrightarrow> extra = []"
    by (rule index_okD [OF ok r(1)])
  let ?pg = "cleanup_page (length (share ps ?p)) pg"
  have q: "length (share ps ?p) = length ps - iZero ?p" using r by (simp add: share_length)
  have c: "walCleanupHash (length ps) wi = wi(?p := Inr ?pg)"
    using False unfolding walCleanupHash_def walHashGet_def pg(1) q by simp
  note pc = page_cleanup [OF pg(2)]
  show ?thesis
    unfolding c index_ok_def
  proof (intro conjI allI impI)
    show "shape (wi(?p := Inr ?pg))"
      using ok page_ok_nth(4) [OF pc] slots_okD(1) [OF page_ok_nth(5) [OF pc]]
      unfolding index_ok_def shape_def by auto
    show "length ps \<le> length ps" by simp
    fix h assume h: "iZero h < length ps"
    show "\<exists>pg extra. (wi(?p := Inr ?pg)) h = Inr pg \<and> page_ok (cap h) pg (share ps h @ extra) \<and>
        (length ps < length ps \<longrightarrow> extra = [])"
    proof (cases "h = ?p")
      case True
      then show ?thesis using pc by (intro exI [of _ ?pg] exI [of _ "[]"]) simp
    next
      case False
      then show ?thesis using ok h unfolding index_ok_def by fastforce
    qed
  qed
qed

lemma index_pgno:
  assumes ok: "index_ok wi m ps" and f: "1 \<le> f" "f \<le> length ps"
  shows "walFramePgno wi f = Some (ps ! (f - 1))"
proof -
  let ?h = "walFramePage f"
  have r: "iZero ?h < f" "f \<le> iZero ?h + cap ?h" using walFramePage_range [OF f(1)] by simp_all
  then have z: "iZero ?h < length ps" using f by simp
  obtain pg extra where pg: "wi ?h = Inr pg" "page_ok (cap ?h) pg (share ps ?h @ extra)" "m < length ps \<longrightarrow> extra = []"
    by (rule index_okD [OF ok z])
  define i where "i = f - 1 - iZero ?h"
  have i: "i < cap ?h" "i < length (share ps ?h)" "iZero ?h + i = f - 1" using r f by (auto simp: i_def share_length)
  have "aPgno pg ! i = (share ps ?h @ extra) ! i" using page_ok_nth(1) [OF pg(2) i(1)] i(2) by simp
  also have "\<dots> = ps ! (f - 1)" using share_nth [of i ?h ps] i f by (simp add: nth_append)
  finally have a: "aPgno pg ! i = ps ! (f - 1)" .
  have "i = (if ?h = 0 then f - 1 else (f - 1 - 4062) mod 4096)"
  proof (cases "?h = 0")
    case True
    then show ?thesis by (simp add: i_def iZero_def)
  next
    case False
    then obtain g where g: "?h = Suc g" by (cases "walFramePage f") auto
    have "f - 1 - 4062 = 4096 * g + i" using i(3) by (simp add: g iZero_def)
    then show ?thesis using i(1) False by (simp add: g cap_def)
  qed
  with a show ?thesis by (auto simp: walFramePgno_def pg(1) Let_def)
qed

section \<open>Runs\<close>

text \<open>
  What happens to an index: a writer appends frames, commits them, rolls them back, or dies; a
  reader finds a table mapped for the first time, with any contents; the log starts over. \<open>m\<close> is
  the last committed frame, \<open>ps\<close> the pages of the log's frames.
\<close>

inductive index_run :: "wal_index \<Rightarrow> nat \<Rightarrow> u32 list \<Rightarrow> bool" where
  run_start: "shape wi \<Longrightarrow> index_run wi 0 []"
| run_map: "\<lbrakk>index_run wi m ps; wi h = Inl rc; length (aPgno pg) = cap h; length (aHash pg) = HASHTABLE_NSLOT\<rbrakk> \<Longrightarrow>
     index_run (wi(h := Inr pg)) m ps"
| run_append: "\<lbrakk>index_run wi m ps; iPage \<noteq> 0; walIndexAppend wi m (Suc (length ps)) iPage = (wi', SQLITE_OK)\<rbrakk> \<Longrightarrow>
     index_run wi' m (ps @ [iPage])"
| run_commit: "index_run wi m ps \<Longrightarrow> index_run wi (length ps) ps"
| run_undo: "index_run wi m ps \<Longrightarrow> index_run (walCleanupHash m wi) m (take m ps)"
| run_die: "index_run wi m ps \<Longrightarrow> index_run wi m (take m ps)"
| run_restart: "index_run wi m ps \<Longrightarrow> index_run wi 0 []"

lemma index_append_ok:
  assumes "index_ok wi m ps" "walIndexAppend wi m (Suc (length ps)) p = (wi', SQLITE_OK)" "p \<noteq> 0"
  shows "index_ok wi' m (ps @ [p])"
proof (cases "wi (walFramePage (Suc (length ps)))")
  case (Inl rc)
  then show ?thesis using assms(2) index_append_unmapped [of wi "Suc (length ps)" rc m p] by (simp split: if_splits)
next
  case (Inr pg)
  then show ?thesis using index_append [OF assms(1) Inr assms(3)] assms(2) by (metis prod.inject)
qed

text \<open>The invariant.\<close>

lemma run_index_ok: "index_run wi m ps \<Longrightarrow> index_ok wi m ps"
proof (induction rule: index_run.induct)
  case (run_start wi)
  then show ?case by (simp add: index_ok_def)
next
  case (run_map wi m ps h rc pg)
  have "(wi(h := Inr pg)) k = wi k" if "iZero k < length ps" for k
    using index_okD [OF run_map.IH that] run_map.hyps(2) by force
  with run_map show ?case by (simp add: index_ok_def shape_def)
next
  case (run_append wi m ps iPage wi')
  then show ?case by (rule_tac index_append_ok)
next
  case (run_commit wi m ps)
  then show ?case by (rule_tac index_commit)
next
  case (run_undo wi m ps)
  then show ?case using index_prefix [of wi m ps m] index_cleanup [of wi m "take m ps"]
    by (simp add: index_ok_def min_absorb2)
next
  case (run_die wi m ps)
  have "m \<le> length ps" using run_die.IH by (simp add: index_ok_def)
  then show ?case by (rule index_prefix [OF run_die.IH])
next
  case (run_restart wi m ps)
  then show ?case by (simp add: index_ok_def)
qed

text \<open>
  C7. In every reachable index, whatever remnants its tables hold, a reader whose snapshot ends
  with frame \<open>iLast\<close> finds the newest of its frames that holds the page, and frame 0 only if there
  is none; the search never reports corruption.
\<close>

theorem wal_index_finds_newest:
  assumes "index_run wi m ps" "iLast \<le> length ps" "1 \<le> minFr"
  shows "\<exists>r. walFindFrame wi False iLast minFr pgno = Inr r \<and>
    (r = 0 \<and> (\<forall>i. minFr \<le> i \<and> i \<le> iLast \<longrightarrow> walFramePgno wi i \<noteq> Some pgno) \<or>
     minFr \<le> r \<and> r \<le> iLast \<and> walFramePgno wi r = Some pgno \<and> ps ! (r - 1) = pgno \<and>
       (\<forall>i. r < i \<and> i \<le> iLast \<longrightarrow> walFramePgno wi i \<noteq> Some pgno))"
proof -
  note ok = run_index_ok [OF assms(1)]
  have not_False: "\<not> False" by simp
  let ?P = "\<lambda>f. minFr \<le> f \<and> ps ! (f - 1) = pgno"
  have pg: "walFramePgno wi i = Some (ps ! (i - 1))" if "1 \<le> i" "i \<le> iLast" for i
    using index_pgno [OF ok that(1)] that(2) assms(2) by simp
  show ?thesis
    unfolding find_frame [OF ok assms(2,3) not_False]
    by (rule newest_cases [of ?P iLast]) (use pg assms(3) in auto)
qed


text \<open>An index over tables full of garbage, for the witnesses.\<close>

definition stale_index :: wal_index where
  "stale_index h = Inr \<lparr>aPgno = replicate (cap h) 9, aHash = replicate HASHTABLE_NSLOT 17\<rparr>"

lemma stale_run:
  assumes "0 \<notin> set ps"
  shows "\<exists>wi. index_run wi 0 ps \<and> (\<forall>h. \<not> isl (wi h))"
  using assms
proof (induction ps rule: rev_induct)
  case Nil
  have "index_run stale_index 0 []" by (rule run_start) (auto simp: shape_def stale_index_def)
  then show ?case by (auto simp: stale_index_def)
next
  case (snoc p ps)
  then obtain wi where wi: "index_run wi 0 ps" "\<And>h. \<not> isl (wi h)" by auto
  obtain pg where pg: "wi (walFramePage (Suc (length ps))) = Inr pg"
    using wi(2) [of "walFramePage (Suc (length ps))"] by (cases "wi (walFramePage (Suc (length ps)))") auto
  have p: "p \<noteq> 0" using snoc.prems by auto
  obtain wi' where w: "walIndexAppend wi 0 (Suc (length ps)) p = (wi', SQLITE_OK)" "index_ok wi' 0 (ps @ [p])" "\<forall>h. isl (wi' h) \<longleftrightarrow> isl (wi h)"
    by (rule index_append [OF run_index_ok [OF wi(1)] pg p])
  show ?case using run_append [OF wi(1) p w(1)] w(3) wi(2) by blast
qed

theorem wal_index_finds_newest_witness:
  "\<exists>wi. index_run wi 0 [5, 6, 5, 7] \<and> walFindFrame wi False 4 1 5 = Inr 3"
proof -
  obtain wi where wi: "index_run wi 0 [5, 6, 5, 7]" using stale_run [of "[5, 6, 5, 7]"] by auto
  obtain r where r: "walFindFrame wi False 4 1 5 = Inr r"
    "r = 0 \<and> (\<forall>i. 1 \<le> i \<and> i \<le> 4 \<longrightarrow> walFramePgno wi i \<noteq> Some 5) \<or>
     1 \<le> r \<and> r \<le> 4 \<and> walFramePgno wi r = Some 5 \<and> [5, 6, 5, 7] ! (r - 1) = (5 :: u32) \<and>
       (\<forall>i. r < i \<and> i \<le> 4 \<longrightarrow> walFramePgno wi i \<noteq> Some 5)"
    using wal_index_finds_newest [OF wi, of 4 1 5] by auto
  have three: "walFramePgno wi 3 = Some 5" using index_pgno [OF run_index_ok [OF wi], of 3] by (simp add: eval_nat_numeral)
  have "r \<noteq> 0"
  proof
    assume "r = 0"
    then have "\<forall>i. 1 \<le> i \<and> i \<le> 4 \<longrightarrow> walFramePgno wi i \<noteq> Some 5" using r(2) by simp
    from spec [OF this, of 3] three show False by simp
  qed
  with r(2) have b: "1 \<le> r" "r \<le> 4" "[5, 6, 5, 7] ! (r - 1) = (5 :: u32)"
    "\<forall>i. r < i \<and> i \<le> 4 \<longrightarrow> walFramePgno wi i \<noteq> Some 5" by simp_all
  have "\<not> r < 3" using spec [OF b(4), of 3] three by simp
  moreover have "r \<noteq> 4" using b(3) by (auto simp: eval_nat_numeral)
  ultimately have "r = 3" using b(2) by linarith
  then have "index_run wi 0 [5, 6, 5, 7] \<and> walFindFrame wi False 4 1 5 = Inr 3" using wi r(1) by simp
  then show ?thesis by (intro exI [of _ wi])
qed

text \<open>
  C8. Appending a frame to a reachable index succeeds whenever its table can be mapped: the hash
  table has room even when it is full of remnants, so no writer ever gets SQLITE_CORRUPT; and a
  reader with an older snapshot finds the same frames before and after.
\<close>

theorem wal_index_append_isolated:
  assumes "index_run wi m ps" "wi (walFramePage (Suc (length ps))) = Inr pg" "iPage \<noteq> 0"
  shows "\<exists>wi'. walIndexAppend wi m (Suc (length ps)) iPage = (wi', SQLITE_OK) \<and>
    walFramePgno wi' (Suc (length ps)) = Some iPage \<and>
    (\<forall>iLast minFr pgno. iLast \<le> length ps \<and> 1 \<le> minFr \<longrightarrow>
      walFindFrame wi' False iLast minFr pgno = walFindFrame wi False iLast minFr pgno)"
proof -
  note ok = run_index_ok [OF assms(1)]
  obtain wi' where w: "walIndexAppend wi m (Suc (length ps)) iPage = (wi', SQLITE_OK)" "index_ok wi' m (ps @ [iPage])"
    by (rule index_append [OF ok assms(2,3)])
  have nf: "\<not> False" by simp
  have "walFindFrame wi' False iLast minFr pgno = walFindFrame wi False iLast minFr pgno"
    if "iLast \<le> length ps" "1 \<le> minFr" for iLast minFr pgno
  proof -
    have "iLast \<le> length (ps @ [iPage])" using that by simp
    note e = find_frame [OF w(2) this that(2) nf] find_frame [OF ok that nf]
    have "newest (\<lambda>f. minFr \<le> f \<and> (ps @ [iPage]) ! (f - 1) = pgno) n = newest (\<lambda>f. minFr \<le> f \<and> ps ! (f - 1) = pgno) n"
      if "n \<le> length ps" for n
      using that by (induction n) (simp_all add: nth_append)
    then show ?thesis unfolding e using that(1) by simp
  qed
  then show ?thesis using w(1) index_pgno [OF w(2), of "Suc (length ps)"] by auto
qed

theorem wal_index_append_isolated_witness:
  "\<exists>wi wi'. walIndexAppend wi 0 4 8 = (wi', SQLITE_OK) \<and> walFramePgno wi' 4 = Some 8 \<and>
     walFindFrame wi' False 3 1 8 = walFindFrame wi False 3 1 8"
proof -
  obtain wi where wi: "index_run wi 0 [5, 6, 5]" "\<not> isl (wi 0)" using stale_run [of "[5, 6, 5]"] by auto
  have p: "walFramePage (Suc (length [5 :: u32, 6, 5])) = 0" by (simp add: walFramePage_def)
  obtain pg where pg: "wi 0 = Inr pg" using wi(2) by (cases "wi 0") auto
  have nz: "(8 :: u32) \<noteq> 0" by simp
  obtain wi' where "walIndexAppend wi 0 (Suc (length [5 :: u32, 6, 5])) 8 = (wi', SQLITE_OK)"
    "walFramePgno wi' (Suc (length [5 :: u32, 6, 5])) = Some 8"
    "\<And>iLast minFr pgno. iLast \<le> length [5 :: u32, 6, 5] \<and> 1 \<le> minFr \<longrightarrow>
      walFindFrame wi' False iLast minFr pgno = walFindFrame wi False iLast minFr pgno"
    using wal_index_append_isolated [OF wi(1), unfolded p, OF pg nz] unfolding p by blast
  moreover from this(3) [of 3 1 8] have "walFindFrame wi' False 3 1 8 = walFindFrame wi False 3 1 8" by simp
  ultimately show ?thesis by (simp add: eval_nat_numeral) blast
qed

end
