(* ===== verification/Wal_Sort.thy ===== *)
theory Wal_Sort
  imports Wal_Index
begin

text \<open>
  The iterator of a checkpoint (wal.c): the pages of the log in ascending order, each with the
  frame that holds its newest version. Every table of the wal-index is sorted by a bottom-up merge
  sort that drops older versions of a page, and the iterator merges the sorted tables.
  A list of slot indices is a list of naturals; the sublists of the sort occupy disjoint stretches
  of one array in the code and are values here.
\<close>

section \<open>Model\<close>

subsection \<open>The merge sort\<close>

definition skip_left :: "u32 list \<Rightarrow> u32 \<Rightarrow> nat list \<Rightarrow> nat list" where
  "skip_left aContent dbpage aLeft =
     (case aLeft of [] \<Rightarrow> [] | x # xs \<Rightarrow> if aContent ! x = dbpage then xs else aLeft)"

lemma skip_left_length [simp]: "length (skip_left c d xs) \<le> length xs"
  by (auto simp: skip_left_def split: list.splits)

text \<open>The loop of \<open>walMerge\<close>: what is left of both lists.\<close>

function walMerge :: "u32 list \<Rightarrow> nat list \<Rightarrow> nat list \<Rightarrow> nat list" where
  "walMerge aContent aLeft aRight =
     (if aLeft = [] \<and> aRight = [] then []
      else if aLeft \<noteq> [] \<and> (aRight = [] \<or> aContent ! hd aLeft < aContent ! hd aRight)
      then (let logpage = hd aLeft
            in logpage # walMerge aContent (skip_left aContent (aContent ! logpage) (tl aLeft)) aRight)
      else (let logpage = hd aRight
            in logpage # walMerge aContent (skip_left aContent (aContent ! logpage) aLeft) (tl aRight)))"
  by pat_completeness auto
termination
proof (relation "measure (\<lambda>(c, l, r). length l + length r)", goal_cases)
  case (2 c l r x)
  have "length (skip_left c (c ! x) (tl l)) \<le> length (tl l)" by (rule skip_left_length)
  moreover obtain y ys where "l = y # ys" using 2 by (cases l) auto
  ultimately show ?case by (simp add: less_Suc_eq_le)
next
  case (3 c l r x)
  have "length (skip_left c (c ! x) l) \<le> length l" by (rule skip_left_length)
  moreover obtain y ys where "r = y # ys" using 3 by (cases r) auto
  ultimately show ?case by (simp add: less_Suc_eq_le)
qed simp

declare walMerge.simps [simp del]

function carry_loop :: "u32 list \<Rightarrow> nat list list \<Rightarrow> nat \<Rightarrow> nat \<Rightarrow> nat list \<Rightarrow> nat \<times> nat list" where
  "carry_loop aContent aSub iList iSub aMerge =
     (if bit iList iSub then carry_loop aContent aSub iList (Suc iSub) (walMerge aContent (aSub ! iSub) aMerge)
      else (iSub, aMerge))"
  by pat_completeness auto
termination
proof (relation "measure (\<lambda>(c, a, i, s, m). i div 2 ^ s)", goal_cases)
  case (2 c a i s m)
  then have "0 < i div 2 ^ s" by (simp add: bit_iff_odd odd_pos)
  moreover have "i div 2 ^ Suc s = i div 2 ^ s div 2" by (simp only: power_Suc2 div_mult2_eq)
  ultimately show ?case by simp
qed simp

declare carry_loop.simps [simp del]

fun sort_loop :: "u32 list \<Rightarrow> nat list \<Rightarrow> nat list \<Rightarrow> nat list list \<times> nat \<times> nat list \<Rightarrow> nat list list \<times> nat \<times> nat list" where
  "sort_loop aContent aList [] st = st"
| "sort_loop aContent aList (iList # is) (aSub, iSub, aMerge) =
     (let (iSub, aMerge) = carry_loop aContent aSub iList 0 [aList ! iList]
      in sort_loop aContent aList is (aSub[iSub := aMerge], iSub, aMerge))"

fun final_loop :: "u32 list \<Rightarrow> nat list list \<Rightarrow> nat \<Rightarrow> nat list \<Rightarrow> nat list \<Rightarrow> nat list" where
  "final_loop aContent aSub nList [] aMerge = aMerge"
| "final_loop aContent aSub nList (iSub # is) aMerge =
     final_loop aContent aSub nList is
       (if bit nList iSub then walMerge aContent (aSub ! iSub) aMerge else aMerge)"

definition walMergesort :: "u32 list \<Rightarrow> nat list \<Rightarrow> nat list" where
  "walMergesort aContent aList =
     (let nList = length aList;
          (aSub, iSub, aMerge) = sort_loop aContent aList [0..<nList] (replicate 13 [], 0, [])
      in final_loop aContent aSub nList [Suc iSub..<13] aMerge)"

subsection \<open>The iterator\<close>

record wal_segment =
  iNext :: nat
  aIndex :: "nat list"
  segPgno :: "u32 list"
  nEntry :: nat
  segZero :: nat

record wal_iterator =
  iPrior :: u32
  aSegment :: "wal_segment list"

text \<open>The segments from number \<open>i\<close> up; those before the first stay zero.\<close>

fun init_segments :: "wal_index \<Rightarrow> nat \<Rightarrow> nat \<Rightarrow> nat list \<Rightarrow> wal_segment list \<Rightarrow> rc + wal_segment list" where
  "init_segments wi iLast nSegment [] segs = Inr segs"
| "init_segments wi iLast nSegment (i # is) segs =
     (case walHashGet wi i of
        Inl rc \<Rightarrow> Inl rc
      | Inr (pg, z) \<Rightarrow>
          (let n = (if i + 1 = nSegment then iLast - z else length (aPgno pg));
               idx = walMergesort (aPgno pg) [0..<n]
           in init_segments wi iLast nSegment is
                (segs[i := \<lparr>iNext = 0, aIndex = idx, segPgno = aPgno pg, nEntry = length idx, segZero = z + 1\<rparr>])))"

definition walIteratorInit :: "bool \<Rightarrow> wal_index \<Rightarrow> nat \<Rightarrow> nat \<Rightarrow> rc + wal_iterator" where
  "walIteratorInit mallocOk wi iLast nBackfill =
     (if \<not> mallocOk then Inl SQLITE_NOMEM
      else (let nSegment = walFramePage iLast + 1
            in map_sum id (\<lambda>segs. \<lparr>iPrior = 0, aSegment = segs\<rparr>)
                 (init_segments wi iLast nSegment [walFramePage (nBackfill + 1)..<nSegment]
                    (replicate nSegment \<lparr>iNext = 0, aIndex = [], segPgno = [], nEntry = 0, segZero = 0\<rparr>))))"

function segment_skip :: "u32 \<Rightarrow> wal_segment \<Rightarrow> wal_segment" where
  "segment_skip iMin s =
     (if iNext s < nEntry s \<and> \<not> segPgno s ! (aIndex s ! iNext s) > iMin
      then segment_skip iMin (s\<lparr>iNext := iNext s + 1\<rparr>) else s)"
  by pat_completeness auto
termination
  by (relation "measure (\<lambda>(m, s). nEntry s - iNext s)") auto

declare segment_skip.simps [simp del]

text \<open>The segments in the order the code visits them, from the last.\<close>

fun next_loop :: "u32 \<Rightarrow> wal_segment list \<Rightarrow> u32 \<Rightarrow> nat \<Rightarrow> wal_segment list \<times> u32 \<times> nat" where
  "next_loop iMin [] iRet iFrame = ([], iRet, iFrame)"
| "next_loop iMin (s # ss) iRet iFrame =
     (let s = segment_skip iMin s;
          e = aIndex s ! iNext s;
          take_it = iNext s < nEntry s \<and> segPgno s ! e < iRet;
          (ss, r) = next_loop iMin ss (if take_it then segPgno s ! e else iRet) (if take_it then segZero s + e else iFrame)
      in (s # ss, r))"

definition walIteratorNext :: "wal_iterator \<Rightarrow> wal_iterator \<times> (u32 \<times> nat) option" where
  "walIteratorNext p =
     (let (ss, iRet, iFrame) = next_loop (iPrior p) (rev (aSegment p)) 0xFFFFFFFF 0
      in (p\<lparr>iPrior := iRet, aSegment := rev ss\<rparr>, if iRet = 0xFFFFFFFF then None else Some (iRet, iFrame)))"

section \<open>The merge sort\<close>

text \<open>A list of indices sorted by page, with the newest index of each page of \<open>A\<close>.\<close>

definition picked :: "u32 list \<Rightarrow> nat set \<Rightarrow> nat list \<Rightarrow> bool" where
  "picked c A xs \<longleftrightarrow> sorted_wrt (\<lambda>x y. c ! x < c ! y) xs \<and> set xs = {x \<in> A. \<forall>y \<in> A. c ! y = c ! x \<longrightarrow> y \<le> x}"

lemma skip_left_set:
  assumes "sorted_wrt (\<lambda>x y. c ! x < c ! y) xs" "\<And>x. x \<in> set xs \<Longrightarrow> d \<le> c ! x"
  shows "set (skip_left c d xs) = {x \<in> set xs. c ! x \<noteq> d}" "sorted_wrt (\<lambda>x y. c ! x < c ! y) (skip_left c d xs)"
  using assms by (cases xs; force simp: skip_left_def)+

lemma merge_set:
  assumes "sorted_wrt (\<lambda>x y. c ! x < c ! y) l" "sorted_wrt (\<lambda>x y. c ! x < c ! y) r"
  shows "set (walMerge c l r) = {x \<in> set l. c ! x \<notin> (!) c ` set r} \<union> set r \<and>
    sorted_wrt (\<lambda>x y. c ! x < c ! y) (walMerge c l r)"
  using assms
proof (induction c l r rule: walMerge.induct)
  case (1 c l r)
  consider "l = []" "r = []" | "l \<noteq> []" "r = [] \<or> c ! hd l < c ! hd r"
    | "r \<noteq> []" "\<not> (l \<noteq> [] \<and> (r = [] \<or> c ! hd l < c ! hd r))" by blast
  then show ?case
  proof cases
    case 1
    then show ?thesis by (simp add: walMerge.simps)
  next
    case 2
    then obtain x xs where l: "l = x # xs" by (cases l) auto
    have xs: "sorted_wrt (\<lambda>x y. c ! x < c ! y) xs" "\<And>y. y \<in> set xs \<Longrightarrow> c ! x < c ! y" using 1(3) l by auto
    have sk: "skip_left c (c ! x) xs = xs" using xs(2) [of "hd xs"] by (cases xs) (auto simp: skip_left_def)
    have rx: "c ! x < c ! y" if "y \<in> set r" for y using 2 1(4) that l by (cases r) auto
    have m: "walMerge c l r = x # walMerge c xs r" using 2 l sk by (subst walMerge.simps) (simp add: Let_def)
    have IH: "set (walMerge c xs r) = {x \<in> set xs. c ! x \<notin> (!) c ` set r} \<union> set r \<and>
      sorted_wrt (\<lambda>x y. c ! x < c ! y) (walMerge c xs r)"
      using 1(1) 2 l sk xs(1) 1(4) by auto
    show ?thesis unfolding m using IH xs(2) rx l by fastforce
  next
    case 3
    then obtain y ys where r: "r = y # ys" by (cases r) auto
    have ys: "sorted_wrt (\<lambda>x y. c ! x < c ! y) ys" "\<And>z. z \<in> set ys \<Longrightarrow> c ! y < c ! z" using 1(4) r by auto
    have ly: "c ! y \<le> c ! x" if "x \<in> set l" for x using 3 1(3) that r by (cases l) auto
    let ?l = "skip_left c (c ! y) l"
    note sk = skip_left_set [OF 1(3) ly]
    have m: "walMerge c l r = y # walMerge c ?l ys" using 3 r by (subst walMerge.simps) (auto simp: Let_def)
    have IH: "set (walMerge c ?l ys) = {x \<in> set ?l. c ! x \<notin> (!) c ` set ys} \<union> set ys \<and>
      sorted_wrt (\<lambda>x y. c ! x < c ! y) (walMerge c ?l ys)"
      using 1(2) 3 r sk(2) ys(1) by auto
    have keys: "(!) c ` set r = insert (c ! y) ((!) c ` set ys)" "set r = insert y (set ys)" using r by simp_all
    have "set (y # walMerge c ?l ys) = {x \<in> set l. c ! x \<notin> (!) c ` set r} \<union> set r"
      unfolding keys using IH sk(1) by auto
    moreover have "c ! y < c ! z" if "z \<in> set (walMerge c ?l ys)" for z
      using that IH sk(1) ys(2) ly [of z] by (auto simp: order_less_le)
    ultimately show ?thesis unfolding m using IH by simp
  qed
qed

lemma picked_merge:
  assumes l: "picked c A l" and r: "picked c B r" and lt: "\<And>x y. x \<in> A \<Longrightarrow> y \<in> B \<Longrightarrow> x < y"
    and fin: "finite B"
  shows "picked c (A \<union> B) (walMerge c l r)"
proof -
  have keys: "(!) c ` set r = (!) c ` B"
  proof (intro equalityI image_subsetI)
    fix y assume "y \<in> B"
    define m where "m = Max {z \<in> B. c ! z = c ! y}"
    have f: "finite {z \<in> B. c ! z = c ! y}" "{z \<in> B. c ! z = c ! y} \<noteq> {}" using fin \<open>y \<in> B\<close> by auto
    have m: "m \<in> B" "c ! m = c ! y" using Max_in [OF f] unfolding m_def by blast+
    have "z \<le> m" if "z \<in> B" "c ! z = c ! m" for z
      unfolding m_def by (rule Max_ge [OF f(1)]) (use that m(2) in simp)
    then have "m \<in> set r" using r m(1) unfolding picked_def by blast
    then show "c ! y \<in> (!) c ` set r" using m(2) by (metis imageI)
  qed (use r in \<open>auto simp: picked_def\<close>)
  have "set (walMerge c l r) = {x \<in> set l. c ! x \<notin> (!) c ` B} \<union> set r"
    "sorted_wrt (\<lambda>x y. c ! x < c ! y) (walMerge c l r)"
    using merge_set [of c l r] l r unfolding picked_def keys by blast+
  moreover have "{x \<in> set l. c ! x \<notin> (!) c ` B} \<union> set r = {x \<in> A \<union> B. \<forall>y \<in> A \<union> B. c ! y = c ! x \<longrightarrow> y \<le> x}"
    using l r lt unfolding picked_def by (fastforce simp: image_iff order_less_le)
  ultimately show ?thesis by (simp add: picked_def)
qed


text \<open>
  The bits of the number of elements done say which sublists are in use: sublist \<open>k\<close> covers the
  \<open>2 ^ k\<close> elements from \<open>base n (Suc k)\<close>, the number with its low bits cleared.
\<close>

definition base :: "nat \<Rightarrow> nat \<Rightarrow> nat" where
  "base n k = n div 2 ^ k * 2 ^ k"

lemma base_le: "base n k \<le> n" by (simp add: base_def)

lemma base_0 [simp]: "base n 0 = n" by (simp add: base_def)

lemma base_Suc: "base n k = base n (Suc k) + (if bit n k then 2 ^ k else 0)"
proof -
  define q where "q = n div 2 ^ k"
  have "n div 2 ^ Suc k = q div 2" unfolding q_def by (simp only: power_Suc2 div_mult2_eq)
  then have "base n (Suc k) = q div 2 * (2 * 2 ^ k)" by (simp add: base_def)
  moreover have "base n k = q * 2 ^ k" by (simp add: base_def q_def)
  moreover have "bit n k \<longleftrightarrow> odd q" by (simp add: bit_iff_odd q_def)
  ultimately show ?thesis by (cases "odd q") (auto elim!: oddE evenE simp: algebra_simps)
qed

lemma low_bits:
  "(\<And>k. k < s \<Longrightarrow> bit n k) \<Longrightarrow> base n s + 2 ^ s = Suc n"
proof (induction s)
  case (Suc s)
  then have "base n s + 2 ^ s = Suc n" "bit n s" by simp_all
  then show ?case using base_Suc [of n s] by simp
qed simp

lemma carry_bits:
  assumes low: "\<And>k. k < s \<Longrightarrow> bit n k" and stop: "\<not> bit n s"
  shows "base (Suc n) s = Suc n" "bit (Suc n) s" "k < s \<Longrightarrow> \<not> bit (Suc n) k"
    "s < k \<Longrightarrow> bit (Suc n) k \<longleftrightarrow> bit n k" "s < k \<Longrightarrow> base (Suc n) k = base n k"
proof -
  define q where "q = n div 2 ^ s"
  have "base n s + 2 ^ s = Suc n" by (rule low_bits) (rule low)
  then have q: "Suc n = Suc q * 2 ^ s" "even q" using stop by (simp_all add: base_def q_def bit_iff_odd)
  have dq: "Suc n div 2 ^ s = Suc q" unfolding q(1) by simp
  show "base (Suc n) s = Suc n" unfolding base_def dq using q(1) by simp
  show "bit (Suc n) s" using q(2) dq by (simp add: bit_iff_odd)
  show "\<not> bit (Suc n) k" if "k < s"
  proof -
    have "(2 :: nat) ^ s = 2 ^ k * (2 * 2 ^ (s - k - 1))" using that
      by (metis Suc_diff_1 diff_diff_left add.commute le_add_diff_inverse less_imp_le_nat plus_1_eq_Suc power_Suc power_add zero_less_diff)
    then have "Suc n div 2 ^ k = Suc q * (2 * 2 ^ (s - k - 1))" unfolding q(1) by (simp del: mult_Suc)
    then show ?thesis by (simp add: bit_iff_odd del: mult_Suc)
  qed
  have up: "Suc n div 2 ^ k = n div 2 ^ k" if "s < k"
  proof -
    obtain d where d: "k = s + Suc d" using \<open>s < k\<close> less_iff_Suc_add by auto
    have half: "Suc q div 2 = q div 2" using q(2) by (auto elim: evenE)
    have "Suc n div 2 ^ k = Suc q div 2 div 2 ^ d" unfolding d power_add div_mult2_eq dq by (simp only: power_Suc div_mult2_eq)
    moreover have "n div 2 ^ k = q div 2 div 2 ^ d" unfolding d power_add div_mult2_eq q_def by (simp only: power_Suc div_mult2_eq)
    ultimately show ?thesis using half by simp
  qed
  show "s < k \<Longrightarrow> bit (Suc n) k \<longleftrightarrow> bit n k" by (simp add: bit_iff_odd up)
  show "s < k \<Longrightarrow> base (Suc n) k = base n k" by (simp add: base_def up)
qed

text \<open>Joining a merged stretch with the sublist before it.\<close>

lemma picked_join:
  assumes "picked c {i..<j} l" "picked c {j..<n} r" "i \<le> j" "j \<le> n"
  shows "picked c {i..<n} (walMerge c l r)"
proof -
  have "picked c ({i..<j} \<union> {j..<n}) (walMerge c l r)" by (rule picked_merge [OF assms(1,2)]) auto
  then show ?thesis using assms(3,4) by (simp add: ivl_disj_un)
qed

lemma base_anti: "base n (Suc k) \<le> base n k" using base_Suc [of n k] by simp

definition subs_ok :: "u32 list \<Rightarrow> nat \<Rightarrow> nat \<Rightarrow> nat list list \<Rightarrow> bool" where
  "subs_ok c n s aSub \<longleftrightarrow> (\<forall>k. s \<le> k \<longrightarrow> bit n k \<longrightarrow> picked c {base n (Suc k)..<base n k} (aSub ! k))"

lemma carry_loop_spec:
  "subs_ok c n s aSub \<Longrightarrow> picked c {base n s..<Suc n} aMerge \<Longrightarrow>
    carry_loop c aSub n s aMerge = (s', m) \<Longrightarrow>
    s \<le> s' \<and> \<not> bit n s' \<and> (\<forall>k. s \<le> k \<longrightarrow> k < s' \<longrightarrow> bit n k) \<and> picked c {base n s'..<Suc n} m"
proof (induction c aSub n s aMerge rule: carry_loop.induct)
  case (1 c aSub n s aMerge)
  show ?case
  proof (cases "bit n s")
    case True
    have "picked c {base n (Suc s)..<base n s} (aSub ! s)" using 1(2) True by (simp add: subs_ok_def)
    then have p: "picked c {base n (Suc s)..<Suc n} (walMerge c (aSub ! s) aMerge)"
      by (rule picked_join [OF _ 1(3) base_anti le_SucI [OF base_le]])
    have "subs_ok c n (Suc s) aSub" using 1(2) by (simp add: subs_ok_def)
    from 1(1) [OF True this p] 1(4) True show ?thesis
      by (simp add: carry_loop.simps [of c aSub n s]) (metis Suc_leI le_neq_implies_less Suc_leD)
  next
    case False
    then show ?thesis using 1(3,4) by (simp add: carry_loop.simps)
  qed
qed

lemma final_loop_spec:
  "s \<le> t \<Longrightarrow> subs_ok c n s aSub \<Longrightarrow> picked c {base n s..<n} aMerge \<Longrightarrow>
    picked c {base n t..<n} (final_loop c aSub n [s..<t] aMerge)"
proof (induction "t - s" arbitrary: s aMerge)
  case 0
  then show ?case by simp
next
  case (Suc d)
  then have st: "s < t" by simp
  let ?m = "if bit n s then walMerge c (aSub ! s) aMerge else aMerge"
  have "picked c {base n (Suc s)..<n} ?m"
  proof (cases "bit n s")
    case True
    then have "picked c {base n (Suc s)..<base n s} (aSub ! s)" using Suc.prems(2) by (simp add: subs_ok_def)
    then show ?thesis using picked_join [OF _ Suc.prems(3) base_anti base_le] True by simp
  next
    case False
    then show ?thesis using Suc.prems(3) base_Suc [of n s] by simp
  qed
  moreover have "subs_ok c n (Suc s) aSub" using Suc.prems(2) by (simp add: subs_ok_def)
  ultimately have "picked c {base n t..<n} (final_loop c aSub n [Suc s..<t] ?m)"
    using Suc.hyps st by simp
  then show ?case using st by (simp add: upt_conv_Cons)
qed

lemma sort_loop_spec:
  "n \<le> N \<Longrightarrow> N \<le> 4096 \<Longrightarrow> length aSub = 13 \<Longrightarrow> subs_ok c n 0 aSub \<Longrightarrow>
    (0 < n \<longrightarrow> picked c {base n (Suc iSub)..<n} aMerge) \<Longrightarrow> iSub < 13 \<Longrightarrow>
    sort_loop c [0..<N] [n..<N] (aSub, iSub, aMerge) = (aSub', iSub', m) \<Longrightarrow>
    subs_ok c N 0 aSub' \<and> (0 < N \<longrightarrow> picked c {base N (Suc iSub')..<N} m) \<and> iSub' < 13"
proof (induction "N - n" arbitrary: n aSub iSub aMerge)
  case 0
  then show ?case by auto
next
  case (Suc d)
  then have nN: "n < N" by simp
  obtain s m0 where cl: "carry_loop c aSub n 0 [n] = (s, m0)" by fastforce
  have "picked c {base n 0..<Suc n} [n]" by (auto simp: picked_def)
  from carry_loop_spec [OF Suc.prems(4) this cl]
  have s: "\<not> bit n s" "\<And>k. k < s \<Longrightarrow> bit n k" "picked c {base n s..<Suc n} m0" by auto
  note cb = carry_bits [OF s(2) s(1)]
  have "\<not> bit n 12" using nN Suc.prems(2) by (simp add: bit_iff_odd)
  then have s13: "s < 13" using s(2) [of 12] by (cases "12 < s") auto
  have b: "base (Suc n) (Suc s) = base n s" using cb(5) [of "Suc s"] base_Suc [of n s] s(1) by simp
  have sub: "subs_ok c (Suc n) 0 (aSub[s := m0])"
    unfolding subs_ok_def
  proof (intro allI impI)
    fix k assume k: "bit (Suc n) k"
    consider "k < s" | "k = s" | "s < k" by linarith
    then show "picked c {base (Suc n) (Suc k)..<base (Suc n) k} (aSub[s := m0] ! k)"
    proof cases
      case 1
      then show ?thesis using cb(3) k by blast
    next
      case 2
      then show ?thesis using s(3) s13 Suc.prems(3) b cb(1) by simp
    next
      case 3
      then show ?thesis using Suc.prems(4) k cb(4,5) [of k] cb(5) [of "Suc k"] by (simp add: subs_ok_def)
    qed
  qed
  have nth: "[0..<N] ! n = n" using nN by simp
  have "sort_loop c [0..<N] [n..<N] (aSub, iSub, aMerge) = sort_loop c [0..<N] [Suc n..<N] (aSub[s := m0], s, m0)"
    unfolding upt_conv_Cons [OF nN] sort_loop.simps nth using cl by simp
  then show ?case
    using Suc.hyps(1) [of "Suc n" "aSub[s := m0]" s m0] Suc.hyps(2) Suc.prems sub s13 s(3) b by simp
qed

lemma mergesort_picked:
  assumes "0 < N" "N \<le> 4096"
  shows "picked c {0..<N} (walMergesort c [0..<N])"
proof -
  obtain aSub iSub m where sl: "sort_loop c [0..<N] [0..<N] (replicate 13 [], 0, []) = (aSub, iSub, m)"
    using prod_cases3 by blast
  have "subs_ok c 0 0 (replicate 13 [])" by (simp add: subs_ok_def)
  with sort_loop_spec [of 0 N "replicate 13 []" c 0 "[]" aSub iSub m] sl assms
  have r: "subs_ok c N 0 aSub" "picked c {base N (Suc iSub)..<N} m" "iSub < 13" by simp_all
  have "picked c {base N 13..<N} (final_loop c aSub N [Suc iSub..<13] m)"
    by (rule final_loop_spec [OF _ _ r(2)]) (use r in \<open>auto simp: subs_ok_def\<close>)
  moreover have "base N 13 = 0" using assms by (simp add: base_def)
  ultimately show ?thesis by (simp add: walMergesort_def sl)
qed


section \<open>The segments\<close>

abbreviation seg_page :: "wal_segment \<Rightarrow> nat \<Rightarrow> u32" where
  "seg_page s j \<equiv> segPgno s ! (aIndex s ! j)"

definition entries :: "wal_segment \<Rightarrow> (u32 \<times> nat) set" where
  "entries s = (\<lambda>e. (segPgno s ! e, segZero s + e)) ` set (take (nEntry s) (aIndex s))"

text \<open>The segment of table \<open>h\<close>, wherever its iterator stands.\<close>

definition seg_ok :: "u32 list \<Rightarrow> nat \<Rightarrow> nat \<Rightarrow> wal_segment \<Rightarrow> bool" where
  "seg_ok ps iLast h s \<longleftrightarrow> nEntry s = length (aIndex s) \<and> segZero s = iZero h + 1 \<and>
     picked (segPgno s) {0..<min (cap h) (iLast - iZero h)} (aIndex s) \<and>
     (\<forall>j < min (cap h) (iLast - iZero h). segPgno s ! j = ps ! (iZero h + j))"

lemma seg_entries:
  assumes s: "seg_ok ps iLast h s" and z: "iZero h < iLast"
  shows "(p, f) \<in> entries s \<longleftrightarrow> iZero h < f \<and> f \<le> min iLast (iZero h + cap h) \<and> ps ! (f - 1) = p \<and>
    (\<forall>g. f < g \<longrightarrow> g \<le> min iLast (iZero h + cap h) \<longrightarrow> ps ! (g - 1) \<noteq> p)"
proof -
  let ?n = "min (cap h) (iLast - iZero h)" and ?m = "min iLast (iZero h + cap h)"
  have n: "nEntry s = length (aIndex s)" "segZero s = iZero h + 1"
    "set (aIndex s) = {x \<in> {0..<?n}. \<forall>y \<in> {0..<?n}. segPgno s ! y = segPgno s ! x \<longrightarrow> y \<le> x}"
    "\<And>j. j < ?n \<Longrightarrow> segPgno s ! j = ps ! (iZero h + j)"
    using s by (simp_all add: seg_ok_def picked_def)
  have m: "iZero h + ?n = ?m" using z by simp
  have t: "take (nEntry s) (aIndex s) = aIndex s" using n(1) by simp
  define N where "N = ?n"
  have "(p, f) \<in> entries s \<longleftrightarrow> (\<exists>e < ?n. f = iZero h + 1 + e \<and> ps ! (iZero h + e) = p \<and>
      (\<forall>y < ?n. ps ! (iZero h + y) = p \<longrightarrow> y \<le> e))"
    unfolding entries_def t n(2,3) N_def [symmetric] using n(4) [folded N_def] by (auto simp: image_iff)
  also have "\<dots> \<longleftrightarrow> iZero h < f \<and> f \<le> ?m \<and> ps ! (f - 1) = p \<and> (\<forall>g. f < g \<longrightarrow> g \<le> ?m \<longrightarrow> ps ! (g - 1) \<noteq> p)"
  proof
    assume "\<exists>e < ?n. f = iZero h + 1 + e \<and> ps ! (iZero h + e) = p \<and> (\<forall>y < ?n. ps ! (iZero h + y) = p \<longrightarrow> y \<le> e)"
    then obtain e where e: "e < ?n" "f = iZero h + 1 + e" "ps ! (iZero h + e) = p"
      "\<And>y. y < ?n \<Longrightarrow> ps ! (iZero h + y) = p \<Longrightarrow> y \<le> e" by blast
    have "ps ! (g - 1) \<noteq> p" if "f < g" "g \<le> ?m" for g
    proof
      assume g: "ps ! (g - 1) = p"
      have "g - 1 = iZero h + (g - 1 - iZero h)" "g - 1 - iZero h < ?n" using that e(2) m by linarith+
      with g e(4) [of "g - 1 - iZero h"] have "g - 1 - iZero h \<le> e" by simp
      with that e(2) show False by simp
    qed
    moreover have "f \<le> ?m" using e(1,2) m by linarith
    ultimately show "iZero h < f \<and> f \<le> ?m \<and> ps ! (f - 1) = p \<and> (\<forall>g. f < g \<longrightarrow> g \<le> ?m \<longrightarrow> ps ! (g - 1) \<noteq> p)"
      using e(2,3) by simp
  next
    assume f: "iZero h < f \<and> f \<le> ?m \<and> ps ! (f - 1) = p \<and> (\<forall>g. f < g \<longrightarrow> g \<le> ?m \<longrightarrow> ps ! (g - 1) \<noteq> p)"
    define e where "e = f - 1 - iZero h"
    have e: "e < ?n" "f = iZero h + 1 + e" "iZero h + e = f - 1" using f m unfolding e_def by linarith+
    have "y \<le> e" if "y < ?n" "ps ! (iZero h + y) = p" for y
    proof (rule ccontr)
      assume "\<not> y \<le> e"
      then have "f < iZero h + y + 1" "iZero h + y + 1 \<le> ?m" using e(2) that(1) m by linarith+
      with f have "ps ! (iZero h + y + 1 - 1) \<noteq> p" by blast
      with that(2) show False by simp
    qed
    with e f show "\<exists>e < ?n. f = iZero h + 1 + e \<and> ps ! (iZero h + e) = p \<and> (\<forall>y < ?n. ps ! (iZero h + y) = p \<longrightarrow> y \<le> e)"
      by (intro exI [of _ e]) simp
  qed
  finally show ?thesis .
qed

lemma seg_has_page:
  assumes "seg_ok ps iLast h s" "iZero h < g" "g \<le> min iLast (iZero h + cap h)" "ps ! (g - 1) = p"
  obtains f where "(p, f) \<in> entries s"
proof -
  have z: "iZero h < iLast" using assms(2,3) by simp
  let ?P = "\<lambda>f. iZero h < f \<and> ps ! (f - 1) = p" and ?m = "min iLast (iZero h + cap h)"
  show thesis
  proof (rule newest_cases [of ?P ?m])
    assume "\<And>i. 1 \<le> i \<Longrightarrow> i \<le> ?m \<Longrightarrow> \<not> ?P i"
    from this [of g] assms show thesis by simp
  next
    assume n: "1 \<le> newest ?P ?m" "newest ?P ?m \<le> ?m" "?P (newest ?P ?m)"
      "\<And>i. newest ?P ?m < i \<Longrightarrow> i \<le> ?m \<Longrightarrow> \<not> ?P i"
    define f where "f = newest ?P ?m"
    have "\<forall>g. f < g \<longrightarrow> g \<le> ?m \<longrightarrow> ps ! (g - 1) \<noteq> p" using n(3,4) unfolding f_def [symmetric] by auto
    then have "(p, f) \<in> entries s" using n(2,3) unfolding f_def [symmetric] seg_entries [OF assms(1) z] by blast
    then show thesis by (rule that)
  qed
qed

lemma init_segments_spec:
  assumes ok: "index_ok wi m ps" and last: "1 \<le> iLast" "iLast \<le> length ps" and nSeg: "nSegment = walFramePage iLast + 1"
  shows "distinct is \<Longrightarrow> (\<And>h. h \<in> set is \<Longrightarrow> h < nSegment) \<Longrightarrow> length segs = nSegment \<Longrightarrow>
    \<exists>segs'. init_segments wi iLast nSegment is segs = Inr segs' \<and> length segs' = nSegment \<and>
      (\<forall>h \<in> set is. seg_ok ps iLast h (segs' ! h) \<and> iNext (segs' ! h) = 0) \<and>
      (\<forall>h. h \<notin> set is \<longrightarrow> segs' ! h = segs ! h)"
proof (induction "is" arbitrary: segs)
  case (Cons i "is")
  have r: "iZero (walFramePage iLast) < iLast" "iLast \<le> iZero (walFramePage iLast) + cap (walFramePage iLast)"
    using walFramePage_range [OF last(1)] by simp_all
  have "i = walFramePage iLast \<or> i < walFramePage iLast" using Cons.prems(2) [of i] nSeg by auto
  then have z: "iZero i < iLast" and full: "i + 1 \<noteq> nSegment \<Longrightarrow> iZero i + cap i < iLast"
    and lastseg: "i + 1 = nSegment \<Longrightarrow> iLast \<le> iZero i + cap i"
    using iZero_mono [of i "walFramePage iLast"] r nSeg by auto
  then have zl: "iZero i < length ps" using last by simp
  obtain pg extra where pg: "wi i = Inr pg" "page_ok (cap i) pg (share ps i @ extra)" "m < length ps \<longrightarrow> extra = []"
    by (rule index_okD [OF ok zl])
  define n where "n = (if i + 1 = nSegment then iLast - iZero i else length (aPgno pg))"
  have n: "n = min (cap i) (iLast - iZero i)"
    using full lastseg z page_ok_nth(4) [OF pg(2)] by (auto simp: n_def)
  have "0 < cap i" "cap i \<le> 4096" by (rule cap_pos)+
  then have n_pos: "0 < n" "n \<le> 4096" using n z by simp_all
  define s where "s = \<lparr>iNext = 0, aIndex = walMergesort (aPgno pg) [0..<n], segPgno = aPgno pg,
    nEntry = length (walMergesort (aPgno pg) [0..<n]), segZero = iZero i + 1\<rparr>"
  have sok: "seg_ok ps iLast i s"
    unfolding seg_ok_def n [symmetric]
  proof (intro conjI allI impI)
    show "picked (segPgno s) {0..<n} (aIndex s)" using mergesort_picked [OF n_pos] by (simp add: s_def)
    fix j assume "j < n"
    then have j: "j < cap i" "iZero i + j < length ps" "j < length (share ps i)" using n last by (auto simp: share_length)
    then show "segPgno s ! j = ps ! (iZero i + j)"
      using page_ok_nth(1) [OF pg(2) j(1)] share_nth [OF j(1,2)] by (simp add: s_def nth_append)
  qed (simp_all add: s_def)
  have len: "length (segs[i := s]) = nSegment" "i < nSegment" using Cons.prems by simp_all
  obtain segs' where s': "init_segments wi iLast nSegment is (segs[i := s]) = Inr segs'" "length segs' = nSegment"
    "\<forall>h \<in> set is. seg_ok ps iLast h (segs' ! h) \<and> iNext (segs' ! h) = 0"
    "\<forall>h. h \<notin> set is \<longrightarrow> segs' ! h = segs[i := s] ! h"
    using Cons.IH [OF _ _ len(1)] Cons.prems by auto
  have "segs' ! i = s" using s'(4) Cons.prems(1,3) len(2) by simp
  then have "seg_ok ps iLast i (segs' ! i) \<and> iNext (segs' ! i) = 0" using sok by (simp add: s_def)
  moreover have "init_segments wi iLast nSegment (i # is) segs = Inr segs'"
    using s'(1) unfolding s_def
    by (simp only: init_segments.simps walHashGet_def pg(1) sum.case prod.case Let_def n_def [symmetric])
  ultimately show ?case using s'(2-4) by (intro exI [of _ segs']) auto
qed simp


section \<open>Stepping\<close>

text \<open>A segment whose entries before \<open>iNext\<close> have been returned.\<close>

definition seg_at :: "u32 \<Rightarrow> wal_segment \<Rightarrow> bool" where
  "seg_at iMin s \<longleftrightarrow> nEntry s = length (aIndex s) \<and> sorted_wrt (\<lambda>x y. segPgno s ! x < segPgno s ! y) (aIndex s) \<and>
     (\<forall>j < iNext s. j < nEntry s \<longrightarrow> seg_page s j \<le> iMin)"

lemma seg_at_mono: "seg_at a s \<Longrightarrow> a \<le> b \<Longrightarrow> seg_at b s"
  unfolding seg_at_def by force

lemma entries_iNext [simp]: "entries (s\<lparr>iNext := i\<rparr>) = entries s"
  by (simp add: entries_def)

lemma seg_ok_iNext [simp]: "seg_ok ps iLast h (s\<lparr>iNext := i\<rparr>) = seg_ok ps iLast h s"
  by (simp add: seg_ok_def)

lemma segment_skip_spec:
  "seg_at iMin s \<Longrightarrow>
    \<exists>i. segment_skip iMin s = s\<lparr>iNext := i\<rparr> \<and> seg_at iMin (s\<lparr>iNext := i\<rparr>) \<and> (i < nEntry s \<longrightarrow> iMin < seg_page s i)"
proof (induction iMin s rule: segment_skip.induct)
  case (1 iMin s)
  show ?case
  proof (cases "iNext s < nEntry s \<and> \<not> seg_page s (iNext s) > iMin")
    case True
    then have "seg_at iMin (s\<lparr>iNext := iNext s + 1\<rparr>)" using 1(2) by (auto simp: seg_at_def less_Suc_eq)
    with 1(1) [OF True] True show ?thesis by (simp add: segment_skip.simps [of iMin s])
  next
    case False
    then have "segment_skip iMin s = s" by (subst segment_skip.simps) auto
    with False 1(2) show ?thesis by (intro exI [of _ "iNext s"]) auto
  qed
qed

lemma entries_above:
  assumes s: "seg_at iMin s" and pf: "(p, f) \<in> entries s" and p: "iMin < p"
  shows "iNext s < nEntry s" "seg_page s (iNext s) \<le> p"
proof -
  obtain j where j: "j < nEntry s" "p = seg_page s j"
    using pf s by (auto simp: entries_def seg_at_def in_set_conv_nth)
  have "\<not> j < iNext s" using s j p unfolding seg_at_def by auto
  then show "iNext s < nEntry s" using j by simp
  show "seg_page s (iNext s) \<le> p"
  proof (cases "j = iNext s")
    case False
    with \<open>\<not> j < iNext s\<close> have "iNext s < j" by simp
    then have "segPgno s ! (aIndex s ! iNext s) < segPgno s ! (aIndex s ! j)"
      using s j sorted_wrt_nth_less [of "\<lambda>x y. segPgno s ! x < segPgno s ! y" "aIndex s" "iNext s" j]
      unfolding seg_at_def by simp
    then show ?thesis using j by simp
  qed (simp add: j)
qed

lemma entries_head: "iNext s < nEntry s \<Longrightarrow> seg_at iMin s \<Longrightarrow>
    (seg_page s (iNext s), segZero s + aIndex s ! iNext s) \<in> entries s"
  by (auto simp: entries_def seg_at_def)

text \<open>
  What the loop over segments returns: the smallest page above \<open>iMin\<close> and below \<open>r0\<close>, with the
  frame of the first segment visited that has it.
\<close>

definition scan_result :: "u32 \<Rightarrow> wal_segment list \<Rightarrow> u32 \<Rightarrow> nat \<Rightarrow> u32 \<Rightarrow> nat \<Rightarrow> bool" where
  "scan_result iMin ss r0 f0 r f \<longleftrightarrow>
     (\<forall>s \<in> set ss. \<forall>(p, g) \<in> entries s. iMin < p \<longrightarrow> r \<le> p) \<and>
     (r = r0 \<and> f = f0 \<or>
      r < r0 \<and> iMin < r \<and> (\<exists>k < length ss. (r, f) \<in> entries (ss ! k) \<and> (\<forall>k' < k. r \<notin> fst ` entries (ss ! k'))))"

lemma next_loop_spec:
  "(\<And>s. s \<in> set ss \<Longrightarrow> seg_at iMin s) \<Longrightarrow> next_loop iMin ss r0 f0 = (ss', r, f) \<Longrightarrow>
    list_all2 (\<lambda>s s'. \<exists>i. s' = s\<lparr>iNext := i\<rparr> \<and> seg_at iMin s') ss ss' \<and> r \<le> r0 \<and> scan_result iMin ss r0 f0 r f"
proof (induction ss arbitrary: r0 f0 ss' r f)
  case Nil
  then show ?case by (simp add: scan_result_def)
next
  case (Cons s ss)
  obtain i where i: "segment_skip iMin s = s\<lparr>iNext := i\<rparr>" "seg_at iMin (s\<lparr>iNext := i\<rparr>)" "i < nEntry s \<longrightarrow> iMin < seg_page s i"
    using segment_skip_spec Cons.prems(1) by (metis list.set_intros(1))
  define t where "t \<longleftrightarrow> i < nEntry s \<and> seg_page s i < r0"
  define r1 where "r1 = (if t then seg_page s i else r0)"
  define f1 where "f1 = (if t then segZero s + aIndex s ! i else f0)"
  obtain ss1 where nl: "next_loop iMin ss r1 f1 = (ss1, r, f)" and ss': "ss' = s\<lparr>iNext := i\<rparr> # ss1"
    using Cons.prems(2) unfolding r1_def f1_def t_def
    by (cases "next_loop iMin ss r1 f1") (auto simp: Let_def i(1) r1_def f1_def t_def split: prod.splits if_splits)
  have "\<And>s'. s' \<in> set ss \<Longrightarrow> seg_at iMin s'" using Cons.prems(1) by simp
  from Cons.IH [OF this nl]
  have IH: "list_all2 (\<lambda>s s'. \<exists>i. s' = s\<lparr>iNext := i\<rparr> \<and> seg_at iMin s') ss ss1" "r \<le> r1" "scan_result iMin ss r1 f1 r f" by auto
  have "r1 \<le> r0" by (auto simp: r1_def t_def)
  have head: "r1 \<le> p" if "(p, g) \<in> entries s" "iMin < p" for p g
    using entries_above [OF i(2), of p g] that by (auto simp: r1_def t_def)
  have "scan_result iMin (s # ss) r0 f0 r f"
    unfolding scan_result_def
  proof (intro conjI)
    show "\<forall>s \<in> set (s # ss). \<forall>(p, g) \<in> entries s. iMin < p \<longrightarrow> r \<le> p"
      using IH(2,3) head unfolding scan_result_def by fastforce
    show "r = r0 \<and> f = f0 \<or> r < r0 \<and> iMin < r \<and>
      (\<exists>k < length (s # ss). (r, f) \<in> entries ((s # ss) ! k) \<and> (\<forall>k' < k. r \<notin> fst ` entries ((s # ss) ! k')))"
    proof (cases "r = r1 \<and> f = f1")
      case True
      show ?thesis
      proof (cases t)
        case t: True
        have "(r, f) \<in> entries s" using True t entries_head [OF _ i(2)] by (simp add: r1_def f1_def t_def)
        then show ?thesis using True t i(3) by (intro disjI2) (auto simp: r1_def t_def)
      qed (use True in \<open>simp add: r1_def f1_def\<close>)
    next
      case False
      then obtain k where k: "k < length ss" "r < r1" "iMin < r" "(r, f) \<in> entries (ss ! k)" "\<forall>k' < k. r \<notin> fst ` entries (ss ! k')"
        using IH(3) unfolding scan_result_def by blast
      have rs: "r \<notin> fst ` entries s" using head k(2,3) by force
      have "\<forall>k' < Suc k. r \<notin> fst ` entries ((s # ss) ! k')"
      proof (intro allI impI)
        fix k' assume "k' < Suc k"
        then show "r \<notin> fst ` entries ((s # ss) ! k')" using k(5) rs by (cases k') simp_all
      qed
      then show ?thesis using k \<open>r1 \<le> r0\<close> by (intro disjI2 conjI exI [of _ "Suc k"]) auto
    qed
  qed
  then show ?case using IH(1,2) \<open>r1 \<le> r0\<close> i(2) unfolding ss' by auto
qed

lemma next_loop_above: "next_loop iMin ss r0 f0 = (ss', r, f) \<Longrightarrow> r = r0 \<or> iMin < r"
proof (induction ss arbitrary: r0 f0 ss')
  case (Cons s ss)
  have skip: "iMin < seg_page (segment_skip iMin s) (iNext (segment_skip iMin s)) \<or>
      \<not> iNext (segment_skip iMin s) < nEntry (segment_skip iMin s)" for s
  proof (induction iMin s rule: segment_skip.induct)
    case (1 iMin s)
    show ?case
    proof (cases "iNext s < nEntry s \<and> \<not> iMin < seg_page s (iNext s)")
      case True
      then show ?thesis using 1 [OF True] unfolding segment_skip.simps [of iMin s] if_P [OF True] by simp
    next
      case False
      show ?thesis unfolding segment_skip.simps [of iMin s] if_not_P [OF False] using False by blast
    qed
  qed
  then show ?case using Cons by (auto simp: Let_def split: prod.splits if_splits)
qed simp


lemma walIteratorNext_above:
  assumes "walIteratorNext p = (p', Some x)"
  shows "iPrior p < iPrior p'"
proof -
  obtain ss r f where nl: "next_loop (iPrior p) (rev (aSegment p)) 0xFFFFFFFF 0 = (ss, r, f)" using prod_cases3 by blast
  then show ?thesis using next_loop_above [OF nl] assms by (auto simp: walIteratorNext_def split: if_splits)
qed

lemma walIteratorNext_measure:
  assumes "walIteratorNext p = (p', Some x)"
  shows "2 ^ 32 - unat (iPrior p') < 2 ^ 32 - unat (iPrior p)"
proof -
  have "unat (iPrior p) < unat (iPrior p')" using walIteratorNext_above [OF assms] by (simp add: word_less_nat_alt)
  moreover have "unat (iPrior p') < 2 ^ 32" using unsigned_less [of "iPrior p'"] by simp
  ultimately show ?thesis by simp
qed

text \<open>All that an iterator returns, until it says that there is no more.\<close>

function iterator_pages :: "wal_iterator \<Rightarrow> (u32 \<times> nat) list" where
  "iterator_pages p = (case walIteratorNext p of (p', None) \<Rightarrow> [] | (p', Some x) \<Rightarrow> x # iterator_pages p')"
  by pat_completeness auto
termination
proof (relation "measure (\<lambda>p. 2 ^ 32 - unat (iPrior p))", goal_cases)
  case 2
  then show ?case using walIteratorNext_measure by (metis in_measure)
qed simp

declare iterator_pages.simps [simp del]

section \<open>The iterator\<close>

definition log_pages :: "u32 list \<Rightarrow> nat \<Rightarrow> nat \<Rightarrow> u32 set" where
  "log_pages ps iLast lo = {p. \<exists>f. iZero lo < f \<and> f \<le> iLast \<and> ps ! (f - 1) = p}"

definition it_ok :: "u32 list \<Rightarrow> nat \<Rightarrow> nat \<Rightarrow> wal_iterator \<Rightarrow> bool" where
  "it_ok ps iLast lo it \<longleftrightarrow> length (aSegment it) = walFramePage iLast + 1 \<and>
     (\<forall>h < length (aSegment it). (h < lo \<longrightarrow> nEntry (aSegment it ! h) = 0) \<and>
        (lo \<le> h \<longrightarrow> seg_ok ps iLast h (aSegment it ! h)) \<and> seg_at (iPrior it) (aSegment it ! h))"

lemma entries_zero: "nEntry s = 0 \<Longrightarrow> entries s = {}" by (simp add: entries_def)

lemma it_entries:
  assumes it: "it_ok ps iLast lo it" and last: "1 \<le> iLast" and h: "h < length (aSegment it)"
    and pf: "(p, f) \<in> entries (aSegment it ! h)"
    and later: "\<And>k. h < k \<Longrightarrow> k < length (aSegment it) \<Longrightarrow> p \<notin> fst ` entries (aSegment it ! k)"
  shows "p \<in> log_pages ps iLast lo" "f = newest (\<lambda>f. ps ! (f - 1) = p) iLast"
proof -
  have lo: "lo \<le> h" using it h pf entries_zero [of "aSegment it ! h"] unfolding it_ok_def by (cases "h < lo") auto
  have len: "length (aSegment it) = walFramePage iLast + 1" using it by (simp add: it_ok_def)
  have r: "iZero (walFramePage iLast) < iLast" "iLast \<le> iZero (walFramePage iLast) + cap (walFramePage iLast)"
    using walFramePage_range [OF last] by simp_all
  have z: "iZero k < iLast" if "k < length (aSegment it)" for k
    using iZero_mono [of k "walFramePage iLast"] r(1) that len by (cases "k = walFramePage iLast") auto
  have sok: "seg_ok ps iLast h (aSegment it ! h)" using it h lo by (simp add: it_ok_def)
  note e = seg_entries [OF sok z [OF h], of p f, THEN iffD1, OF pf]
  have "iZero lo \<le> iZero h" using iZero_mono [of lo h] lo by (cases "lo = h") auto
  then show "p \<in> log_pages ps iLast lo" using e unfolding log_pages_def by (intro CollectI exI [of _ f]) auto
  have "newest (\<lambda>f. ps ! (f - 1) = p) iLast = f"
  proof (rule newest_unique)
    show "1 \<le> f" "f \<le> iLast" "ps ! (f - 1) = p" using e by auto
    fix g assume g: "f < g" "g \<le> iLast"
    let ?k = "walFramePage g"
    have rk: "iZero ?k < g" "g \<le> iZero ?k + cap ?k" using walFramePage_range [of g] g by auto
    have kl: "?k < length (aSegment it)" using walFramePage_mono [OF g(2)] len by simp
    have hk: "h \<le> ?k" using iZero_mono [of ?k h] rk e g by (cases "?k < h") auto
    show "ps ! (g - 1) \<noteq> p"
    proof
      assume p: "ps ! (g - 1) = p"
      show False
      proof (cases "?k = h")
        case True
        then show False using e g rk p by auto
      next
        case False
        then have "h < ?k" "lo \<le> ?k" using hk lo by simp_all
        then have "seg_ok ps iLast ?k (aSegment it ! ?k)" using it kl by (simp add: it_ok_def)
        from seg_has_page [OF this rk(1) _ p] g(2) rk(2) obtain f' where "(p, f') \<in> entries (aSegment it ! ?k)" by auto
        then show False using later [OF \<open>h < ?k\<close> kl] by force
      qed
    qed
  qed
  then show "f = newest (\<lambda>f. ps ! (f - 1) = p) iLast" by simp
qed

lemma it_covers:
  assumes it: "it_ok ps iLast lo it" and p: "p \<in> log_pages ps iLast lo"
  obtains h f where "h < length (aSegment it)" "(p, f) \<in> entries (aSegment it ! h)"
proof -
  obtain g where g: "iZero lo < g" "g \<le> iLast" "ps ! (g - 1) = p" using p by (auto simp: log_pages_def)
  let ?k = "walFramePage g"
  have rk: "iZero ?k < g" "g \<le> iZero ?k + cap ?k" using walFramePage_range [of g] g by auto
  have kl: "?k < length (aSegment it)" using walFramePage_mono [OF g(2)] it by (simp add: it_ok_def)
  have "lo \<le> ?k" using iZero_mono [of ?k lo] rk g by (cases "?k < lo") auto
  then have "seg_ok ps iLast ?k (aSegment it ! ?k)" using it kl by (simp add: it_ok_def)
  from seg_has_page [OF this rk(1) _ g(3)] g(2) rk(2) obtain f where "(p, f) \<in> entries (aSegment it ! ?k)" by auto
  with kl show thesis by (rule that)
qed

lemma it_next:
  assumes it: "it_ok ps iLast lo it" and last: "1 \<le> iLast"
    and pages: "\<forall>p \<in> log_pages ps iLast lo. p < 0xFFFFFFFF"
    and nx: "walIteratorNext it = (it', res)"
  shows "it_ok ps iLast lo it'"
    "res = None \<Longrightarrow> {p \<in> log_pages ps iLast lo. iPrior it < p} = {}"
    "res = Some (p, f) \<Longrightarrow> p \<in> log_pages ps iLast lo \<and> iPrior it < p \<and> iPrior it' = p \<and>
       f = newest (\<lambda>f. ps ! (f - 1) = p) iLast \<and> (\<forall>q \<in> log_pages ps iLast lo. iPrior it < q \<longrightarrow> p \<le> q)"
proof -
  let ?S = "aSegment it"
  obtain ss r g where nl: "next_loop (iPrior it) (rev ?S) 0xFFFFFFFF 0 = (ss, r, g)" using prod_cases3 by blast
  have it': "it' = it\<lparr>iPrior := r, aSegment := rev ss\<rparr>" and res: "res = (if r = 0xFFFFFFFF then None else Some (r, g))"
    using nx by (auto simp: walIteratorNext_def nl)
  have at: "seg_at (iPrior it) s" if "s \<in> set (rev ?S)" for s
    using that it by (auto simp: it_ok_def in_set_conv_nth)
  from next_loop_spec [OF at nl]
  have l2: "list_all2 (\<lambda>s s'. \<exists>i. s' = s\<lparr>iNext := i\<rparr> \<and> seg_at (iPrior it) s') (rev ?S) ss"
    and sc: "scan_result (iPrior it) (rev ?S) 0xFFFFFFFF 0 r g" by auto
  have l2': "list_all2 (\<lambda>s s'. \<exists>i. s' = s\<lparr>iNext := i\<rparr> \<and> seg_at (iPrior it) s') ?S (rev ss)"
    using list_all2_rev [of _ "rev ?S" ss] l2 by simp
  have above: "iPrior it \<le> r"
  proof (cases "r = 0xFFFFFFFF")
    case True
    have "unat (iPrior it) < 2 ^ LENGTH(32)" by (rule unsigned_less)
    then show ?thesis unfolding True word_le_nat_alt by simp
  qed (use next_loop_above [OF nl] in auto)
  show "it_ok ps iLast lo it'"
    unfolding it_ok_def it'
  proof (simp, intro conjI allI impI)
    show len: "length ss = Suc (walFramePage iLast)" using list_all2_lengthD [OF l2'] it by (simp add: it_ok_def)
    fix h assume h: "h < length ss"
    obtain i where i: "rev ss ! h = (?S ! h)\<lparr>iNext := i\<rparr>" "seg_at (iPrior it) (rev ss ! h)"
      using list_all2_nthD2 [OF l2', of h] h by auto
    have hl: "h < length ?S" using h len it by (simp add: it_ok_def)
    show "h < lo \<Longrightarrow> nEntry (rev ss ! h) = 0" "lo \<le> h \<Longrightarrow> seg_ok ps iLast h (rev ss ! h)"
      using it hl i(1) by (simp_all add: it_ok_def)
    show "seg_at r (rev ss ! h)" by (rule seg_at_mono [OF i(2) above])
  qed
  have least: "r \<le> q" if "q \<in> log_pages ps iLast lo" "iPrior it < q" for q
  proof -
    note q = that
    obtain h f where hf: "h < length ?S" "(q, f) \<in> entries (?S ! h)" by (rule it_covers [OF it q(1)])
    then have "?S ! h \<in> set (rev ?S)" by simp
    then show ?thesis using sc hf(2) q(2) unfolding scan_result_def by blast
  qed
  show "{p \<in> log_pages ps iLast lo. iPrior it < p} = {}" if "res = None"
  proof (intro equals0I)
    fix q assume "q \<in> {p \<in> log_pages ps iLast lo. iPrior it < p}"
    then have "r \<le> q" "q < 0xFFFFFFFF" using least pages by blast+
    then show False using that res by (simp split: if_splits)
  qed
  assume "res = Some (p, f)"
  then have rp: "p = r" "f = g" "r \<noteq> 0xFFFFFFFF" using res by (simp_all split: if_splits)
  then obtain k where k: "k < length ?S" "(r, g) \<in> entries (rev ?S ! k)" "\<forall>k' < k. r \<notin> fst ` entries (rev ?S ! k')" "iPrior it < r"
    using sc unfolding scan_result_def by auto
  let ?h = "length ?S - Suc k"
  have h: "?h < length ?S" "rev ?S ! k = ?S ! ?h" using k(1) by (simp_all add: rev_nth)
  have later: "r \<notin> fst ` entries (?S ! j)" if j: "?h < j" "j < length ?S" for j
  proof -
    have "length ?S - Suc j < k" "rev ?S ! (length ?S - Suc j) = ?S ! j" using j k(1) by (simp_all add: rev_nth)
    then show ?thesis using k(3) by metis
  qed
  note e = it_entries [OF it last h(1) k(2) [unfolded h(2)] later]
  show "p \<in> log_pages ps iLast lo \<and> iPrior it < p \<and> iPrior it' = p \<and>
      f = newest (\<lambda>f. ps ! (f - 1) = p) iLast \<and> (\<forall>q \<in> log_pages ps iLast lo. iPrior it < q \<longrightarrow> p \<le> q)"
    using e k(4) least rp it' by auto
qed

lemma iterator_pages_ok:
  assumes last: "1 \<le> iLast" and pages: "\<forall>p \<in> log_pages ps iLast lo. p < 0xFFFFFFFF"
  shows "it_ok ps iLast lo it \<Longrightarrow>
    iterator_pages it = map (\<lambda>p. (p, newest (\<lambda>f. ps ! (f - 1) = p) iLast))
      (sorted_list_of_set {p \<in> log_pages ps iLast lo. iPrior it < p})"
proof (induction it rule: iterator_pages.induct)
  case (1 it)
  obtain it' res where nx: "walIteratorNext it = (it', res)" by fastforce
  note n = it_next [OF 1(2) last pages nx]
  show ?case
  proof (cases res)
    case None
    then show ?thesis using n(2) nx by (subst iterator_pages.simps) simp
  next
    case (Some x)
    obtain p f where x: "x = (p, f)" by (cases x)
    note s = n(3) [OF Some [unfolded x]]
    let ?A = "{q \<in> log_pages ps iLast lo. iPrior it < q}"
    have A: "?A \<noteq> {}" "finite ?A" using s by auto
    have "Min ?A = p" by (rule Min_eqI [OF A(2)]) (use s in auto)
    moreover have "?A - {p} = {q \<in> log_pages ps iLast lo. iPrior it' < q}" using s by (auto simp: order_less_le)
    ultimately have "sorted_list_of_set ?A = p # sorted_list_of_set {q \<in> log_pages ps iLast lo. iPrior it' < q}"
      using sorted_list_of_set_nonempty [OF A(2,1)] by simp
    moreover have "iterator_pages it = x # iterator_pages it'" using nx Some by (subst iterator_pages.simps) simp
    ultimately show ?thesis using 1(1) [of it' res x] nx Some n(1) s x by simp
  qed
qed


lemma iterator_init:
  assumes ok: "index_ok wi m ps" and last: "1 \<le> iLast" "iLast \<le> length ps"
  shows "\<exists>it. walIteratorInit True wi iLast nBackfill = Inr it \<and> it_ok ps iLast (walFramePage (nBackfill + 1)) it \<and> iPrior it = 0"
proof -
  define nS where "nS = walFramePage iLast + 1"
  let ?lo = "walFramePage (nBackfill + 1)"
  let ?z = "\<lparr>iNext = 0, aIndex = [], segPgno = [], nEntry = 0, segZero = 0\<rparr>"
  have "\<exists>segs'. init_segments wi iLast nS [?lo..<nS] (replicate nS ?z) = Inr segs' \<and> length segs' = nS \<and>
      (\<forall>h \<in> set [?lo..<nS]. seg_ok ps iLast h (segs' ! h) \<and> iNext (segs' ! h) = 0) \<and>
      (\<forall>h. h \<notin> set [?lo..<nS] \<longrightarrow> segs' ! h = replicate nS ?z ! h)"
    by (rule init_segments_spec [OF ok last nS_def]) simp_all
  then obtain segs where s: "init_segments wi iLast nS [?lo..<nS] (replicate nS ?z) = Inr segs" "length segs = nS"
    "\<forall>h \<in> set [?lo..<nS]. seg_ok ps iLast h (segs ! h) \<and> iNext (segs ! h) = 0"
    "\<forall>h. h \<notin> set [?lo..<nS] \<longrightarrow> segs ! h = replicate nS ?z ! h" by blast
  let ?it = "\<lparr>iPrior = 0, aSegment = segs\<rparr>"
  have low: "segs ! h = ?z" if "h < nS" "h < ?lo" for h using s(4) that by simp
  have high: "seg_ok ps iLast h (segs ! h)" "iNext (segs ! h) = 0" if "h < nS" "?lo \<le> h" for h
    using s(3) that by simp_all
  have "it_ok ps iLast ?lo ?it"
    unfolding it_ok_def
  proof (intro conjI allI impI)
    show "length (aSegment ?it) = walFramePage iLast + 1" using s(2) by (simp add: nS_def)
    fix h assume "h < length (aSegment ?it)"
    then have h: "h < nS" using s(2) by simp
    show "nEntry (aSegment ?it ! h) = 0" if "h < ?lo" using low [OF h that] by simp
    show "seg_ok ps iLast h (aSegment ?it ! h)" if "?lo \<le> h" using high(1) [OF h that] by simp
    show "seg_at (iPrior ?it) (aSegment ?it ! h)"
    proof (cases "?lo \<le> h")
      case True
      show ?thesis using high [OF h True] by (simp add: seg_at_def seg_ok_def picked_def)
    next
      case False
      then show ?thesis using low [OF h] by (simp add: seg_at_def)
    qed
  qed
  moreover have "walIteratorInit True wi iLast nBackfill = Inr ?it"
    unfolding walIteratorInit_def Let_def nS_def [symmetric] s(1) by simp
  ultimately show ?thesis by (intro exI [of _ ?it]) simp
qed

lemma iterator_all:
  assumes "index_ok wi m ps" "1 \<le> iLast" "iLast \<le> length ps" "0xFFFFFFFF \<notin> set ps" "0 \<notin> set ps"
  shows "\<exists>it. walIteratorInit True wi iLast nBackfill = Inr it \<and>
    iterator_pages it = map (\<lambda>p. (p, newest (\<lambda>f. ps ! (f - 1) = p) iLast))
      (sorted_list_of_set (log_pages ps iLast (walFramePage (nBackfill + 1))))"
proof -
  let ?lo = "walFramePage (nBackfill + 1)"
  have pg: "0 < p \<and> p < 0xFFFFFFFF" if "p \<in> log_pages ps iLast ?lo" for p
  proof -
    have "p \<in> set ps" using that assms(3) by (auto simp: log_pages_def)
    then have "p \<noteq> 0" "p \<noteq> 0xFFFFFFFF" using assms(4,5) by auto
    moreover have "unat p < 2 ^ LENGTH(32)" by (rule unsigned_less)
    moreover have "unat p \<noteq> unat (0xFFFFFFFF :: u32)" using \<open>p \<noteq> 0xFFFFFFFF\<close> unsigned_word_eqI by blast
    ultimately show ?thesis unfolding word_less_nat_alt by (simp add: unat_gt_0)
  qed
  obtain it where it: "walIteratorInit True wi iLast nBackfill = Inr it" "it_ok ps iLast ?lo it" "iPrior it = 0"
    using iterator_init [OF assms(1-3)] by blast
  have "{p \<in> log_pages ps iLast ?lo. iPrior it < p} = log_pages ps iLast ?lo" using pg it(3) by auto
  then show ?thesis using iterator_pages_ok [OF assms(2) _ it(2)] pg it(1) by auto
qed


lemma iterator_frames:
  assumes "1 \<le> iLast"
  shows "(p, f) \<in> set (map (\<lambda>p. (p, newest (\<lambda>f. ps ! (f - 1) = p) iLast)) (sorted_list_of_set (log_pages ps iLast lo))) \<longleftrightarrow>
    iZero lo < f \<and> f \<le> iLast \<and> ps ! (f - 1) = p \<and> (\<forall>g. f < g \<and> g \<le> iLast \<longrightarrow> ps ! (g - 1) \<noteq> p)"
proof -
  let ?P = "\<lambda>f. ps ! (f - 1) = p"
  have fin: "finite (log_pages ps iLast lo)" by simp
  have "p \<in> log_pages ps iLast lo \<and> newest ?P iLast = f \<longleftrightarrow>
      iZero lo < f \<and> f \<le> iLast \<and> ?P f \<and> (\<forall>g. f < g \<and> g \<le> iLast \<longrightarrow> \<not> ?P g)"
  proof
    assume a: "p \<in> log_pages ps iLast lo \<and> newest ?P iLast = f"
    then obtain g where g: "iZero lo < g" "g \<le> iLast" "?P g" by (auto simp: log_pages_def)
    show "iZero lo < f \<and> f \<le> iLast \<and> ?P f \<and> (\<forall>g. f < g \<and> g \<le> iLast \<longrightarrow> \<not> ?P g)"
    proof (rule newest_cases [of ?P iLast])
      assume "\<And>i. 1 \<le> i \<Longrightarrow> i \<le> iLast \<Longrightarrow> \<not> ?P i"
      from this [of g] g show ?thesis by simp
    next
      assume n: "newest ?P iLast \<le> iLast" "?P (newest ?P iLast)" "\<And>i. newest ?P iLast < i \<Longrightarrow> i \<le> iLast \<Longrightarrow> \<not> ?P i"
      have "\<not> newest ?P iLast < g" using n(3) g by blast
      with n g a show ?thesis by auto
    qed
  next
    assume a: "iZero lo < f \<and> f \<le> iLast \<and> ?P f \<and> (\<forall>g. f < g \<and> g \<le> iLast \<longrightarrow> \<not> ?P g)"
    then have "newest ?P iLast = f" by (intro newest_unique) auto
    then show "p \<in> log_pages ps iLast lo \<and> newest ?P iLast = f" using a by (auto simp: log_pages_def)
  qed
  then show ?thesis using fin by (auto simp: image_iff)
qed

text \<open>
  C9. The iterator of a checkpoint returns, in ascending order, every page that has a frame in the
  tables from that of frame \<open>nBackfill + 1\<close> up to \<open>iLast\<close>, once, with the newest such frame; so no
  page still to be copied is missed and no older version is returned.
\<close>

theorem wal_iterator_complete:
  assumes "index_run wi m ps" "1 \<le> iLast" "iLast \<le> length ps" "0xFFFFFFFF \<notin> set ps" "0 \<notin> set ps"
  shows "\<exists>it. walIteratorInit True wi iLast nBackfill = Inr it \<and>
    sorted_wrt (<) (map fst (iterator_pages it)) \<and>
    (\<forall>p f. (p, f) \<in> set (iterator_pages it) \<longleftrightarrow>
       iZero (walFramePage (nBackfill + 1)) < f \<and> f \<le> iLast \<and> ps ! (f - 1) = p \<and>
       (\<forall>g. f < g \<and> g \<le> iLast \<longrightarrow> ps ! (g - 1) \<noteq> p))"
proof -
  obtain it where it: "walIteratorInit True wi iLast nBackfill = Inr it"
    "iterator_pages it = map (\<lambda>p. (p, newest (\<lambda>f. ps ! (f - 1) = p) iLast))
      (sorted_list_of_set (log_pages ps iLast (walFramePage (nBackfill + 1))))"
    using iterator_all [OF run_index_ok [OF assms(1)] assms(2-5)] by blast
  have "sorted_wrt (<) (map fst (iterator_pages it))" unfolding it(2) by (simp add: comp_def)
  then show ?thesis
  proof (intro exI [of _ it] conjI allI)
    show "walIteratorInit True wi iLast nBackfill = Inr it" by (rule it(1))
    fix p f
    show "(p, f) \<in> set (iterator_pages it) \<longleftrightarrow>
       iZero (walFramePage (nBackfill + 1)) < f \<and> f \<le> iLast \<and> ps ! (f - 1) = p \<and>
       (\<forall>g. f < g \<and> g \<le> iLast \<longrightarrow> ps ! (g - 1) \<noteq> p)"
      unfolding it(2) by (rule iterator_frames [OF assms(2)])
  qed
qed

theorem wal_iterator_complete_witness:
  "\<exists>wi it. walIteratorInit True wi 4 0 = Inr it \<and> (5, 3) \<in> set (iterator_pages it) \<and> (5, 1) \<notin> set (iterator_pages it)"
proof -
  let ?ps = "[5, 6, 5, 7] :: u32 list"
  obtain wi where wi: "index_run wi 0 ?ps" using stale_run [of ?ps] by auto
  have four: "(1 :: nat) \<le> 4" "(4 :: nat) \<le> length ?ps" by simp_all
  have ok: "0xFFFFFFFF \<notin> set ?ps" "0 \<notin> set ?ps" by simp_all
  from wal_iterator_complete [OF wi four ok, of 0] obtain it where it: "walIteratorInit True wi 4 0 = Inr it"
    "\<And>p f. (p, f) \<in> set (iterator_pages it) \<longleftrightarrow> iZero (walFramePage (0 + 1)) < f \<and> f \<le> 4 \<and> ?ps ! (f - 1) = p \<and>
       (\<forall>g. f < g \<and> g \<le> 4 \<longrightarrow> ?ps ! (g - 1) \<noteq> p)"
    by blast
  have z: "iZero (walFramePage (0 + 1)) = 0" by (simp add: iZero_def walFramePage_def)
  have "(5, 3) \<in> set (iterator_pages it)"
  proof -
    have "?ps ! (g - 1) \<noteq> 5" if "3 < g" "g \<le> 4" for g
      using that by (cases "g = 4") auto
    then show ?thesis unfolding it(2) z by simp
  qed
  moreover have "(5, 1) \<notin> set (iterator_pages it)" unfolding it(2) z by (auto intro: exI [of _ 3])
  ultimately show ?thesis using it(1) by blast
qed

end
