(* ===== verification/Wal_Log.thy ===== *)
theory Wal_Log
  imports Wal_Index
begin

text \<open>
  Writing to the write-ahead log (wal.c): the log's header, the frames of a transaction, the
  frames a transaction overwrites, the padding to a sector boundary, the entries in the wal-index
  and the undo of a transaction. The state is the connection, the log file, what of it has been
  synced, and the shared memory: the wal-index, the header that the last commit published and the
  checkpoint information.
  Every call of the file system and every allocation takes its result from the list \<open>faults\<close>; the
  calls after its end succeed. A write that fails has put some of its bytes into the file.
\<close>

section \<open>Model\<close>

subsection \<open>State\<close>

record ckpt_info =
  nBackfill :: nat
  aReadMark :: "nat list"
  nBackfillAttempted :: nat

record log_state =
  pWal :: wal
  pWalFd :: bytes
  pSynced :: bytes
  faults :: "(rc \<times> nat) list"
  shm :: wal_index
  live :: wal_index_hdr
  pInfo :: ckpt_info
  mxWalSize :: int
  truncateOnCommit :: bool
  syncHeader :: bool
  padToSectorBoundary :: bool
  sectorSize :: nat
  iCallback :: nat

subsection \<open>The file system\<close>

definition next_fault :: "log_state \<Rightarrow> (rc \<times> nat) \<times> log_state" where
  "next_fault st = (case faults st of [] \<Rightarrow> ((SQLITE_OK, 0), st) | x # r \<Rightarrow> (x, st\<lparr>faults := r\<rparr>))"

definition file_write :: "bytes \<Rightarrow> nat \<Rightarrow> bytes \<Rightarrow> bytes" where
  "file_write f off data =
     (let f = f @ replicate (off - length f) 0 in take off f @ data @ drop (off + length data) f)"

definition sqlite3OsWrite :: "log_state \<Rightarrow> bytes \<Rightarrow> nat \<Rightarrow> log_state \<times> rc" where
  "sqlite3OsWrite st data off =
     (let ((rc, n), st) = next_fault st
      in (st\<lparr>pWalFd := file_write (pWalFd st) off (if rc = SQLITE_OK then data else take n data)\<rparr>, rc))"

definition sqlite3OsRead :: "log_state \<Rightarrow> nat \<Rightarrow> nat \<Rightarrow> log_state \<times> rc \<times> bytes" where
  "sqlite3OsRead st n off =
     (let ((rc, _), st) = next_fault st;
          d = take n (drop off (pWalFd st))
      in (st, if rc = SQLITE_OK \<and> length d < n then SQLITE_IOERR else rc, d @ replicate (n - length d) 0))"

definition sqlite3OsSync :: "log_state \<Rightarrow> nat \<Rightarrow> log_state \<times> rc" where
  "sqlite3OsSync st flags =
     (if flags = 0 then (st, SQLITE_OK)
      else (let ((rc, _), st) = next_fault st
            in (if rc = SQLITE_OK then st\<lparr>pSynced := pWalFd st\<rparr> else st, rc)))"

subsection \<open>Frames\<close>

abbreviation (input) WAL_HDRSIZE :: nat where "WAL_HDRSIZE \<equiv> 32"
abbreviation (input) WAL_FRAME_HDRSIZE :: nat where "WAL_FRAME_HDRSIZE \<equiv> 24"

definition walFrameOffset :: "nat \<Rightarrow> nat \<Rightarrow> nat" where
  "walFrameOffset iFrame szPg = WAL_HDRSIZE + (iFrame - 1) * (szPg + WAL_FRAME_HDRSIZE)"

definition WAL_SYNC_FLAGS :: "nat \<Rightarrow> nat" where "WAL_SYNC_FLAGS x = x AND 3"

definition CKPT_SYNC_FLAGS :: "nat \<Rightarrow> nat" where "CKPT_SYNC_FLAGS x = drop_bit 2 x AND 3"

definition walWriteToLog :: "log_state \<Rightarrow> nat \<Rightarrow> nat \<Rightarrow> bytes \<Rightarrow> nat \<Rightarrow> log_state \<times> rc" where
  "walWriteToLog st iSyncPoint syncFlags content iOffset =
     (if iOffset < iSyncPoint \<and> iOffset + length content \<ge> iSyncPoint
      then (let iFirstAmt = iSyncPoint - iOffset;
                (st, rc) = sqlite3OsWrite st (take iFirstAmt content) iOffset
            in if rc \<noteq> SQLITE_OK then (st, rc)
               else (let (st, rc) = sqlite3OsSync st (WAL_SYNC_FLAGS syncFlags)
                     in if drop iFirstAmt content = [] \<or> rc \<noteq> SQLITE_OK then (st, rc)
                        else sqlite3OsWrite st (drop iFirstAmt content) (iOffset + iFirstAmt)))
      else sqlite3OsWrite st content iOffset)"

definition walWriteOneFrame ::
    "log_state \<Rightarrow> nat \<Rightarrow> nat \<Rightarrow> nat \<Rightarrow> u32 \<times> bytes \<Rightarrow> u32 \<Rightarrow> nat \<Rightarrow> log_state \<times> rc" where
  "walWriteOneFrame st szPg iSyncPoint syncFlags pPage nTruncate iOffset =
     (let (w, aFrame) = walEncodeFrame (pWal st) (fst pPage) nTruncate (snd pPage);
          (st, rc) = walWriteToLog (st\<lparr>pWal := w\<rparr>) iSyncPoint syncFlags aFrame iOffset
      in if rc \<noteq> SQLITE_OK then (st, rc)
         else walWriteToLog st iSyncPoint syncFlags (take szPg (snd pPage)) (iOffset + length aFrame))"

subsection \<open>Rewriting checksums\<close>

fun rewrite_loop :: "log_state \<Rightarrow> nat \<Rightarrow> nat \<Rightarrow> nat \<Rightarrow> log_state \<times> rc" where
  "rewrite_loop st szPg iRead 0 = (st, SQLITE_OK)"
| "rewrite_loop st szPg iRead (Suc n) =
     (let iOff = walFrameOffset iRead szPg;
          (st, rc, aBuf) = sqlite3OsRead st (szPg + WAL_FRAME_HDRSIZE) iOff
      in if rc \<noteq> SQLITE_OK then (st, rc)
         else (let (w, aFrame) = walEncodeFrame (pWal st) (the (sqlite3Get4byte aBuf))
                                   (the (sqlite3Get4byte (drop 4 aBuf))) (drop WAL_FRAME_HDRSIZE aBuf);
                   (st, rc) = sqlite3OsWrite (st\<lparr>pWal := w\<rparr>) aFrame iOff
               in if rc \<noteq> SQLITE_OK then (st, rc) else rewrite_loop st szPg (iRead + 1) n))"

definition walRewriteChecksums :: "log_state \<Rightarrow> nat \<Rightarrow> log_state \<times> rc" where
  "walRewriteChecksums st iLast =
     (let szPg = unat (szPage (pWal st));
          ((mrc, _), st) = next_fault st
      in if mrc \<noteq> SQLITE_OK then (st, SQLITE_NOMEM)
         else (let iRe = iReCksum (pWal st);
                   iCksumOff = (if iRe = 1 then 24 else walFrameOffset (iRe - 1) szPg + 16);
                   (st, rc, aBuf) = sqlite3OsRead st 8 iCksumOff;
                   st = st\<lparr>pWal := hdr_upd (\<lambda>h. h\<lparr>aFrameCksum := (the (sqlite3Get4byte aBuf), the (sqlite3Get4byte (drop 4 aBuf)))\<rparr>)
                             (pWal st\<lparr>iReCksum := 0\<rparr>)\<rparr>
               in if rc \<noteq> SQLITE_OK then (st, rc) else rewrite_loop st szPg iRe (iLast + 1 - iRe)))"

subsection \<open>Writing a transaction's frames\<close>

abbreviation (input) WAL_MAGIC :: u32 where "WAL_MAGIC \<equiv> 0x377f0682"
abbreviation (input) WAL_MAX_VERSION :: u32 where "WAL_MAX_VERSION \<equiv> 3007000"

text \<open>The first frame of the log: its header. \<open>rnd\<close> is the result of \<open>sqlite3_randomness\<close>.\<close>

definition walWriteHeader :: "log_state \<Rightarrow> nat \<Rightarrow> nat \<Rightarrow> bytes \<Rightarrow> log_state \<times> rc" where
  "walWriteHeader st szPg sync_flags rnd =
     (let st = (if nCkpt (pWal st) = 0 then st\<lparr>pWal := hdr_upd (\<lambda>h. h\<lparr>aSalt := rnd\<rparr>) (pWal st)\<rparr> else st);
          aWalHdr = sqlite3Put4byte WAL_MAGIC @ sqlite3Put4byte WAL_MAX_VERSION @ sqlite3Put4byte (of_nat szPg) @
                    sqlite3Put4byte (nCkpt (pWal st)) @ aSalt (hdr (pWal st));
          aCksum = walChecksumBytes True aWalHdr (0, 0);
          aWalHdr = aWalHdr @ sqlite3Put4byte (fst aCksum) @ sqlite3Put4byte (snd aCksum);
          st = st\<lparr>pWal := hdr_upd (\<lambda>h. h\<lparr>bigEndCksum := 0, aFrameCksum := aCksum\<rparr>) (pWal st\<lparr>szPage := of_nat szPg\<rparr>),
                  truncateOnCommit := True\<rparr>;
          (st, rc) = sqlite3OsWrite st aWalHdr 0
      in if rc \<noteq> SQLITE_OK then (st, rc)
         else if syncHeader st then sqlite3OsSync st (CKPT_SYNC_FLAGS sync_flags) else (st, SQLITE_OK))"

text \<open>
  The main loop. It returns the number of the last frame written, the offset after it, for each
  page whether it was appended (\<open>PGHDR_WAL_APPEND\<close>), and the last page appended.
\<close>

fun frames_loop :: "log_state \<Rightarrow> nat \<Rightarrow> nat \<Rightarrow> bool \<Rightarrow> u32 \<Rightarrow> nat \<Rightarrow> (u32 \<times> bytes) list \<Rightarrow> nat \<Rightarrow> nat \<Rightarrow> (u32 \<times> bytes) option \<Rightarrow>
    log_state \<times> rc \<times> nat \<times> nat \<times> bool list \<times> (u32 \<times> bytes) option" where
  "frames_loop st szPg iFirst isCommit nTruncate flags [] iFrame iOffset pLast = (st, SQLITE_OK, iFrame, iOffset, [], pLast)"
| "frames_loop st szPg iFirst isCommit nTruncate flags (p # ps) iFrame iOffset pLast =
     (let iWrite = (if iFirst \<noteq> 0 \<and> (ps \<noteq> [] \<or> \<not> isCommit)
                    then (case walFindFrame (shm st) False (mxFrame (hdr (pWal st))) (minFrame (pWal st)) (fst p) of
                            Inl rc \<Rightarrow> 0 | Inr i \<Rightarrow> i)
                    else 0)
      in if iFirst \<noteq> 0 \<and> (ps \<noteq> [] \<or> \<not> isCommit) \<and> iWrite \<ge> iFirst
         then (let iOff = walFrameOffset iWrite szPg + WAL_FRAME_HDRSIZE;
                   st = (if iReCksum (pWal st) = 0 \<or> iWrite < iReCksum (pWal st)
                         then st\<lparr>pWal := pWal st\<lparr>iReCksum := iWrite\<rparr>\<rparr> else st);
                   (st, rc) = sqlite3OsWrite st (take szPg (snd p)) iOff
               in if rc \<noteq> SQLITE_OK then (st, rc, iFrame, iOffset, [], pLast)
                  else (let (st, rc, iFrame, iOffset, as, pLast) =
                              frames_loop st szPg iFirst isCommit nTruncate flags ps iFrame iOffset pLast
                        in (st, rc, iFrame, iOffset, False # as, pLast)))
         else (let iFrame = iFrame + 1;
                   nDbSize = (if isCommit \<and> ps = [] then nTruncate else 0);
                   (st, rc) = walWriteOneFrame st szPg 0 flags p nDbSize iOffset
               in if rc \<noteq> SQLITE_OK then (st, rc, iFrame, iOffset, [], pLast)
                  else (let (st, rc, iFrame, iOffset, as, pLast) =
                              frames_loop st szPg iFirst isCommit nTruncate flags ps iFrame
                                (iOffset + (szPg + WAL_FRAME_HDRSIZE)) (Some p)
                        in (st, rc, iFrame, iOffset, True # as, pLast))))"

text \<open>Padding: the last frame again, up to the sync point.\<close>

function pad_loop :: "log_state \<Rightarrow> nat \<Rightarrow> nat \<Rightarrow> nat \<Rightarrow> u32 \<times> bytes \<Rightarrow> u32 \<Rightarrow> nat \<Rightarrow> nat \<Rightarrow> log_state \<times> rc \<times> nat \<times> nat" where
  "pad_loop st szPg iSyncPoint flags pLast nTruncate iOffset nExtra =
     (if iOffset < iSyncPoint
      then (let (st, rc) = walWriteOneFrame st szPg iSyncPoint flags pLast nTruncate iOffset
            in if rc \<noteq> SQLITE_OK then (st, rc, iOffset, nExtra)
               else pad_loop st szPg iSyncPoint flags pLast nTruncate (iOffset + (szPg + WAL_FRAME_HDRSIZE)) (nExtra + 1))
      else (st, SQLITE_OK, iOffset, nExtra))"
  by pat_completeness auto
termination
  by (relation "measure (\<lambda>(st, n, s, f, p, t, off, e). s - off)") auto

declare pad_loop.simps [simp del]

definition pad_and_sync :: "log_state \<Rightarrow> nat \<Rightarrow> nat \<Rightarrow> u32 \<times> bytes \<Rightarrow> u32 \<Rightarrow> nat \<Rightarrow> log_state \<times> rc \<times> nat" where
  "pad_and_sync st szPg flags pLast nTruncate iOffset =
     (let iSyncPoint = (iOffset + sectorSize st - 1) div sectorSize st * sectorSize st;
          (st, rc, iOff, nExtra, bSync) =
            (if padToSectorBoundary st
             then (case pad_loop st szPg iSyncPoint flags pLast nTruncate iOffset 0 of
                     (st, rc, iOff, n) \<Rightarrow> (st, rc, iOff, n, iSyncPoint = iOffset))
             else (st, SQLITE_OK, iOffset, 0, True))
      in if rc \<noteq> SQLITE_OK then (st, rc, nExtra)
         else if bSync then (case sqlite3OsSync st (WAL_SYNC_FLAGS flags) of (st, rc) \<Rightarrow> (st, rc, nExtra))
         else (st, SQLITE_OK, nExtra))"

definition walLimitSize :: "log_state \<Rightarrow> nat \<Rightarrow> log_state" where
  "walLimitSize st nMax =
     (let ((rx, _), st) = next_fault st
      in if rx = SQLITE_OK \<and> length (pWalFd st) > nMax
         then (let ((rx, _), st) = next_fault st
               in if rx = SQLITE_OK then st\<lparr>pWalFd := take nMax (pWalFd st)\<rparr> else st)
         else st)"

fun index_loop :: "log_state \<Rightarrow> nat \<Rightarrow> u32 list \<Rightarrow> log_state \<times> rc \<times> nat" where
  "index_loop st iFrame [] = (st, SQLITE_OK, iFrame)"
| "index_loop st iFrame (p # ps) =
     (let iFrame = iFrame + 1;
          (wi, rc) = walIndexAppend (shm st) (mxFrame (hdr (pWal st))) iFrame p;
          st = st\<lparr>shm := wi\<rparr>
      in if rc \<noteq> SQLITE_OK then (st, rc, iFrame) else index_loop st iFrame ps)"

definition walIndexWriteHdr :: "log_state \<Rightarrow> log_state" where
  "walIndexWriteHdr st = st\<lparr>live := hdr (pWal st)\<rparr>"

text \<open>\<open>walFrames\<close> once \<open>walRestartLog\<close> has returned; \<open>iFirst\<close> was computed before.\<close>

definition frames_first :: "log_state \<Rightarrow> nat" where
  "frames_first st = (if hdr (pWal st) \<noteq> live st then mxFrame (live st) + 1 else 0)"

definition frames_publish :: "log_state \<Rightarrow> nat \<Rightarrow> u32 \<Rightarrow> bool \<Rightarrow> nat \<Rightarrow> log_state" where
  "frames_publish st szPg nTruncate isCommit iFrame =
     (let sz = (of_nat szPg :: u32);
          st = st\<lparr>pWal := hdr_upd (\<lambda>h. h\<lparr>hszPage := ucast ((sz AND 0xff00) OR drop_bit 16 sz), mxFrame := iFrame\<rparr>) (pWal st)\<rparr>
      in if isCommit
         then (let st = walIndexWriteHdr (st\<lparr>pWal := hdr_upd (\<lambda>h. h\<lparr>iChange := iChange h + 1, nPage := nTruncate\<rparr>) (pWal st)\<rparr>)
               in st\<lparr>iCallback := iFrame\<rparr>)
         else st)"

definition frames_limit :: "log_state \<Rightarrow> nat \<Rightarrow> bool \<Rightarrow> nat \<Rightarrow> log_state" where
  "frames_limit st szPg isCommit iNext =
     (if isCommit \<and> truncateOnCommit st \<and> mxWalSize st \<ge> 0
      then (let sz = nat (mxWalSize st);
                sz = (if walFrameOffset iNext szPg > sz then walFrameOffset iNext szPg else sz)
            in (walLimitSize st sz)\<lparr>truncateOnCommit := False\<rparr>)
      else st)"

definition walFrames ::
    "log_state \<Rightarrow> nat \<Rightarrow> nat \<Rightarrow> (u32 \<times> bytes) list \<Rightarrow> u32 \<Rightarrow> bool \<Rightarrow> nat \<Rightarrow> bytes \<Rightarrow> log_state \<times> rc" where
  "walFrames st iFirst szPg pList nTruncate isCommit sync_flags rnd =
     (let iFrame = mxFrame (hdr (pWal st));
          (st, rc) = (if iFrame = 0 then walWriteHeader st szPg sync_flags rnd else (st, SQLITE_OK))
      in if rc \<noteq> SQLITE_OK then (st, rc)
         else if unat (szPage (pWal st)) \<noteq> szPg then (st, SQLITE_CORRUPT)
         else (let (st, rc, iLast, iOffset, as, pLast) =
                     frames_loop st szPg iFirst isCommit nTruncate sync_flags pList iFrame (walFrameOffset (iFrame + 1) szPg) None
               in if rc \<noteq> SQLITE_OK then (st, rc)
                  else (let (st, rc) = (if isCommit \<and> iReCksum (pWal st) \<noteq> 0 then walRewriteChecksums st iLast else (st, SQLITE_OK))
                        in if rc \<noteq> SQLITE_OK then (st, rc)
                           else (let (st, rc, nExtra) =
                                       (case pLast of
                                          Some p \<Rightarrow> if isCommit \<and> WAL_SYNC_FLAGS sync_flags \<noteq> 0
                                                    then pad_and_sync st szPg sync_flags p nTruncate iOffset else (st, SQLITE_OK, 0)
                                        | None \<Rightarrow> (st, SQLITE_OK, 0))
                                 in if rc \<noteq> SQLITE_OK then (st, rc)
                                    else (let st = frames_limit st szPg isCommit (iLast + nExtra + 1);
                                              (st, rc, iFrame) =
                                                index_loop st iFrame
                                                  (map (\<lambda>(p, a). fst p) (filter snd (zip pList as)) @
                                                   replicate nExtra (case pLast of Some p \<Rightarrow> fst p | None \<Rightarrow> 0))
                                          in if rc = SQLITE_OK then (frames_publish st szPg nTruncate isCommit iFrame, rc)
                                             else (st, rc))))))"

subsection \<open>Undo\<close>

definition sqlite3WalUndo :: "log_state \<Rightarrow> log_state \<times> u32 option list" where
  "sqlite3WalUndo st =
     (let iMax = mxFrame (hdr (pWal st));
          st = st\<lparr>pWal := pWal st\<lparr>hdr := live st\<rparr>\<rparr>;
          m = mxFrame (live st);
          undone = map (walFramePgno (shm st)) [m + 1..<iMax + 1];
          st = (if iMax \<noteq> m then st\<lparr>shm := walCleanupHash m (shm st)\<rparr> else st)
      in (st\<lparr>pWal := pWal st\<lparr>iReCksum := 0\<rparr>\<rparr>, undone))"

record wal_savepoint =
  svFrame :: nat
  svCksum :: "u32 \<times> u32"
  svCkpt :: u32

definition sqlite3WalSavepoint :: "log_state \<Rightarrow> wal_savepoint" where
  "sqlite3WalSavepoint st =
     \<lparr>svFrame = mxFrame (hdr (pWal st)), svCksum = aFrameCksum (hdr (pWal st)), svCkpt = nCkpt (pWal st)\<rparr>"

definition sqlite3WalSavepointUndo :: "log_state \<Rightarrow> wal_savepoint \<Rightarrow> log_state \<times> wal_savepoint" where
  "sqlite3WalSavepointUndo st aWalData =
     (let aWalData = (if svCkpt aWalData \<noteq> nCkpt (pWal st)
                      then aWalData\<lparr>svFrame := 0, svCkpt := nCkpt (pWal st)\<rparr> else aWalData)
      in if svFrame aWalData < mxFrame (hdr (pWal st))
         then (let st = st\<lparr>pWal := hdr_upd (\<lambda>h. h\<lparr>mxFrame := svFrame aWalData, aFrameCksum := svCksum aWalData\<rparr>) (pWal st)\<rparr>;
                   st = st\<lparr>shm := walCleanupHash (mxFrame (hdr (pWal st))) (shm st)\<rparr>;
                   st = (if iReCksum (pWal st) > mxFrame (hdr (pWal st)) then st\<lparr>pWal := pWal st\<lparr>iReCksum := 0\<rparr>\<rparr> else st)
               in (st, aWalData))
         else (st, aWalData))"


section \<open>What is committed stays\<close>

lemma next_fault_simps [simp]:
  "pWal (snd (next_fault st)) = pWal st" "pWalFd (snd (next_fault st)) = pWalFd st" "live (snd (next_fault st)) = live st"
  "pInfo (snd (next_fault st)) = pInfo st" "shm (snd (next_fault st)) = shm st" "pSynced (snd (next_fault st)) = pSynced st"
  by (simp_all add: next_fault_def split: list.splits)

lemma file_write_take:
  assumes "take (length F) f = F" "length F \<le> off"
  shows "take (length F) (file_write f off d) = F"
proof -
  have "length F \<le> length f" using assms(1) by (metis length_take min.cobounded1)
  then show ?thesis using assms by (simp add: file_write_def Let_def take_append min_absorb1)
qed

text \<open>The bytes \<open>F\<close> at the start of the log, and in \<open>L\<close> the published header, the checkpoint
  information, the wal-index, and how many bytes of \<open>F\<close> are synced.\<close>

datatype shared = Shared (sh_live: wal_index_hdr) (sh_info: ckpt_info) (sh_index: wal_index) (sh_synced: nat)

definition kept :: "bytes \<Rightarrow> shared \<Rightarrow> log_state \<Rightarrow> bool" where
  "kept F L st \<longleftrightarrow> take (length F) (pWalFd st) = F \<and> live st = sh_live L \<and> pInfo st = sh_info L \<and> shm st = sh_index L \<and>
     take (min (sh_synced L) (length F)) (pSynced st) = take (sh_synced L) F"

lemma kept_upd [simp]:
  "kept F L (st\<lparr>pWal := w\<rparr>) = kept F L st"
  "kept F L (st\<lparr>truncateOnCommit := b\<rparr>) = kept F L st" "kept F L (st\<lparr>faults := q\<rparr>) = kept F L st"
  "kept F L (snd (next_fault st)) = kept F L st"
  by (simp_all add: kept_def)

lemma kept_write: "kept F L st \<Longrightarrow> length F \<le> off \<Longrightarrow> sqlite3OsWrite st d off = (st', rc) \<Longrightarrow>
    kept F L st' \<and> pWal st' = pWal st"
  by (auto simp: sqlite3OsWrite_def kept_def file_write_take next_fault_def split: list.splits prod.splits)

lemma kept_read: "kept F L st \<Longrightarrow> sqlite3OsRead st n off = (st', rc, d) \<Longrightarrow> kept F L st' \<and> pWal st' = pWal st"
  by (auto simp: sqlite3OsRead_def kept_def next_fault_def Let_def split: list.splits prod.splits)

lemma take_prefix: "take (length F) f = F \<Longrightarrow> take (min k (length F)) f = take k F"
  by (metis take_take)

lemma kept_sync: "kept F L st \<Longrightarrow> sqlite3OsSync st flags = (st', rc) \<Longrightarrow> kept F L st' \<and> pWal st' = pWal st"
  using take_prefix [of F "pWalFd st" "sh_synced L"]
  by (auto simp: sqlite3OsSync_def kept_def next_fault_def Let_def split: list.splits prod.splits if_splits)

lemma kept_to_log:
  assumes "kept F L st" "length F \<le> off" "walWriteToLog st sp flags d off = (st', rc)"
  shows "kept F L st' \<and> pWal st' = pWal st"
proof (cases "off < sp \<and> off + length d \<ge> sp")
  case True
  obtain st1 rc1 where w: "sqlite3OsWrite st (take (sp - off) d) off = (st1, rc1)" by fastforce
  obtain st2 rc2 where y: "sqlite3OsSync st1 (WAL_SYNC_FLAGS flags) = (st2, rc2)" by fastforce
  have k1: "kept F L st1" "pWal st1 = pWal st" using kept_write [OF assms(1,2) w] by simp_all
  have k2: "kept F L st2" "pWal st2 = pWal st" using kept_sync [OF k1(1) y] k1(2) by simp_all
  show ?thesis
    using assms(2,3) True w y k1 k2 kept_write [of F L st2 "off + (sp - off)" "drop (sp - off) d" st' rc]
    unfolding walWriteToLog_def Let_def by (auto split: if_splits)
next
  case False
  then show ?thesis using assms kept_write by (auto simp: walWriteToLog_def)
qed

text \<open>\<open>walEncodeFrame\<close> only moves the running checksum.\<close>

lemma encode_frame_wal: "walEncodeFrame w p t d = (w', f) \<Longrightarrow> \<exists>c. w' = hdr_upd (\<lambda>h. h\<lparr>aFrameCksum := c\<rparr>) w"
proof (cases "iReCksum w = 0")
  case True
  assume "walEncodeFrame w p t d = (w', f)"
  then show ?thesis unfolding encode_frame [OF True refl] by blast
next
  case False
  assume "walEncodeFrame w p t d = (w', f)"
  with False have "w' = hdr_upd (\<lambda>h. h\<lparr>aFrameCksum := aFrameCksum (hdr w)\<rparr>) w" by (simp add: walEncodeFrame_def Let_def)
  then show ?thesis by blast
qed

definition same_place :: "wal \<Rightarrow> wal \<Rightarrow> bool" where
  "same_place w w' \<longleftrightarrow> mxFrame (hdr w') = mxFrame (hdr w) \<and> iReCksum w' = iReCksum w \<and> szPage w' = szPage w"

definition same_pos :: "wal \<Rightarrow> wal \<Rightarrow> bool" where
  "same_pos w w' \<longleftrightarrow> mxFrame (hdr w') = mxFrame (hdr w) \<and> szPage w' = szPage w"

lemma same_place_pos: "same_place w w' \<Longrightarrow> same_pos w w'" by (simp add: same_place_def same_pos_def)

lemma same_pos_trans: "same_pos a b \<Longrightarrow> same_pos b c \<Longrightarrow> same_pos a c" by (simp add: same_pos_def)

lemma same_pos_refl [simp]: "same_pos a a" by (simp add: same_pos_def)

lemma same_place_trans: "same_place a b \<Longrightarrow> same_place b c \<Longrightarrow> same_place a c" by (simp add: same_place_def)

lemma encode_same_place: "walEncodeFrame w p t d = (w', f) \<Longrightarrow> same_place w w'"
  using encode_frame_wal by (fastforce simp: same_place_def)

lemma kept_one_frame:
  assumes "kept F L st" "length F \<le> off" "walWriteOneFrame st szPg sp flags p t off = (st', rc)"
  shows "kept F L st' \<and> same_place (pWal st) (pWal st')"
proof -
  obtain w f where e: "walEncodeFrame (pWal st) (fst p) t (snd p) = (w, f)" by fastforce
  obtain st1 rc1 where a: "walWriteToLog (st\<lparr>pWal := w\<rparr>) sp flags f off = (st1, rc1)" by fastforce
  have k: "kept F L (st\<lparr>pWal := w\<rparr>)" using assms(1) by simp
  have k1: "kept F L st1" "pWal st1 = w" using kept_to_log [OF k assms(2) a] by simp_all
  have k2: "kept F L st' \<and> pWal st' = w"
  proof (cases "rc1 = SQLITE_OK")
    case True
    have "length F \<le> off + length f" using assms(2) by simp
    with True kept_to_log [OF k1(1) this] assms(3) k1(2) e a show ?thesis by (auto simp: walWriteOneFrame_def)
  next
    case False
    with assms(3) k1 e a show ?thesis by (auto simp: walWriteOneFrame_def)
  qed
  then show ?thesis using encode_same_place [OF e] by simp
qed

lemma walFrameOffset_mono: "i \<le> j \<Longrightarrow> walFrameOffset i n \<le> walFrameOffset j n"
  by (simp add: walFrameOffset_def diff_le_mono)

lemma kept_rewrite_loop:
  "kept F L st \<Longrightarrow> length F \<le> walFrameOffset iRead szPg \<Longrightarrow> rewrite_loop st szPg iRead n = (st', rc) \<Longrightarrow>
    kept F L st' \<and> same_pos (pWal st) (pWal st')"
proof (induction n arbitrary: st iRead)
  case (Suc n)
  obtain st1 rc1 b where r: "sqlite3OsRead st (szPg + 24) (walFrameOffset iRead szPg) = (st1, rc1, b)" using prod_cases3 by blast
  have k1: "kept F L st1" "pWal st1 = pWal st" using kept_read [OF Suc.prems(1) r] by simp_all
  show ?case
  proof (cases "rc1 = SQLITE_OK")
    case True
    obtain w f where e: "walEncodeFrame (pWal st1) (the (sqlite3Get4byte b)) (the (sqlite3Get4byte (drop 4 b))) (drop 24 b) = (w, f)"
      by fastforce
    obtain st2 rc2 where w: "sqlite3OsWrite (st1\<lparr>pWal := w\<rparr>) f (walFrameOffset iRead szPg) = (st2, rc2)" by fastforce
    have k2: "kept F L st2" "same_pos (pWal st) (pWal st2)"
      using kept_write [OF _ Suc.prems(2) w] k1 encode_same_place [OF e] by (simp_all add: same_place_pos)
    show ?thesis
    proof (cases "rc2 = SQLITE_OK")
      case True
      have "length F \<le> walFrameOffset (iRead + 1) szPg" using Suc.prems(2) walFrameOffset_mono [of iRead "iRead + 1" szPg] by linarith
      with Suc.IH [OF k2(1) this] True \<open>rc1 = SQLITE_OK\<close> Suc.prems(3) r e w k2(2)
      show ?thesis by (simp add: Let_def) (blast intro: same_pos_trans)
    next
      case False
      with Suc.prems(3) r e w k2 \<open>rc1 = SQLITE_OK\<close> show ?thesis by (simp add: Let_def)
    qed
  next
    case False
    with Suc.prems(3) r k1 show ?thesis by (simp add: Let_def)
  qed
qed simp


lemma kept_rewrite:
  assumes "kept F L st" "\<forall>i. iReCksum (pWal st) \<le> i \<longrightarrow> length F \<le> walFrameOffset i (unat (szPage (pWal st)))"
    "walRewriteChecksums st iLast = (st', rc)"
  shows "kept F L st' \<and> same_pos (pWal st) (pWal st')"
proof -
  obtain mrc k st0 where n: "next_fault st = ((mrc, k), st0)" by (metis surj_pair)
  have k0: "kept F L st0" "pWal st0 = pWal st" using assms(1) n kept_upd(4) [of F L st] next_fault_simps(1) [of st] by simp_all
  obtain st1 rc1 b where r: "sqlite3OsRead st0 8 (if iReCksum (pWal st0) = 1 then 24 else
      walFrameOffset (iReCksum (pWal st0) - 1) (unat (szPage (pWal st))) + 16) = (st1, rc1, b)" using prod_cases3 by blast
  have k1: "kept F L st1" "pWal st1 = pWal st" using kept_read [OF k0(1) r] k0(2) by simp_all
  let ?st = "st1\<lparr>pWal := hdr_upd (\<lambda>h. h\<lparr>aFrameCksum := (the (sqlite3Get4byte b), the (sqlite3Get4byte (drop 4 b)))\<rparr>)
                             (pWal st1\<lparr>iReCksum := 0\<rparr>)\<rparr>"
  have k2: "kept F L ?st" using k1 by simp
  have m: "same_pos (pWal st) (pWal ?st)" using k1(2) by (simp add: same_pos_def)
  show ?thesis
    using assms(2,3) n r k0 k1 m kept_rewrite_loop [OF k2] same_pos_trans [OF m]
    unfolding walRewriteChecksums_def Let_def by (auto split: if_splits)
qed

text \<open>The main loop overwrites frames of this transaction only, and appends.\<close>

lemma kept_frames_loop:
  assumes first: "\<And>i. 0 < iFirst \<Longrightarrow> iFirst \<le> i \<Longrightarrow> length F \<le> walFrameOffset i szPg"
  shows "kept F L st \<Longrightarrow> length F \<le> off \<Longrightarrow> (iReCksum (pWal st) \<noteq> 0 \<longrightarrow> 0 < iFirst \<and> iFirst \<le> iReCksum (pWal st)) \<Longrightarrow>
    frames_loop st szPg iFirst isCommit nT flags ps iFrame off pLast = (st', rc, iFrame', off', as, pLast') \<Longrightarrow>
    kept F L st' \<and> off \<le> off' \<and> iFrame \<le> iFrame' \<and> mxFrame (hdr (pWal st')) = mxFrame (hdr (pWal st)) \<and>
    szPage (pWal st') = szPage (pWal st) \<and>
    (iReCksum (pWal st') \<noteq> 0 \<longrightarrow> 0 < iFirst \<and> iFirst \<le> iReCksum (pWal st'))"
proof (induction ps arbitrary: st iFrame off pLast st' rc iFrame' off' as pLast')
  case Nil
  then show ?case by simp
next
  case (Cons p ps)
  define iw where "iw = (if iFirst \<noteq> 0 \<and> (ps \<noteq> [] \<or> \<not> isCommit) then (case walFindFrame (shm st) False (mxFrame (hdr (pWal st))) (minFrame (pWal st)) (fst p) of
                            Inl rc \<Rightarrow> 0 | Inr i \<Rightarrow> i) else 0)"
  note eq = frames_loop.simps(2) [of st szPg iFirst isCommit nT flags p ps iFrame off pLast, folded iw_def, unfolded Let_def]
  show ?case
  proof (cases "iFirst \<noteq> 0 \<and> (ps \<noteq> [] \<or> \<not> isCommit) \<and> iw \<ge> iFirst")
    case True
    then have f: "0 < iFirst" "iFirst \<le> iw" by simp_all
    define w where "w = (if iReCksum (pWal st) = 0 \<or> iw < iReCksum (pWal st) then pWal st\<lparr>iReCksum := iw\<rparr> else pWal st)"
    have w: "0 < iFirst \<and> iFirst \<le> iReCksum w" "mxFrame (hdr w) = mxFrame (hdr (pWal st))" "szPage w = szPage (pWal st)"
      using f Cons.prems(3) by (auto simp: w_def)
    have st_w: "(if iReCksum (pWal st) = 0 \<or> iw < iReCksum (pWal st) then st\<lparr>pWal := pWal st\<lparr>iReCksum := iw\<rparr>\<rparr> else st) = st\<lparr>pWal := w\<rparr>"
      by (simp add: w_def)
    obtain st1 rc1 where wr: "sqlite3OsWrite (st\<lparr>pWal := w\<rparr>) (take szPg (snd p)) (walFrameOffset iw szPg + 24) = (st1, rc1)" by fastforce
    have o: "length F \<le> walFrameOffset iw szPg + 24" using first [OF f] by simp
    have k: "kept F L (st\<lparr>pWal := w\<rparr>)" using Cons.prems(1) by simp
    have k1: "kept F L st1" "pWal st1 = w" using kept_write [OF k o wr] by simp_all
    show ?thesis
    proof (cases "rc1 = SQLITE_OK")
      case ok: True
      obtain st2 rc2 i2 o2 as2 l2 where rest: "frames_loop st1 szPg iFirst isCommit nT flags ps iFrame off pLast = (st2, rc2, i2, o2, as2, l2)"
        by (metis surj_pair)
      have "(st', rc, iFrame', off') = (st2, rc2, i2, o2)"
        using Cons.prems(4) unfolding eq if_P [OF True] st_w wr by (simp add: ok rest)
      then show ?thesis using Cons.IH [OF k1(1) Cons.prems(2) _ rest] k1(2) w by simp
    next
      case False
      then have "(st', rc, iFrame', off') = (st1, rc1, iFrame, off)"
        using Cons.prems(4) unfolding eq if_P [OF True] st_w wr by simp
      then show ?thesis using k1 w by simp
    qed
  next
    case False
    define t where "t = (if isCommit \<and> ps = [] then nT else 0)"
    obtain st1 rc1 where wr: "walWriteOneFrame st szPg 0 flags p t off = (st1, rc1)" by fastforce
    have k1: "kept F L st1" "same_place (pWal st) (pWal st1)" using kept_one_frame [OF Cons.prems(1,2) wr] by simp_all
    show ?thesis
    proof (cases "rc1 = SQLITE_OK")
      case ok: True
      obtain st2 rc2 i2 o2 as2 l2 where rest:
        "frames_loop st1 szPg iFirst isCommit nT flags ps (Suc iFrame) (off + (szPg + 24)) (Some p) = (st2, rc2, i2, o2, as2, l2)"
        by (metis surj_pair)
      have e: "(st', rc, iFrame', off') = (st2, rc2, i2, o2)"
        using Cons.prems(4) unfolding eq if_not_P [OF False] t_def [symmetric] wr by (simp add: ok rest)
      have "length F \<le> off + (szPg + 24)" using Cons.prems(2) by simp
      from Cons.IH [OF k1(1) this _ rest] k1(2) Cons.prems(3) e show ?thesis
        by (auto simp: same_place_def)
    next
      case nok: False
      then have "(st', rc, iFrame', off') = (st1, rc1, iFrame + 1, off)"
        using Cons.prems(4) unfolding eq if_not_P [OF False] t_def [symmetric] wr by simp
      then show ?thesis using k1 Cons.prems(3) by (auto simp: same_place_def)
    qed
  qed
qed


lemma kept_pad_loop:
  "kept F L st \<Longrightarrow> length F \<le> off \<Longrightarrow> pad_loop st szPg sp flags p t off n = (st', rc, off', n') \<Longrightarrow>
    kept F L st' \<and> same_pos (pWal st) (pWal st')"
proof (induction "sp - off" arbitrary: st off n rule: less_induct)
  case less
  show ?case
  proof (cases "off < sp")
    case True
    obtain st1 rc1 where w: "walWriteOneFrame st szPg sp flags p t off = (st1, rc1)" by fastforce
    have k1: "kept F L st1" "same_pos (pWal st) (pWal st1)"
      using kept_one_frame [OF less.prems(1,2) w] by (simp_all add: same_place_pos)
    have "sp - (off + (szPg + 24)) < sp - off" "length F \<le> off + (szPg + 24)" using True less.prems(2) by simp_all
    from less.hyps [OF this(1) k1(1) this(2), of "n + 1"] less.prems(3) True w k1 same_pos_trans [OF k1(2)] show ?thesis
      by (auto simp: pad_loop.simps [of st] split: if_splits)
  next
    case False
    then show ?thesis using less.prems by (simp add: pad_loop.simps)
  qed
qed

lemma kept_pad_and_sync:
  assumes "kept F L st" "length F \<le> off" "pad_and_sync st szPg flags p t off = (st', rc, n)"
  shows "kept F L st' \<and> same_pos (pWal st) (pWal st')"
proof -
  define sp where "sp = (off + sectorSize st - 1) div sectorSize st * sectorSize st"
  obtain st1 rc1 o1 n1 where pl: "pad_loop st szPg sp flags p t off 0 = (st1, rc1, o1, n1)" by (metis surj_pair)
  have k1: "kept F L st1" "same_pos (pWal st) (pWal st1)" using kept_pad_loop [OF assms(1,2) pl] by simp_all
  show ?thesis
    using assms(1,3) k1 pl unfolding pad_and_sync_def sp_def [symmetric] Let_def
    by (auto split: if_splits prod.splits dest: kept_sync)
qed

lemma kept_index_loop:
  "kept F (Shared l c w k) st \<Longrightarrow> index_loop st i ps = (st', rc, i') \<Longrightarrow> kept F (Shared l c (shm st') k) st' \<and> pWal st' = pWal st"
proof (induction ps arbitrary: st i w)
  case (Cons p ps)
  obtain wi rc1 where w: "walIndexAppend (shm st) (mxFrame (hdr (pWal st))) (i + 1) p = (wi, rc1)" by fastforce
  have "kept F (Shared l c wi k) (st\<lparr>shm := wi\<rparr>)" using Cons.prems(1) by (simp add: kept_def)
  then show ?case using Cons.IH [of wi "st\<lparr>shm := wi\<rparr>" "Suc i"] Cons.prems w by (auto simp: Let_def split: if_splits)
qed (simp add: kept_def)

lemma kept_limit:
  assumes "kept F L st" "length F \<le> walFrameOffset i szPg"
  shows "kept F L (frames_limit st szPg isCommit i) \<and> pWal (frames_limit st szPg isCommit i) = pWal st"
proof -
  have "kept F L (walLimitSize st n) \<and> pWal (walLimitSize st n) = pWal st" if "length F \<le> n" for n
    using assms(1) that
    by (auto simp: walLimitSize_def next_fault_def kept_def Let_def min_absorb1 split: list.splits prod.splits)
  then show ?thesis using assms by (auto simp: frames_limit_def Let_def)
qed

lemma kept_header:
  assumes "kept [] L st" "walWriteHeader st szPg flags rnd = (st', rc)"
  shows "kept [] L st' \<and> mxFrame (hdr (pWal st')) = mxFrame (hdr (pWal st)) \<and> iReCksum (pWal st') = iReCksum (pWal st)"
proof -
  define s0 where "s0 = (if nCkpt (pWal st) = 0 then st\<lparr>pWal := hdr_upd (\<lambda>h. h\<lparr>aSalt := rnd\<rparr>) (pWal st)\<rparr> else st)"
  define a where "a = sqlite3Put4byte WAL_MAGIC @ sqlite3Put4byte WAL_MAX_VERSION @ sqlite3Put4byte (of_nat szPg) @
                    sqlite3Put4byte (nCkpt (pWal s0)) @ aSalt (hdr (pWal s0))"
  define c where "c = walChecksumBytes True a (0, 0)"
  define s1 where "s1 = s0\<lparr>pWal := hdr_upd (\<lambda>h. h\<lparr>bigEndCksum := 0, aFrameCksum := c\<rparr>) (pWal s0\<lparr>szPage := of_nat szPg\<rparr>),
                  truncateOnCommit := True\<rparr>"
  obtain s2 rc2 where w: "sqlite3OsWrite s1 (a @ sqlite3Put4byte (fst c) @ sqlite3Put4byte (snd c)) 0 = (s2, rc2)" by fastforce
  have k1: "kept [] L s1" "mxFrame (hdr (pWal s1)) = mxFrame (hdr (pWal st))" "iReCksum (pWal s1) = iReCksum (pWal st)"
    using assms(1) by (simp_all add: s1_def s0_def)
  have k2: "kept [] L s2 \<and> pWal s2 = pWal s1" using kept_write [OF k1(1) _ w] by simp
  have "(st', rc) = (if rc2 \<noteq> SQLITE_OK then (s2, rc2)
         else if syncHeader s2 then sqlite3OsSync s2 (CKPT_SYNC_FLAGS flags) else (s2, SQLITE_OK))"
    using assms(2) unfolding walWriteHeader_def Let_def s0_def [symmetric]
    unfolding a_def [symmetric] unfolding c_def [symmetric] unfolding s1_def [symmetric] append_assoc w prod.case by (rule sym)
  then show ?thesis using k1 k2 kept_sync [of "[]" L s2 "CKPT_SYNC_FLAGS flags" st' rc] by (auto split: if_splits)
qed

text \<open>The last page appended is one of the list.\<close>

lemma frames_loop_last:
  "frames_loop st szPg iFirst isCommit nT flags ps iFrame off pLast = (st', rc, i', off', as, pLast') \<Longrightarrow>
    pLast' = pLast \<or> (\<exists>p \<in> set ps. pLast' = Some p)"
proof (induction ps arbitrary: st iFrame off pLast st' rc i' off' as pLast')
  case (Cons p ps)
  show ?case
    using Cons.prems by (auto simp: Let_def split: if_splits prod.splits dest!: Cons.IH)
qed simp

text \<open>All of \<open>walFrames\<close>: either nothing of \<open>L\<close> changes, or the frames enter the wal-index at the end.\<close>

definition same_log_pos :: "log_state \<Rightarrow> log_state \<Rightarrow> bool" where
  "same_log_pos st st' \<longleftrightarrow> mxFrame (hdr (pWal st')) = mxFrame (hdr (pWal st)) \<and>
     (mxFrame (hdr (pWal st)) \<noteq> 0 \<longrightarrow> szPage (pWal st') = szPage (pWal st))"

lemma walFrames_kept:
  assumes k: "kept F L st" and hd: "mxFrame (hdr (pWal st)) = 0 \<Longrightarrow> F = []"
    and om: "length F \<le> walFrameOffset (mxFrame (hdr (pWal st)) + 1) szPg"
    and first: "\<And>i. 0 < iFirst \<Longrightarrow> iFirst \<le> i \<Longrightarrow> length F \<le> walFrameOffset i szPg"
    and re: "iReCksum (pWal st) \<noteq> 0 \<longrightarrow> 0 < iFirst \<and> iFirst \<le> iReCksum (pWal st)"
    and call: "walFrames st iFirst szPg pList nTruncate isCommit sync_flags rnd = (st', rc)"
  shows "kept F L st' \<and> rc \<noteq> SQLITE_OK \<and> same_log_pos st st' \<or>
    (\<exists>s s' i qs. kept F L s \<and> same_log_pos st s \<and> set qs \<subseteq> fst ` set pList \<and>
       index_loop s (mxFrame (hdr (pWal st))) qs = (s', rc, i) \<and>
       st' = (if rc = SQLITE_OK then frames_publish s' szPg nTruncate isCommit i else s'))"
proof -
  let ?m = "mxFrame (hdr (pWal st))"
  obtain st0 rc0 where h: "(if ?m = 0 then walWriteHeader st szPg sync_flags rnd else (st, SQLITE_OK)) = (st0, rc0)" by fastforce
  have k0: "kept F L st0" "mxFrame (hdr (pWal st0)) = ?m" "iReCksum (pWal st0) = iReCksum (pWal st)" "same_log_pos st st0"
    using h k hd kept_header [of L st szPg sync_flags rnd st0 rc0] by (auto simp: same_log_pos_def split: if_splits)
  have pos: "same_log_pos st s" if "same_pos (pWal st0) (pWal s)" for s
    using that k0(4) by (simp add: same_log_pos_def same_pos_def)
  note W = walFrames_def [of st iFirst szPg pList nTruncate isCommit sync_flags rnd, unfolded Let_def h prod.case]
  show ?thesis
  proof (cases "rc0 \<noteq> SQLITE_OK \<or> unat (szPage (pWal st0)) \<noteq> szPg")
    case True
    then have "st' = st0" "rc \<noteq> SQLITE_OK" using call unfolding W by (auto split: if_splits)
    then show ?thesis using k0 by simp
  next
    case False
    then have eq: "(rc0 \<noteq> SQLITE_OK) = False" "(unat (szPage (pWal st0)) \<noteq> szPg) = False" "(SQLITE_OK \<noteq> SQLITE_OK) = False" by simp_all
    obtain st1 rc1 il o1 as pl where fl: "frames_loop st0 szPg iFirst isCommit nTruncate sync_flags pList ?m
        (walFrameOffset (?m + 1) szPg) None = (st1, rc1, il, o1, as, pl)" by (metis surj_pair)
    note f1 = kept_frames_loop [OF first k0(1) om re [folded k0(3)] fl]
    have o1: "length F \<le> o1" "length F \<le> walFrameOffset (il + j + 1) szPg" for j
      using f1 om walFrameOffset_mono [of "?m + 1" "il + j + 1" szPg] by linarith+
    obtain st2 rc2 where rw: "(if isCommit \<and> iReCksum (pWal st1) \<noteq> 0 then walRewriteChecksums st1 il else (st1, SQLITE_OK)) = (st2, rc2)"
      by fastforce
    have p1: "same_pos (pWal st0) (pWal st1)" using f1 by (simp add: same_pos_def)
    have k2: "kept F L st2 \<and> same_pos (pWal st0) (pWal st2)"
    proof (cases "isCommit \<and> iReCksum (pWal st1) \<noteq> 0")
      case True
      have "\<forall>i. iReCksum (pWal st1) \<le> i \<longrightarrow> length F \<le> walFrameOffset i (unat (szPage (pWal st1)))"
        using f1 True first False by auto
      then show ?thesis using kept_rewrite [of F L st1 il st2 rc2] f1 rw True same_pos_trans [OF p1] by simp
    qed (use f1 rw p1 in auto)
    obtain st3 rc3 ne where ps: "(case pl of Some p \<Rightarrow> if isCommit \<and> WAL_SYNC_FLAGS sync_flags \<noteq> 0
        then pad_and_sync st2 szPg sync_flags p nTruncate o1 else (st2, SQLITE_OK, 0) | None \<Rightarrow> (st2, SQLITE_OK, 0)) = (st3, rc3, ne)"
      by (metis surj_pair)
    have k3: "kept F L st3 \<and> same_pos (pWal st0) (pWal st3)"
      using ps k2 kept_pad_and_sync [OF conjunct1 [OF k2] o1(1)] same_pos_trans [OF conjunct2 [OF k2]]
      by (auto split: option.splits if_splits)
    define s4 where "s4 = frames_limit st3 szPg isCommit (il + ne + 1)"
    have k4: "kept F L s4" "same_log_pos st s4"
      using pos [of s4] kept_limit [OF conjunct1 [OF k3] o1(2), of isCommit] k3 by (simp_all add: s4_def)
    define qs where "qs = map (\<lambda>(p, a). fst p) (filter snd (zip pList as)) @ replicate ne (case pl of Some p \<Rightarrow> fst p | None \<Rightarrow> 0)"
    have "set (map (\<lambda>(p, a). fst p) (filter snd (zip pList as))) \<subseteq> fst ` set pList" by (auto dest: set_zip_leftD)
    moreover have "pl = None \<Longrightarrow> ne = 0" using ps by simp
    moreover have "p \<in> set pList" if "pl = Some p" for p using frames_loop_last [OF fl] that by auto
    ultimately have qs: "set qs \<subseteq> fst ` set pList" by (cases pl) (simp_all add: qs_def set_replicate_conv_if)
    obtain s5 rc5 i5 where ix: "index_loop s4 ?m qs = (s5, rc5, i5)" by (metis surj_pair)
    have "(st', rc) = (if rc1 \<noteq> SQLITE_OK then (st1, rc1) else if rc2 \<noteq> SQLITE_OK then (st2, rc2)
        else if rc3 \<noteq> SQLITE_OK then (st3, rc3) else if rc5 = SQLITE_OK
        then (frames_publish s5 szPg nTruncate isCommit i5, rc5) else (s5, rc5))"
      using call unfolding W eq if_False fl rw ps prod.case s4_def [symmetric] qs_def [symmetric] ix by (rule sym)
    then consider "st' \<in> {st1, st2, st3}" "rc \<noteq> SQLITE_OK" | "rc = rc5" "st' = (if rc = SQLITE_OK then frames_publish s5 szPg nTruncate isCommit i5 else s5)"
      by (auto split: if_splits)
    then show ?thesis
    proof cases
      case 1
      then show ?thesis using f1 k2 k3 pos p1 by auto
    next
      case 2
      then show ?thesis using k4 qs ix by blast
    qed
  qed
qed

text \<open>
  C5. Whatever calls of the file system fail, and wherever a write is torn, adding frames to the
  log leaves every byte of the committed frames and the published header as they were; only a
  commit that succeeded publishes a new header.
\<close>

theorem wal_frames_keep_committed:
  assumes "0 < mxFrame (live st)" "mxFrame (live st) \<le> mxFrame (hdr (pWal st))"
    and "iReCksum (pWal st) = 0 \<or> hdr (pWal st) \<noteq> live st \<and> mxFrame (live st) < iReCksum (pWal st)"
    and "n = walFrameOffset (mxFrame (live st) + 1) szPg" "n \<le> length (pWalFd st)"
    and "walFrames st (frames_first st) szPg pList nTruncate isCommit sync_flags rnd = (st', rc)"
  shows "take n (pWalFd st') = take n (pWalFd st) \<and>
    (live st' = live st \<or> rc = SQLITE_OK \<and> isCommit \<and> live st' = hdr (pWal st'))"
proof -
  let ?F = "take n (pWalFd st)" and ?L = "Shared (live st) (pInfo st) (shm st) 0" and ?i = "frames_first st"
  have n: "length ?F = n" using assms(5) by simp
  have k: "kept ?F ?L st" using n by (simp add: kept_def)
  have off: "length ?F \<le> walFrameOffset i szPg" if "mxFrame (live st) < i" for i
    using walFrameOffset_mono [of "mxFrame (live st) + 1" i szPg] that n assms(4) by simp
  have first: "length ?F \<le> walFrameOffset i szPg" if "0 < ?i" "?i \<le> i" for i
    by (rule off) (use that in \<open>auto simp: frames_first_def split: if_splits\<close>)
  have re: "iReCksum (pWal st) \<noteq> 0 \<longrightarrow> 0 < ?i \<and> ?i \<le> iReCksum (pWal st)"
    using assms(3) by (auto simp: frames_first_def)
  have pub: "take n (pWalFd (frames_publish s a b c d)) = take n (pWalFd s)"
    "live (frames_publish s a b c d) = (if c then hdr (pWal (frames_publish s a b c d)) else live s)" for s a b c d
    by (simp_all add: frames_publish_def walIndexWriteHdr_def Let_def)
  have om: "length ?F \<le> walFrameOffset (mxFrame (hdr (pWal st)) + 1) szPg" by (rule off) (use assms(2) in simp)
  have "mxFrame (hdr (pWal st)) = 0 \<Longrightarrow> ?F = []" using assms(1,2) by simp
  from walFrames_kept [OF k this om first re assms(6)] show ?thesis
  proof
    assume "kept ?F ?L st' \<and> rc \<noteq> SQLITE_OK \<and> same_log_pos st st'"
    then show ?thesis using n by (simp add: kept_def)
  next
    assume "\<exists>s s' i qs. kept ?F ?L s \<and> same_log_pos st s \<and> set qs \<subseteq> fst ` set pList \<and>
       index_loop s (mxFrame (hdr (pWal st))) qs = (s', rc, i) \<and>
       st' = (if rc = SQLITE_OK then frames_publish s' szPg nTruncate isCommit i else s')"
    then obtain s s' i qs where s: "kept ?F ?L s" "index_loop s (mxFrame (hdr (pWal st))) qs = (s', rc, i)"
      "st' = (if rc = SQLITE_OK then frames_publish s' szPg nTruncate isCommit i else s')" by blast
    have "kept ?F (Shared (live st) (pInfo st) (shm s') 0) s'" using kept_index_loop [OF s(1,2)] by simp
    then show ?thesis using s(3) pub n by (auto simp: kept_def)
  qed
qed


text \<open>A log of one committed frame, for the witnesses.\<close>

definition small_log :: log_state where
  "small_log =
     (let w = \<lparr>hdr = \<lparr>iChange = 1, bigEndCksum = 0, hszPage = 8, mxFrame = 1, nPage = 1, aFrameCksum = (0, 0),
                aSalt = replicate 8 0\<rparr>, szPage = 8, nCkpt = 1, iReCksum = 0, minFrame = 1\<rparr>
      in \<lparr>pWal = w, pWalFd = replicate 64 0, pSynced = [], faults = [], shm = stale_index, live = hdr w,
          pInfo = \<lparr>nBackfill = 0, aReadMark = [], nBackfillAttempted = 0\<rparr>, mxWalSize = -1, truncateOnCommit = False,
          syncHeader = True, padToSectorBoundary = False, sectorSize = 512, iCallback = 0\<rparr>)"

theorem wal_frames_keep_committed_witness:
  "\<exists>st' rc. walFrames (small_log\<lparr>faults := [(SQLITE_IOERR, 3)]\<rparr>) 0 8 [(2, replicate 8 7)] 2 True 2 [] = (st', rc) \<and>
     take 64 (pWalFd st') = replicate 64 0"
proof -
  let ?st = "small_log\<lparr>faults := [(SQLITE_IOERR, 3)]\<rparr>"
  have f: "frames_first ?st = 0" by (simp add: frames_first_def small_log_def)
  obtain st' rc where w: "walFrames ?st (frames_first ?st) 8 [(2, replicate 8 7)] 2 True 2 [] = (st', rc)" by fastforce
  have "take 64 (pWalFd st') = take 64 (pWalFd ?st)"
    by (rule wal_frames_keep_committed [OF _ _ _ _ _ w, THEN conjunct1])
      (simp_all add: small_log_def walFrameOffset_def)
  then have "take 64 (pWalFd st') = replicate 64 0" by (simp add: small_log_def)
  then show ?thesis using w unfolding f by blast
qed

section \<open>The log as a list of frames\<close>

text \<open>The header of the log, its checksum, and the frames, each with the checksum up to it.\<close>

definition header_start :: "bool \<Rightarrow> nat \<Rightarrow> u32 \<Rightarrow> bytes \<Rightarrow> bytes" where
  "header_start be szPg ck salt = sqlite3Put4byte (if be then WAL_MAGIC + 1 else WAL_MAGIC) @ sqlite3Put4byte WAL_MAX_VERSION @
     sqlite3Put4byte (of_nat szPg) @ sqlite3Put4byte ck @ salt"

definition header_cksum :: "bool \<Rightarrow> nat \<Rightarrow> u32 \<Rightarrow> bytes \<Rightarrow> u32 \<times> u32" where
  "header_cksum be szPg ck salt = walChecksumBytes (\<not> be) (header_start be szPg ck salt) (0, 0)"

definition log_header :: "bool \<Rightarrow> nat \<Rightarrow> u32 \<Rightarrow> bytes \<Rightarrow> bytes" where
  "log_header be szPg ck salt = header_start be szPg ck salt @
     sqlite3Put4byte (fst (header_cksum be szPg ck salt)) @ sqlite3Put4byte (snd (header_cksum be szPg ck salt))"

type_synonym frame = "u32 \<times> u32 \<times> bytes"

fun log_cksum :: "bool \<Rightarrow> nat \<Rightarrow> u32 \<times> u32 \<Rightarrow> frame list \<Rightarrow> u32 \<times> u32" where
  "log_cksum be n c [] = c"
| "log_cksum be n c ((p, t, d) # fs) = log_cksum be n (frame_cksum (\<not> be) n p t d c) fs"

fun log_chain :: "bool \<Rightarrow> nat \<Rightarrow> bytes \<Rightarrow> u32 \<times> u32 \<Rightarrow> frame list \<Rightarrow> bytes" where
  "log_chain be n salt c [] = []"
| "log_chain be n salt c ((p, t, d) # fs) =
     frame_header p t salt (frame_cksum (\<not> be) n p t d c) @ d @ log_chain be n salt (frame_cksum (\<not> be) n p t d c) fs"

definition frames_ok :: "nat \<Rightarrow> frame list \<Rightarrow> bool" where
  "frames_ok n fs \<longleftrightarrow> (\<forall>(p, t, d) \<in> set fs. p \<noteq> 0 \<and> length d = n)"

lemma frames_ok_append: "frames_ok n (a @ b) \<longleftrightarrow> frames_ok n a \<and> frames_ok n b"
  by (simp add: frames_ok_def ball_Un)

lemma frames_ok_replicate: "p \<noteq> 0 \<Longrightarrow> length d = n \<Longrightarrow> frames_ok n (replicate k (p, t, d))"
  by (auto simp: frames_ok_def)

lemma log_cksum_append: "log_cksum be n c (fs @ gs) = log_cksum be n (log_cksum be n c fs) gs"
  by (induction be n c fs rule: log_cksum.induct) simp_all

lemma log_chain_append: "log_chain be n salt c (fs @ gs) = log_chain be n salt c fs @ log_chain be n salt (log_cksum be n c fs) gs"
  by (induction be n salt c fs rule: log_chain.induct) simp_all

lemma length_log_chain: "length salt = 8 \<Longrightarrow> frames_ok n fs \<Longrightarrow> length (log_chain be n salt c fs) = length fs * (n + 24)"
  by (induction be n salt c fs rule: log_chain.induct) (simp_all add: frames_ok_def length_frame_header)

lemma length_log_header: "length salt = 8 \<Longrightarrow> length (log_header be n ck salt) = 32"
  by (simp add: log_header_def header_start_def)

text \<open>Writing inside or at the end of the file.\<close>

lemma file_write_at: "file_write (A @ r) (length A) d = A @ d @ drop (length d) r"
  by (simp add: file_write_def)

definition io_only :: "log_state \<Rightarrow> log_state \<Rightarrow> bool" where
  "io_only st st' \<longleftrightarrow> shm st' = shm st \<and> live st' = live st \<and> mxWalSize st' = mxWalSize st \<and>
     padToSectorBoundary st' = padToSectorBoundary st \<and> sectorSize st' = sectorSize st"

lemma io_only_trans: "io_only a b \<Longrightarrow> io_only b c \<Longrightarrow> io_only a c"
  by (simp add: io_only_def)

lemma write_ok:
  assumes "sqlite3OsWrite st d off = (st', SQLITE_OK)"
  shows "pWalFd st' = file_write (pWalFd st) off d" "pWal st' = pWal st" "pSynced st' = pSynced st" "io_only st st'"
  using assms by (auto simp: sqlite3OsWrite_def next_fault_def io_only_def split: list.splits)

lemma sync_ok:
  assumes "sqlite3OsSync st flags = (st', SQLITE_OK)"
  shows "pWalFd st' = pWalFd st" "pWal st' = pWal st" "io_only st st'" "flags \<noteq> 0 \<Longrightarrow> pSynced st' = pWalFd st"
    "flags = 0 \<Longrightarrow> pSynced st' = pSynced st"
  using assms by (auto simp: sqlite3OsSync_def next_fault_def io_only_def Let_def split: list.splits if_splits prod.splits)


lemma to_log_ok:
  assumes "walWriteToLog st sp flags d (length A) = (st', SQLITE_OK)" "pWalFd st = A @ r"
  shows "pWalFd st' = A @ d @ drop (length d) r" "pWal st' = pWal st" "io_only st st'"
    "WAL_SYNC_FLAGS flags \<noteq> 0 \<Longrightarrow> length A < sp \<Longrightarrow> sp \<le> length A + length d \<Longrightarrow> take (length A) (pSynced st') = A"
    "\<not> (length A < sp \<and> sp \<le> length A + length d) \<Longrightarrow> pSynced st' = pSynced st"
proof -
  have "pWalFd st' = A @ d @ drop (length d) r \<and> pWal st' = pWal st \<and> io_only st st' \<and>
    (WAL_SYNC_FLAGS flags \<noteq> 0 \<longrightarrow> length A < sp \<longrightarrow> sp \<le> length A + length d \<longrightarrow> take (length A) (pSynced st') = A) \<and>
    (\<not> (length A < sp \<and> sp \<le> length A + length d) \<longrightarrow> pSynced st' = pSynced st)"
  proof (cases "length A < sp \<and> length A + length d \<ge> sp")
    case True
    define k where "k = sp - length A"
    have k: "k \<le> length d" using True unfolding k_def by linarith
    obtain st1 rc1 where w: "sqlite3OsWrite st (take k d) (length A) = (st1, rc1)" by fastforce
    obtain st2 rc2 where y: "sqlite3OsSync st1 (WAL_SYNC_FLAGS flags) = (st2, rc2)" by fastforce
    have eq: "walWriteToLog st sp flags d (length A) =
        (if rc1 \<noteq> SQLITE_OK then (st1, rc1) else if drop k d = [] \<or> rc2 \<noteq> SQLITE_OK then (st2, rc2)
         else sqlite3OsWrite st2 (drop k d) (length A + k))"
      unfolding walWriteToLog_def if_P [OF True] Let_def k_def [symmetric] w prod.case y by (rule refl)
    have rc1: "rc1 = SQLITE_OK" using assms(1) unfolding eq by (auto split: if_splits)
    note w1 = write_ok [OF w [unfolded rc1]]
    have f1: "pWalFd st1 = (A @ take k d) @ drop k r"
      using w1(1) file_write_at [of A r "take k d"] assms(2) k by (simp add: min_absorb2)
    have rc2: "rc2 = SQLITE_OK" using assms(1) unfolding eq rc1 by (auto split: if_splits)
    note y1 = sync_ok [OF y [unfolded rc2]]
    have io: "io_only st st2" by (rule io_only_trans [OF w1(4) y1(3)])
    have pw: "pWal st2 = pWal st" using w1(2) y1(2) by simp
    have sy: "take (length A) (pSynced st2) = A" if "WAL_SYNC_FLAGS flags \<noteq> 0"
      using y1(4) [OF that] f1 by simp
    show ?thesis
    proof (cases "drop k d = []")
      case True
      then have "st' = st2" "take k d = d" "k = length d" using assms(1) k unfolding eq rc1 by auto
      then show ?thesis using f1 y1(1) io pw sy \<open>length A < sp \<and> length A + length d \<ge> sp\<close> by simp
    next
      case False
      then have w2: "sqlite3OsWrite st2 (drop k d) (length A + k) = (st', SQLITE_OK)"
        using assms(1) unfolding eq rc1 rc2 by simp
      have la: "length A + k = length (A @ take k d)" using k by simp
      have "pWalFd st' = (A @ take k d) @ drop k d @ drop (length (drop k d)) (drop k r)"
        using write_ok(1) [OF w2] unfolding la y1(1) f1 file_write_at .
      also have "\<dots> = A @ (take k d @ drop k d) @ drop (length d) r" using k by (simp del: append_take_drop_id)
      also have "\<dots> = A @ d @ drop (length d) r" by simp
      finally show ?thesis
        using write_ok(2-4) [OF w2] io pw sy \<open>length A < sp \<and> length A + length d \<ge> sp\<close> io_only_trans by auto
    qed
  next
    case False
    have w: "sqlite3OsWrite st d (length A) = (st', SQLITE_OK)"
      using assms(1) unfolding walWriteToLog_def if_not_P [OF False] .
    show ?thesis using write_ok [OF w] assms(2) file_write_at [of A r d] False by auto
  qed
  then show "pWalFd st' = A @ d @ drop (length d) r" "pWal st' = pWal st" "io_only st st'"
    "WAL_SYNC_FLAGS flags \<noteq> 0 \<Longrightarrow> length A < sp \<Longrightarrow> sp \<le> length A + length d \<Longrightarrow> take (length A) (pSynced st') = A"
    "\<not> (length A < sp \<and> sp \<le> length A + length d) \<Longrightarrow> pSynced st' = pSynced st" by blast+
qed

text \<open>The connection may write frames of \<open>n\<close> bytes, and its running checksum is \<open>c\<close>.\<close>

definition writer :: "log_state \<Rightarrow> bool \<Rightarrow> nat \<Rightarrow> bytes \<Rightarrow> u32 \<times> u32 \<Rightarrow> bool" where
  "writer st be n salt c \<longleftrightarrow> iReCksum (pWal st) = 0 \<and> unat (szPage (pWal st)) = n \<and> aSalt (hdr (pWal st)) = salt \<and>
     length salt = 8 \<and> aFrameCksum (hdr (pWal st)) = c \<and> (nativeCksum (pWal st) \<longleftrightarrow> \<not> be)"

lemma one_frame_ok:
  assumes "walWriteOneFrame st n sp flags (p, d) t (length A) = (st', SQLITE_OK)" "pWalFd st = A @ r"
    and w: "writer st be n salt c" and d: "length d = n"
    and c': "c' = frame_cksum (\<not> be) n p t d c"
  shows "pWalFd st' = A @ frame_header p t salt c' @ d @ drop (n + 24) r" "writer st' be n salt c'"
    "pWal st' = hdr_upd (\<lambda>h. h\<lparr>aFrameCksum := c'\<rparr>) (pWal st)" "io_only st st'"
    "WAL_SYNC_FLAGS flags \<noteq> 0 \<Longrightarrow> length A < sp \<Longrightarrow> sp \<le> length A + (n + 24) \<Longrightarrow> take (length A) (pSynced st') = A"
    "\<not> (length A < sp \<and> sp \<le> length A + (n + 24)) \<Longrightarrow> pSynced st' = pSynced st"
proof -
  let ?w = "hdr_upd (\<lambda>h. h\<lparr>aFrameCksum := c'\<rparr>) (pWal st)" and ?f = "frame_header p t salt c'"
  have e: "walEncodeFrame (pWal st) p t d = (?w, ?f)"
    using w encode_frame [of "pWal st" c' p t d] by (simp add: writer_def c')
  have f24: "length ?f = 24" using w by (simp add: writer_def length_frame_header)
  obtain st1 rc1 where a: "walWriteToLog (st\<lparr>pWal := ?w\<rparr>) sp flags ?f (length A) = (st1, rc1)" by fastforce
  have rc1: "rc1 = SQLITE_OK" using assms(1) e a by (auto simp: walWriteOneFrame_def split: if_splits)
  have b: "walWriteToLog st1 sp flags d (length (A @ ?f)) = (st', SQLITE_OK)"
    using assms(1) e a d unfolding rc1 by (simp add: walWriteOneFrame_def f24)
  have "pWalFd (st\<lparr>pWal := ?w\<rparr>) = A @ r" using assms(2) by simp
  note a1 = to_log_ok [OF a [unfolded rc1] this]
  have "pWalFd st1 = (A @ ?f) @ drop 24 r" using a1(1) f24 by simp
  note b1 = to_log_ok [OF b this]
  show "pWalFd st' = A @ ?f @ d @ drop (n + 24) r" using b1(1) d by (simp add: add.commute)
  show pw: "pWal st' = ?w" using b1(2) a1(2) by simp
  show "writer st' be n salt c'" using w pw by (simp add: writer_def)
  show "io_only st st'" using io_only_trans [OF a1(3) b1(3)] by (simp add: io_only_def)
  show "take (length A) (pSynced st') = A" if s: "WAL_SYNC_FLAGS flags \<noteq> 0" "length A < sp" "sp \<le> length A + (n + 24)"
  proof (cases "sp \<le> length A + 24")
    case True
    then have "pSynced st' = pSynced st1" by (intro b1(5)) (simp add: f24)
    then show ?thesis using a1(4) [OF s(1,2)] True f24 by simp
  next
    case False
    then have "take (length (A @ ?f)) (pSynced st') = A @ ?f" using b1(4) [OF s(1)] s(3) d f24 by simp
    then have "take (length A) (take (length (A @ ?f)) (pSynced st')) = A" by simp
    then show ?thesis by (simp add: min_absorb1)
  qed
  show "pSynced st' = pSynced st" if "\<not> (length A < sp \<and> sp \<le> length A + (n + 24))"
  proof -
    have "pSynced st1 = pSynced (st\<lparr>pWal := ?w\<rparr>)" by (rule a1(5)) (use that f24 in auto)
    moreover have "pSynced st' = pSynced st1" by (rule b1(5)) (use that f24 d in auto)
    ultimately show ?thesis by simp
  qed
qed

definition cksum_only :: "wal \<Rightarrow> wal \<Rightarrow> bool" where
  "cksum_only w w' \<longleftrightarrow> hdr_upd (\<lambda>h. h\<lparr>aFrameCksum := (0, 0)\<rparr>) w' = hdr_upd (\<lambda>h. h\<lparr>aFrameCksum := (0, 0)\<rparr>) w"

lemma cksum_only_trans: "cksum_only a b \<Longrightarrow> cksum_only b c \<Longrightarrow> cksum_only a c"
  by (simp add: cksum_only_def)

lemma cksum_only_mxFrame: "cksum_only a b \<Longrightarrow> mxFrame (hdr b) = mxFrame (hdr a)"
  unfolding cksum_only_def by (drule arg_cong [where f = "\<lambda>w. mxFrame (hdr w)"]) simp

text \<open>The frames of a set of pages.\<close>

fun tx_frames :: "bool \<Rightarrow> u32 \<Rightarrow> (u32 \<times> bytes) list \<Rightarrow> frame list" where
  "tx_frames isCommit nTruncate [] = []"
| "tx_frames isCommit nTruncate (p # ps) =
     (fst p, if isCommit \<and> ps = [] then nTruncate else 0, snd p) # tx_frames isCommit nTruncate ps"

lemma frames_loop_ok:
  "frames_loop st n 0 isCommit nT flags ps iFrame (length A) pLast = (st', SQLITE_OK, iFrame', off', as, pLast') \<Longrightarrow>
    pWalFd st = A @ r \<Longrightarrow> writer st be n salt c \<Longrightarrow> \<forall>p \<in> set ps. length (snd p) = n \<Longrightarrow>
    (\<exists>r'. pWalFd st' = A @ log_chain be n salt c (tx_frames isCommit nT ps) @ r') \<and>
    writer st' be n salt (log_cksum be n c (tx_frames isCommit nT ps)) \<and>
    cksum_only (pWal st) (pWal st') \<and> io_only st st' \<and>
    iFrame' = iFrame + length ps \<and> off' = length A + length ps * (n + 24) \<and> as = replicate (length ps) True \<and>
    pLast' = (if ps = [] then pLast else Some (last ps))"
proof (induction ps arbitrary: st iFrame A pLast r c as)
  case Nil
  then show ?case by (auto simp: io_only_def cksum_only_def)
next
  case (Cons p ps)
  define t where "t = (if isCommit \<and> ps = [] then nT else 0)"
  obtain pg d where p: "p = (pg, d)" by (cases p)
  define c' where "c' = frame_cksum (\<not> be) n pg t d c"
  obtain st1 rc1 where wr: "walWriteOneFrame st n 0 flags (pg, d) t (length A) = (st1, rc1)" by fastforce
  obtain st2 rc2 i2 o2 as2 l2 where rest:
    "frames_loop st1 n 0 isCommit nT flags ps (Suc iFrame) (length A + (n + 24)) (Some p) = (st2, rc2, i2, o2, as2, l2)"
    by (metis surj_pair)
  have "frames_loop st n 0 isCommit nT flags (p # ps) iFrame (length A) pLast =
      (if rc1 \<noteq> SQLITE_OK then (st1, rc1, Suc iFrame, length A, [], pLast) else (st2, rc2, i2, o2, True # as2, l2))"
    using wr rest by (simp add: p t_def)
  then have rc: "rc1 = SQLITE_OK" "st' = st2" "rc2 = SQLITE_OK" "iFrame' = i2" "off' = o2" "as = True # as2" "pLast' = l2"
    using Cons.prems(1) by (auto split: if_splits)
  have dn: "length d = n" using Cons.prems(4) p by simp
  note o = one_frame_ok [OF wr [unfolded rc(1)] Cons.prems(2,3) dn c'_def]
  let ?A = "A @ frame_header pg t salt c' @ d"
  have lenA: "length ?A = length A + (n + 24)"
    using dn Cons.prems(3) by (simp add: length_frame_header writer_def)
  have "frames_loop st1 n 0 isCommit nT flags ps (Suc iFrame) (length ?A) (Some p) = (st', SQLITE_OK, iFrame', off', as2, pLast')"
    unfolding lenA using rest rc by simp
  moreover have "pWalFd st1 = ?A @ drop (n + 24) r" using o(1) by simp
  ultimately have IH: "(\<exists>r'. pWalFd st' = ?A @ log_chain be n salt c' (tx_frames isCommit nT ps) @ r') \<and>
    writer st' be n salt (log_cksum be n c' (tx_frames isCommit nT ps)) \<and>
    cksum_only (pWal st1) (pWal st') \<and> io_only st1 st' \<and>
    iFrame' = Suc iFrame + length ps \<and> off' = length ?A + length ps * (n + 24) \<and> as2 = replicate (length ps) True \<and>
    pLast' = (if ps = [] then Some p else Some (last ps))"
    using Cons.IH [of st1 "Suc iFrame" ?A "Some p" as2 "drop (n + 24) r" c'] o(2) Cons.prems(4) by simp
  have tx: "tx_frames isCommit nT (p # ps) = (pg, t, d) # tx_frames isCommit nT ps" by (simp add: p t_def)
  have "cksum_only (pWal st) (pWal st')" using IH o(3) by (auto simp: cksum_only_def)
  then show ?case using IH io_only_trans [OF o(4)] rc(6) lenA unfolding tx by (simp add: c'_def)
qed


lemma pad_loop_ok:
  "pad_loop st n sp flags (p, d) t (length A) k = (st', SQLITE_OK, off', k') \<Longrightarrow> pWalFd st = A @ r \<Longrightarrow>
    writer st be n salt c \<Longrightarrow> length d = n \<Longrightarrow>
    \<exists>j r'. k' = k + j \<and> pWalFd st' = A @ log_chain be n salt c (replicate j (p, t, d)) @ r' \<and>
      writer st' be n salt (log_cksum be n c (replicate j (p, t, d))) \<and> io_only st st' \<and> cksum_only (pWal st) (pWal st') \<and>
      (WAL_SYNC_FLAGS flags \<noteq> 0 \<and> length A < sp \<longrightarrow> take (length A) (pSynced st') = A) \<and>
      (\<not> length A < sp \<longrightarrow> st' = st \<and> j = 0)"
proof (induction "sp - length A" arbitrary: st A k r c rule: less_induct)
  case less
  show ?case
  proof (cases "length A < sp")
    case True
    define c' where "c' = frame_cksum (\<not> be) n p t d c"
    obtain st1 rc1 where wr: "walWriteOneFrame st n sp flags (p, d) t (length A) = (st1, rc1)" by fastforce
    have pl: "pad_loop st n sp flags (p, d) t (length A) k =
        (if rc1 \<noteq> SQLITE_OK then (st1, rc1, length A, k) else pad_loop st1 n sp flags (p, d) t (length A + (n + 24)) (k + 1))"
      using True wr by (subst pad_loop.simps) simp
    have rc: "rc1 = SQLITE_OK" using less.prems(1) unfolding pl by (auto split: if_splits)
    note o = one_frame_ok [OF wr [unfolded rc] less.prems(2,3,4) c'_def]
    let ?A = "A @ frame_header p t salt c' @ d"
    have lenA: "length ?A = length A + (n + 24)"
      using less.prems(3,4) by (simp add: length_frame_header writer_def)
    have "pad_loop st1 n sp flags (p, d) t (length ?A) (k + 1) = (st', SQLITE_OK, off', k')"
      using less.prems(1) unfolding pl rc lenA by simp
    moreover have "pWalFd st1 = ?A @ drop (n + 24) r" using o(1) by simp
    moreover have "sp - length ?A < sp - length A" using True lenA by simp
    ultimately obtain j r' where j: "k' = k + 1 + j" "pWalFd st' = ?A @ log_chain be n salt c' (replicate j (p, t, d)) @ r'"
      "writer st' be n salt (log_cksum be n c' (replicate j (p, t, d)))" "io_only st1 st'" "cksum_only (pWal st1) (pWal st')"
      "WAL_SYNC_FLAGS flags \<noteq> 0 \<and> length ?A < sp \<longrightarrow> take (length ?A) (pSynced st') = ?A"
      "\<not> length ?A < sp \<longrightarrow> st' = st1 \<and> j = 0"
      using less.hyps [of ?A st1 "k + 1" "drop (n + 24) r" c'] o(2) less.prems(4) by blast
    have "take (length A) (pSynced st') = A" if "WAL_SYNC_FLAGS flags \<noteq> 0"
    proof (cases "length ?A < sp")
      case True
      then have "take (length A) (take (length ?A) (pSynced st')) = A" using j(6) that by simp
      then show ?thesis by (simp add: min_absorb1)
    next
      case False
      then show ?thesis using o(5) that \<open>length A < sp\<close> j(7) lenA by simp
    qed
    moreover have "cksum_only (pWal st) (pWal st')" using j(5) o(3) by (simp add: cksum_only_def)
    ultimately show ?thesis
      using j(1-3) io_only_trans [OF o(4) j(4)] True by (intro exI [of _ "Suc j"] exI [of _ r']) (simp add: c'_def)
  next
    case False
    then have "st' = st" "k' = k" using less.prems(1) by (simp_all add: pad_loop.simps)
    then show ?thesis using less.prems(2,3) False
      by (intro exI [of _ 0] exI [of _ r]) (simp add: io_only_def cksum_only_def)
  qed
qed

lemma pad_and_sync_ok:
  assumes p: "pad_and_sync st n flags (p, d) t (length A) = (st', SQLITE_OK, j)" and sec: "0 < sectorSize st"
    and flags: "WAL_SYNC_FLAGS flags \<noteq> 0" and f: "pWalFd st = A @ r" and w: "writer st be n salt c" and d: "length d = n"
  obtains r' where "pWalFd st' = A @ log_chain be n salt c (replicate j (p, t, d)) @ r'"
    "writer st' be n salt (log_cksum be n c (replicate j (p, t, d)))" "io_only st st'" "cksum_only (pWal st) (pWal st')"
    "take (length A) (pSynced st') = A"
proof -
  define sp where "sp = (length A + sectorSize st - 1) div sectorSize st * sectorSize st"
  have sp: "length A \<le> sp"
  proof -
    have "(length A + sectorSize st - 1) mod sectorSize st < sectorSize st" using sec by simp
    then show ?thesis using div_mult_mod_eq [of "length A + sectorSize st - 1" "sectorSize st"] sec
      unfolding sp_def by linarith
  qed
  have sync_done: "take (length A) (pSynced s') = A \<and> pWalFd s' = pWalFd s \<and> pWal s' = pWal s \<and> io_only s s'"
    if "sqlite3OsSync s (WAL_SYNC_FLAGS flags) = (s', SQLITE_OK)" "pWalFd s = A @ q" for s s' q
    using sync_ok [OF that(1)] flags that(2) by simp
  show thesis
  proof (cases "padToSectorBoundary st")
    case True
    obtain st1 rc1 o1 n1 where pl: "pad_loop st n sp flags (p, d) t (length A) 0 = (st1, rc1, o1, n1)" by (metis surj_pair)
    have eq: "pad_and_sync st n flags (p, d) t (length A) =
        (if rc1 \<noteq> SQLITE_OK then (st1, rc1, n1)
         else if sp = length A then (case sqlite3OsSync st1 (WAL_SYNC_FLAGS flags) of (st, rc) \<Rightarrow> (st, rc, n1))
         else (st1, SQLITE_OK, n1))"
      using True unfolding pad_and_sync_def sp_def [symmetric] Let_def by (simp add: pl)
    have rc1: "rc1 = SQLITE_OK" using p unfolding eq by (auto split: if_splits)
    obtain j' r' where j: "n1 = 0 + j'" "pWalFd st1 = A @ log_chain be n salt c (replicate j' (p, t, d)) @ r'"
      "writer st1 be n salt (log_cksum be n c (replicate j' (p, t, d)))" "io_only st st1" "cksum_only (pWal st) (pWal st1)"
      "WAL_SYNC_FLAGS flags \<noteq> 0 \<and> length A < sp \<longrightarrow> take (length A) (pSynced st1) = A"
      using pad_loop_ok [OF pl [unfolded rc1] f w d] by blast
    show thesis
    proof (cases "sp = length A")
      case True
      then have s: "sqlite3OsSync st1 (WAL_SYNC_FLAGS flags) = (st', SQLITE_OK)" "j = n1"
        using p unfolding eq rc1 by (auto split: prod.splits)
      note sd = sync_done [OF s(1) j(2)]
      show thesis
        by (rule that [of r']) (use sd j s io_only_trans [OF j(4)] in \<open>auto simp: writer_def\<close>)
    next
      case False
      then have "st' = st1" "j = n1" using p unfolding eq rc1 by auto
      then show thesis using that [of r'] j flags False sp by simp
    qed
  next
    case False
    have eq: "pad_and_sync st n flags (p, d) t (length A) =
        (case sqlite3OsSync st (WAL_SYNC_FLAGS flags) of (st, rc) \<Rightarrow> (st, rc, 0))"
      using False unfolding pad_and_sync_def Let_def by simp
    then have s: "sqlite3OsSync st (WAL_SYNC_FLAGS flags) = (st', SQLITE_OK)" "j = 0"
      using p unfolding eq by (auto split: prod.splits)
    note sd = sync_done [OF s(1) f]
    show thesis by (rule that [of r]) (use sd f w s in \<open>auto simp: writer_def cksum_only_def\<close>)
  qed
qed

lemma index_loop_ok:
  "index_ok (shm st) (mxFrame (hdr (pWal st))) ps \<Longrightarrow> length ps = i \<Longrightarrow> 0 \<notin> set qs \<Longrightarrow>
    index_loop st i qs = (st', SQLITE_OK, i') \<Longrightarrow>
    index_ok (shm st') (mxFrame (hdr (pWal st))) (ps @ qs) \<and> i' = i + length qs \<and>
      pWal st' = pWal st \<and> pWalFd st' = pWalFd st \<and> pSynced st' = pSynced st \<and> live st' = live st"
proof (induction qs arbitrary: st ps i)
  case (Cons q qs)
  obtain wi rc1 where w: "walIndexAppend (shm st) (mxFrame (hdr (pWal st))) (Suc i) q = (wi, rc1)" by fastforce
  have rc1: "rc1 = SQLITE_OK" using Cons.prems(4) w by (auto simp: Let_def split: if_splits)
  have "index_ok wi (mxFrame (hdr (pWal st))) (ps @ [q])"
    using index_append_ok [OF Cons.prems(1)] w rc1 Cons.prems(2,3) by auto
  then show ?case
    using Cons.IH [of "st\<lparr>shm := wi\<rparr>" "ps @ [q]" "Suc i"] Cons.prems w rc1 by (simp add: Let_def)
qed simp

text \<open>Whatever happens, the index keeps listing what it listed.\<close>

lemma index_loop_any:
  "index_ok (shm st) (mxFrame (hdr (pWal st))) ps \<Longrightarrow> length ps = i \<Longrightarrow> 0 \<notin> set qs \<Longrightarrow>
    index_loop st i qs = (st', rc, i') \<Longrightarrow>
    \<exists>k. index_ok (shm st') (mxFrame (hdr (pWal st))) (ps @ take k qs) \<and> (rc = SQLITE_OK \<longrightarrow> i' = i + length qs \<and> length qs \<le> k)"
proof (induction qs arbitrary: st ps i)
  case (Cons q qs)
  obtain wi rc1 where w: "walIndexAppend (shm st) (mxFrame (hdr (pWal st))) (Suc i) q = (wi, rc1)" by fastforce
  show ?case
  proof (cases "shm st (walFramePage (Suc (length ps)))")
    case (Inl e)
    then have e: "wi = shm st" "rc1 \<noteq> SQLITE_OK" using index_append_unmapped [of "shm st" "Suc (length ps)" e "mxFrame (hdr (pWal st))" q] Inl w Cons.prems(2)
      by (auto split: if_splits)
    then have "shm st' = shm st" "rc \<noteq> SQLITE_OK" using Cons.prems(4) w by (auto simp: Let_def)
    then show ?thesis using Cons.prems(1) by (intro exI [of _ 0]) simp
  next
    case (Inr pg)
    have q: "q \<noteq> 0" using Cons.prems(3) by auto
    have a: "rc1 = SQLITE_OK \<and> index_ok wi (mxFrame (hdr (pWal st))) (ps @ [q])"
      using index_append [OF Cons.prems(1) Inr q] w Cons.prems(2) by (metis prod.inject)
    then have "\<exists>k. index_ok (shm st') (mxFrame (hdr (pWal st))) ((ps @ [q]) @ take k qs) \<and>
        (rc = SQLITE_OK \<longrightarrow> i' = Suc i + length qs \<and> length qs \<le> k)"
      using Cons.IH [of "st\<lparr>shm := wi\<rparr>" "ps @ [q]" "Suc i"] Cons.prems w by (simp add: Let_def)
    then obtain k where "index_ok (shm st') (mxFrame (hdr (pWal st))) ((ps @ [q]) @ take k qs)"
      "rc = SQLITE_OK \<longrightarrow> i' = Suc i + length qs \<and> length qs \<le> k" by blast
    then show ?thesis by (intro exI [of _ "Suc k"]) simp
  qed
qed (intro exI [of _ 0], simp)

lemma limit_ok:
  assumes "pWalFd st = B @ r" "length B \<le> walFrameOffset i n"
  shows "\<exists>r'. pWalFd (frames_limit st n isC i) = B @ r'" "pWal (frames_limit st n isC i) = pWal st"
    "pSynced (frames_limit st n isC i) = pSynced st" "shm (frames_limit st n isC i) = shm st"
    "live (frames_limit st n isC i) = live st"
proof -
  have nf: "pSynced (snd (next_fault s)) = pSynced s" "shm (snd (next_fault s)) = shm s" for s
    by (simp_all add: next_fault_def split: list.splits)
  have *: "(\<exists>r'. pWalFd (walLimitSize s k) = B @ r') \<and> pWal (walLimitSize s k) = pWal s \<and> pSynced (walLimitSize s k) = pSynced s \<and>
      shm (walLimitSize s k) = shm s \<and> live (walLimitSize s k) = live s" if "pWalFd s = B @ r" "length B \<le> k" for s k
  proof -
    obtain a b s1 where n1: "next_fault s = ((a, b), s1)" by (metis surj_pair)
    obtain a2 b2 s2 where n2: "next_fault s1 = ((a2, b2), s2)" by (metis surj_pair)
    have e1: "pWalFd s1 = B @ r" "pWal s1 = pWal s" "pSynced s1 = pSynced s" "shm s1 = shm s" "live s1 = live s"
      using next_fault_simps [of s] nf [of s] that(1) unfolding n1 by simp_all
    have e2: "pWalFd s2 = B @ r" "pWal s2 = pWal s" "pSynced s2 = pSynced s" "shm s2 = shm s" "live s2 = live s"
      using next_fault_simps [of s1] nf [of s1] e1 unfolding n2 by simp_all
    have "\<exists>r'. take k (B @ r) = B @ r'" using that(2) by (simp add: take_append)
    then show ?thesis using e1 e2 unfolding walLimitSize_def Let_def by (auto simp: n1 n2)
  qed
  show "\<exists>r'. pWalFd (frames_limit st n isC i) = B @ r'" "pWal (frames_limit st n isC i) = pWal st"
    "pSynced (frames_limit st n isC i) = pSynced st" "shm (frames_limit st n isC i) = shm st"
    "live (frames_limit st n isC i) = live st"
    using * [OF assms(1)] assms by (auto simp: frames_limit_def Let_def)
qed


text \<open>
  The log of a connection holds the frames \<open>fs\<close>: they are in the file, chained by their checksums,
  and the wal-index lists them.
\<close>

definition log_prefix :: "bool \<Rightarrow> nat \<Rightarrow> u32 \<Rightarrow> bytes \<Rightarrow> frame list \<Rightarrow> bytes" where
  "log_prefix be n ck salt fs = log_header be n ck salt @ log_chain be n salt (header_cksum be n ck salt) fs"

definition log_ok :: "log_state \<Rightarrow> bool \<Rightarrow> nat \<Rightarrow> u32 \<Rightarrow> frame list \<Rightarrow> bool" where
  "log_ok st be n ck fs \<longleftrightarrow> iReCksum (pWal st) = 0 \<and> mxFrame (hdr (pWal st)) = length fs \<and>
     length (aSalt (hdr (pWal st))) = 8 \<and> frames_ok n fs \<and> index_ok (shm st) (length fs) (map fst fs) \<and>
     (fs \<noteq> [] \<longrightarrow>
        writer st be n (aSalt (hdr (pWal st))) (log_cksum be n (header_cksum be n ck (aSalt (hdr (pWal st)))) fs) \<and>
        (\<exists>r. pWalFd st = log_prefix be n ck (aSalt (hdr (pWal st))) fs @ r))"

lemma length_log_prefix:
  "length salt = 8 \<Longrightarrow> frames_ok n fs \<Longrightarrow> length (log_prefix be n ck salt fs) = walFrameOffset (length fs + 1) n"
  by (simp add: log_prefix_def length_log_header length_log_chain walFrameOffset_def)

lemma log_prefix_append:
  "log_prefix be n ck salt (fs @ gs) =
     log_prefix be n ck salt fs @ log_chain be n salt (log_cksum be n (header_cksum be n ck salt) fs) gs"
  by (simp add: log_prefix_def log_chain_append)

lemma tx_frames_ok: "\<forall>p \<in> set ps. fst p \<noteq> 0 \<and> length (snd p) = n \<Longrightarrow> frames_ok n (tx_frames isC nT ps)"
  by (induction ps) (auto simp: frames_ok_def)

lemma tx_frames_pages: "map fst (tx_frames isC nT ps) = map fst ps" "length (tx_frames isC nT ps) = length ps"
  by (induction ps) auto

text \<open>The header step, taken when the log is empty.\<close>

lemma write_header_ok:
  assumes "walWriteHeader st n flags rnd = (st', SQLITE_OK)" and n: "n < 2 ^ 32" and re: "iReCksum (pWal st) = 0"
    and salt: "length (aSalt (hdr (pWal st))) = 8" "length rnd = 8"
  shows "\<exists>ck r. writer st' False n (aSalt (hdr (pWal st'))) (header_cksum False n ck (aSalt (hdr (pWal st')))) \<and>
    pWalFd st' = log_header False n ck (aSalt (hdr (pWal st'))) @ r \<and>
    mxFrame (hdr (pWal st')) = mxFrame (hdr (pWal st)) \<and> shm st' = shm st \<and> live st' = live st \<and> sectorSize st' = sectorSize st"
proof -
  define sl where "sl = (if nCkpt (pWal st) = 0 then rnd else aSalt (hdr (pWal st)))"
  define ck where "ck = nCkpt (pWal st)"
  define c where "c = header_cksum False n ck sl"
  define w where "w = hdr_upd (\<lambda>h. h\<lparr>aSalt := sl, bigEndCksum := 0, aFrameCksum := c\<rparr>) (pWal st\<lparr>szPage := of_nat n\<rparr>)"
  obtain st1 rc1 where wr: "sqlite3OsWrite (st\<lparr>pWal := w, truncateOnCommit := True\<rparr>) (log_header False n ck sl) 0 = (st1, rc1)" by fastforce
  have hs: "header_start False n ck sl = sqlite3Put4byte WAL_MAGIC @ sqlite3Put4byte WAL_MAX_VERSION @ sqlite3Put4byte (of_nat n) @
      sqlite3Put4byte ck @ sl" by (simp add: header_start_def)
  have st0: "(if nCkpt (pWal st) = 0 then st\<lparr>pWal := hdr_upd (\<lambda>h. h\<lparr>aSalt := rnd\<rparr>) (pWal st)\<rparr> else st) =
      st\<lparr>pWal := hdr_upd (\<lambda>h. h\<lparr>aSalt := sl\<rparr>) (pWal st)\<rparr>"
    by (simp add: sl_def)
  have cks: "walChecksumBytes True (header_start False n ck sl) (0, 0) = c" by (simp add: c_def header_cksum_def)
  have eq: "walWriteHeader st n flags rnd = (if rc1 \<noteq> SQLITE_OK then (st1, rc1)
      else if syncHeader st1 then sqlite3OsSync st1 (CKPT_SYNC_FLAGS flags) else (st1, SQLITE_OK))"
    unfolding walWriteHeader_def st0 Let_def
    by (simp add: hs [symmetric] ck_def [symmetric] cks) (simp add: wr [unfolded w_def log_header_def c_def, simplified] c_def)
  have rc1: "rc1 = SQLITE_OK" using assms(1) unfolding eq by (auto split: if_splits)
  note w1 = write_ok [OF wr [unfolded rc1]]
  have p1: "pWalFd st1 = log_header False n ck sl @ drop (length (log_header False n ck sl)) (pWalFd st)" "pWal st1 = w"
    using w1(1,2) file_write_at [of "[]" "pWalFd st"] by simp_all
  have st': "pWalFd st' = pWalFd st1 \<and> pWal st' = pWal st1 \<and> io_only st1 st'"
    using assms(1) sync_ok [of st1 "CKPT_SYNC_FLAGS flags" st'] unfolding eq rc1 by (auto simp: io_only_def split: if_splits)
  have "unat (of_nat n :: u32) = n" using n by (simp add: unsigned_of_nat take_bit_nat_eq_self)
  then have "writer st' False n sl c" using st' p1(2) salt re by (simp add: writer_def w_def sl_def)
  moreover have "aSalt (hdr (pWal st')) = sl" using st' p1(2) by (simp add: w_def)
  moreover have "mxFrame (hdr (pWal st')) = mxFrame (hdr (pWal st))" using st' p1(2) by (simp add: w_def)
  moreover have "io_only (st\<lparr>pWal := w, truncateOnCommit := True\<rparr>) st'" using io_only_trans w1(4) st' by blast
  ultimately show ?thesis using st' p1(1) unfolding c_def by (intro exI conjI) (auto simp: io_only_def)
qed

text \<open>How the header of the wal-index holds a page size.\<close>

definition page_code :: "nat \<Rightarrow> u16" where
  "page_code n = (let sz = (of_nat n :: u32) in ucast ((sz AND 0xff00) OR drop_bit 16 sz))"

lemma walFrames_ok:
  assumes ok: "log_ok st be n ck fs" and call: "walFrames st 0 n pList nT isCommit flags rnd = (st', SQLITE_OK)"
    and pages: "pList \<noteq> []" "\<forall>p \<in> set pList. fst p \<noteq> 0 \<and> length (snd p) = n"
    and params: "n < 2 ^ 32" "length rnd = 8" "0 < sectorSize st"
  shows "\<exists>be ck k. log_ok st' be n ck (fs @ tx_frames isCommit nT pList @ replicate k (fst (last pList), nT, snd (last pList))) \<and>
    (isCommit \<longrightarrow> live st' = hdr (pWal st') \<and> nPage (hdr (pWal st')) = nT \<and>
      (WAL_SYNC_FLAGS flags \<noteq> 0 \<longrightarrow>
        (\<exists>r. pSynced st' = log_prefix be n ck (aSalt (hdr (pWal st'))) (fs @ tx_frames isCommit nT pList) @ r))) \<and>
    (\<not> isCommit \<longrightarrow> live st' = live st \<and> k = 0) \<and> hszPage (hdr (pWal st')) = page_code n"
proof -
  let ?tx = "tx_frames isCommit nT pList" and ?m = "length fs" and ?pd = "(fst (last pList), snd (last pList))"
  have m: "mxFrame (hdr (pWal st)) = ?m" using ok by (simp add: log_ok_def)
  have fok: "frames_ok n fs" using ok by (simp add: log_ok_def)
  obtain st1 rc1 where h: "(if ?m = 0 then walWriteHeader st n flags rnd else (st, SQLITE_OK)) = (st1, rc1)" by fastforce
  note W = walFrames_def [of st 0 n pList nT isCommit flags rnd, unfolded Let_def m h prod.case]
  have rc1: "rc1 = SQLITE_OK" using call unfolding W by (auto split: if_splits)
  obtain be ck sl r where st1: "writer st1 be n sl (log_cksum be n (header_cksum be n ck sl) fs)"
    "pWalFd st1 = log_prefix be n ck sl fs @ r" "mxFrame (hdr (pWal st1)) = ?m" "shm st1 = shm st" "live st1 = live st"
    "sectorSize st1 = sectorSize st"
  proof (cases "?m = 0")
    case True
    have "iReCksum (pWal st) = 0" "length (aSalt (hdr (pWal st))) = 8" using ok by (simp_all add: log_ok_def)
    from write_header_ok [OF _ params(1) this params(2), of flags st1] h rc1 True obtain ck r where
      "writer st1 False n (aSalt (hdr (pWal st1))) (header_cksum False n ck (aSalt (hdr (pWal st1))))"
      "pWalFd st1 = log_header False n ck (aSalt (hdr (pWal st1))) @ r"
      "mxFrame (hdr (pWal st1)) = mxFrame (hdr (pWal st))" "shm st1 = shm st" "live st1 = live st" "sectorSize st1 = sectorSize st"
      by auto
    then show ?thesis using that [of False "aSalt (hdr (pWal st1))" ck r] True m by (simp add: log_prefix_def)
  next
    case False
    then have "st1 = st" "fs \<noteq> []" using h by auto
    then show ?thesis using that ok m unfolding log_ok_def by blast
  qed
  let ?c = "log_cksum be n (header_cksum be n ck sl) fs" and ?A = "log_prefix be n ck sl fs"
  have s8: "length sl = 8" using st1(1) by (simp add: writer_def)
  have A: "walFrameOffset (?m + 1) n = length ?A" by (simp add: length_log_prefix [OF s8 fok])
  have sz: "(unat (szPage (pWal st1)) \<noteq> n) = False" using st1(1) by (simp add: writer_def)
  obtain st2 rc2 il o2 as pl where fl: "frames_loop st1 n 0 isCommit nT flags pList ?m (length ?A) None = (st2, rc2, il, o2, as, pl)"
    by (metis surj_pair)
  note W2 = W [unfolded rc1 sz A fl prod.case]
  have rc2: "rc2 = SQLITE_OK" using call unfolding W2 by (auto split: if_splits)
  have len: "\<forall>p \<in> set pList. length (snd p) = n" using pages(2) by blast
  have loop: "(\<exists>r'. pWalFd st2 = ?A @ log_chain be n sl ?c ?tx @ r') \<and> writer st2 be n sl (log_cksum be n ?c ?tx) \<and>
    cksum_only (pWal st1) (pWal st2) \<and> io_only st1 st2 \<and> il = ?m + length pList \<and> o2 = length ?A + length pList * (n + 24) \<and>
    as = replicate (length pList) True \<and> pl = (if pList = [] then None else Some (last pList))"
    by (rule frames_loop_ok [OF fl [unfolded rc2] st1(2,1) len])
  let ?B = "log_prefix be n ck sl (fs @ ?tx)"
  have txok: "frames_ok n ?tx" by (rule tx_frames_ok [OF pages(2)])
  have fok2: "frames_ok n (fs @ ?tx)" using fok txok by (auto simp: frames_ok_def)
  obtain r2 where f2: "pWalFd st2 = ?B @ r2" using loop by (auto simp: log_prefix_append)
  have lenB: "length ?B = walFrameOffset (?m + length pList + 1) n" "length ?B = o2"
    using length_log_prefix [OF s8 fok2, of be ck] length_log_prefix [OF s8 fok, of be ck] loop
    by (simp_all add: tx_frames_pages walFrameOffset_def algebra_simps)
  have re: "(isCommit \<and> iReCksum (pWal st2) \<noteq> 0) = False" using loop by (simp add: writer_def)
  have pl: "pl = Some (last pList)" using loop pages(1) by simp
  obtain st3 rc3 k where ps: "(if isCommit \<and> WAL_SYNC_FLAGS flags \<noteq> 0
      then pad_and_sync st2 n flags (last pList) nT o2 else (st2, SQLITE_OK, 0)) = (st3, rc3, k)" by (metis surj_pair)
  note W3 = W2 [unfolded rc2 re if_False prod.case pl option.case ps]
  have rc3: "rc3 = SQLITE_OK" using call unfolding W3 by (auto split: if_splits)
  let ?pad = "replicate k (fst (last pList), nT, snd (last pList))"
  let ?fs = "fs @ ?tx @ ?pad"
  have dlast: "length (snd (last pList)) = n" "fst (last pList) \<noteq> 0" using pages by simp_all
  have st3: "(\<exists>r'. pWalFd st3 = log_prefix be n ck sl ?fs @ r') \<and>
    writer st3 be n sl (log_cksum be n (header_cksum be n ck sl) ?fs) \<and> cksum_only (pWal st2) (pWal st3) \<and> io_only st2 st3 \<and>
    (isCommit \<and> WAL_SYNC_FLAGS flags \<noteq> 0 \<longrightarrow> take (length ?B) (pSynced st3) = ?B) \<and> (\<not> isCommit \<longrightarrow> k = 0)"
  proof (cases "isCommit \<and> WAL_SYNC_FLAGS flags \<noteq> 0")
    case True
    have "pad_and_sync st2 n flags (fst (last pList), snd (last pList)) nT (length ?B) = (st3, SQLITE_OK, k)"
      using ps True rc3 lenB(2) by simp
    moreover have "0 < sectorSize st2" using loop st1(6) params(3) by (simp add: io_only_def)
    moreover have "writer st2 be n sl (log_cksum be n (header_cksum be n ck sl) (fs @ ?tx))"
      using loop by (simp add: log_cksum_append)
    ultimately obtain r' where "pWalFd st3 = ?B @ log_chain be n sl (log_cksum be n (header_cksum be n ck sl) (fs @ ?tx)) ?pad @ r'"
      "writer st3 be n sl (log_cksum be n (log_cksum be n (header_cksum be n ck sl) (fs @ ?tx)) ?pad)"
      "io_only st2 st3" "cksum_only (pWal st2) (pWal st3)" "take (length ?B) (pSynced st3) = ?B"
      using pad_and_sync_ok [OF _ _ _ f2 _ dlast(1)] True by metis
    then show ?thesis using True log_prefix_append [of be n ck sl "fs @ ?tx" ?pad] log_cksum_append [of be n _ "fs @ ?tx" ?pad] by simp
  next
    case False
    then have "st3 = st2" "k = 0" using ps by auto
    then show ?thesis using False f2 loop by (simp add: log_cksum_append io_only_def cksum_only_def) auto
  qed
  have fok3: "frames_ok n ?fs" using fok2 dlast by (simp add: frames_ok_append frames_ok_replicate)
  obtain r3 where f3: "pWalFd st3 = log_prefix be n ck sl ?fs @ r3" using st3 by blast
  have len3: "length (log_prefix be n ck sl ?fs) \<le> walFrameOffset (il + k + 1) n"
    using length_log_prefix [OF s8 fok3, of be ck] loop by (simp add: tx_frames_pages add.assoc)
  let ?st4 = "frames_limit st3 n isCommit (il + k + 1)"
  note lim = limit_ok [OF f3 len3, of isCommit]
  have qs: "map (\<lambda>(p, a). fst p) (filter snd (zip pList as)) = map fst pList"
  proof -
    have "filter snd (zip xs (replicate (length xs) True)) = map (\<lambda>x. (x, True)) xs" for xs :: "(u32 \<times> bytes) list"
      by (induction xs) auto
    then show ?thesis using loop by (simp add: comp_def)
  qed
  obtain st5 rc5 i5 where ix: "index_loop ?st4 ?m (map fst pList @ replicate k (fst (last pList))) = (st5, rc5, i5)" by (metis surj_pair)
  note W5 = W3 [unfolded rc3 qs ix prod.case]
  have rc5: "rc5 = SQLITE_OK" and st': "st' = frames_publish st5 n nT isCommit i5"
    using call unfolding W5 by (auto split: if_splits)
  have same: "mxFrame (hdr (pWal st3)) = ?m" "shm st3 = shm st" "live st3 = live st"
  proof -
    show "mxFrame (hdr (pWal st3)) = ?m" using loop st3 st1(3) cksum_only_mxFrame by metis
    show "shm st3 = shm st" "live st3 = live st" using loop st3 st1(4,5) by (simp_all add: io_only_def)
  qed
  have "index_ok (shm ?st4) (mxFrame (hdr (pWal ?st4))) (map fst fs)"
    using ok same unfolding lim(2,4) log_ok_def by simp
  moreover have "0 \<notin> set (map fst pList @ replicate k (fst (last pList)))" using pages(2) dlast(2) by force
  ultimately have ix5: "index_ok (shm st5) ?m (map fst fs @ map fst pList @ replicate k (fst (last pList)))"
    "i5 = ?m + (length pList + k)" "pWal st5 = pWal st3" "\<exists>r. pWalFd st5 = log_prefix be n ck sl ?fs @ r"
    "pSynced st5 = pSynced st3" "live st5 = live st"
    using index_loop_ok [OF _ _ _ ix [unfolded rc5], of "map fst fs"] lim(1) same unfolding lim(2-5) by auto
  have pgs: "map fst ?fs = map fst fs @ map fst pList @ replicate k (fst (last pList))" by (simp add: tx_frames_pages)
  have "index_ok (shm st5) (length ?fs) (map fst ?fs)"
    using index_commit [OF ix5(1)] unfolding pgs [symmetric] by simp
  moreover have pub: "iReCksum (pWal st') = iReCksum (pWal st5)" "mxFrame (hdr (pWal st')) = i5" "aSalt (hdr (pWal st')) = aSalt (hdr (pWal st5))"
    "shm st' = shm st5" "pWalFd st' = pWalFd st5" "pSynced st' = pSynced st5" "szPage (pWal st') = szPage (pWal st5)"
    "aFrameCksum (hdr (pWal st')) = aFrameCksum (hdr (pWal st5))" "bigEndCksum (hdr (pWal st')) = bigEndCksum (hdr (pWal st5))"
    "isCommit \<Longrightarrow> live st' = hdr (pWal st') \<and> nPage (hdr (pWal st')) = nT" "\<not> isCommit \<Longrightarrow> live st' = live st5"
    "hszPage (hdr (pWal st')) = page_code n"
    by (simp_all add: st' frames_publish_def walIndexWriteHdr_def Let_def page_code_def)
  moreover have w3: "writer st3 be n sl (log_cksum be n (header_cksum be n ck sl) ?fs)" using st3 by blast
  moreover have "aSalt (hdr (pWal st')) = sl" using pub(3) ix5(3) w3 by (simp add: writer_def)
  moreover have "length ?fs = i5" using ix5(2) by (simp add: tx_frames_pages)
  ultimately have "log_ok st' be n ck ?fs"
    using fok3 s8 ix5(3,4) unfolding log_ok_def by (simp add: writer_def)
  moreover have "\<exists>r. pSynced st' = ?B @ r" if "isCommit" "WAL_SYNC_FLAGS flags \<noteq> 0"
  proof -
    have "take (length ?B) (pSynced st') = ?B" using st3 that pub(6) ix5(5) by simp
    then show ?thesis by (metis append_take_drop_id)
  qed
  ultimately show ?thesis
    using pub(10-12) ix5(6) st3 \<open>aSalt (hdr (pWal st')) = sl\<close> by (intro exI [of _ be] exI [of _ ck] exI [of _ k]) auto
qed

end
