(* ===== verification/Wal_Recover.thy ===== *)
theory Wal_Recover
  imports Wal_Log
begin

text \<open>
  Recovery of the write-ahead log (wal.c): the log file is read from its first frame, every frame
  whose checksum continues the chain enters the wal-index, and the last commit among them is what
  the database contains. Whatever follows the last committed frame in the file, torn frames or
  frames of an older log, a committed transaction is found again.
\<close>

section \<open>Model\<close>

text \<open>The private buffer that stands in for a table of the wal-index while it is filled; in the first
  table the header of the index takes the place of 34 page numbers.\<close>

definition page_view :: "nat \<Rightarrow> wi_page \<Rightarrow> wi_page" where
  "page_view iPg aPrivate = (if iPg = 0 then aPrivate\<lparr>aPgno := drop 34 (aPgno aPrivate)\<rparr> else aPrivate)"

definition page_back :: "nat \<Rightarrow> wi_page \<Rightarrow> wi_page \<Rightarrow> wi_page" where
  "page_back iPg aPrivate pg = (if iPg = 0 then pg\<lparr>aPgno := take 34 (aPgno aPrivate) @ aPgno pg\<rparr> else pg)"

text \<open>The inner loop; it returns the first frame not read and the checksum at the last commit.\<close>

fun recover_frames :: "log_state \<Rightarrow> nat \<Rightarrow> nat \<Rightarrow> nat \<Rightarrow> u32 \<times> u32 \<Rightarrow> log_state \<times> rc \<times> nat \<times> (u32 \<times> u32)" where
  "recover_frames st szPg iFrame 0 cks = (st, SQLITE_OK, iFrame, cks)"
| "recover_frames st szPg iFrame (Suc n) cks =
     (let (st, rc, aFrame) = sqlite3OsRead st (szPg + WAL_FRAME_HDRSIZE) (walFrameOffset iFrame szPg)
      in if rc \<noteq> SQLITE_OK then (st, rc, iFrame, cks)
         else (let (w, valid) = walDecodeFrame (pWal st) (drop WAL_FRAME_HDRSIZE aFrame) (take WAL_FRAME_HDRSIZE aFrame);
                   st = st\<lparr>pWal := w\<rparr>
               in case valid of
                    None \<Rightarrow> (st, SQLITE_OK, iFrame, cks)
                  | Some (pgno, nTruncate) \<Rightarrow>
                      (let (wi, rc) = walIndexAppend (shm st) (mxFrame (hdr (pWal st))) iFrame pgno;
                           st = st\<lparr>shm := wi\<rparr>
                       in if rc \<noteq> SQLITE_OK then (st, rc, iFrame, cks)
                          else if nTruncate \<noteq> 0
                          then (let sz = (of_nat szPg :: u32);
                                    st = st\<lparr>pWal := hdr_upd (\<lambda>h. h\<lparr>mxFrame := iFrame, nPage := nTruncate,
                                               hszPage := ucast ((sz AND 0xff00) OR drop_bit 16 sz)\<rparr>) (pWal st)\<rparr>
                                in recover_frames st szPg (iFrame + 1) n (aFrameCksum (hdr (pWal st))))
                          else recover_frames st szPg (iFrame + 1) n cks)))"

fun recover_pages :: "log_state \<Rightarrow> nat \<Rightarrow> nat \<Rightarrow> wi_page \<Rightarrow> nat \<Rightarrow> nat \<Rightarrow> u32 \<times> u32 \<Rightarrow> log_state \<times> rc \<times> (u32 \<times> u32)" where
  "recover_pages st szPg iLastFrame aPrivate iPg 0 cks = (st, SQLITE_OK, cks)"
| "recover_pages st szPg iLastFrame aPrivate iPg (Suc n) cks =
     (let iLast = min iLastFrame (HASHTABLE_NPAGE_ONE + iPg * HASHTABLE_NPAGE);
          iFirst = 1 + (if iPg = 0 then 0 else HASHTABLE_NPAGE_ONE + (iPg - 1) * HASHTABLE_NPAGE)
      in case shm st iPg of
           Inl rc \<Rightarrow> (st, rc, cks)
         | Inr aShare \<Rightarrow>
             (let st = st\<lparr>shm := (shm st)(iPg := Inr (page_view iPg aPrivate))\<rparr>;
                  (st, rc, iFrame, cks) = recover_frames st szPg iFirst (iLast + 1 - iFirst) cks;
                  aPrivate = (case shm st iPg of Inr pg \<Rightarrow> page_back iPg aPrivate pg | Inl _ \<Rightarrow> aPrivate)
              in if iFrame \<le> iLast then (st, rc, cks)
                 else recover_pages st szPg iLastFrame aPrivate (iPg + 1) n cks))"

text \<open>Reading the header and then the frames.\<close>

definition recover_log :: "log_state \<Rightarrow> nat \<Rightarrow> wi_page \<Rightarrow> log_state \<times> rc \<times> (u32 \<times> u32)" where
  "recover_log st nSize aPrivate =
     (let (st, rc, aBuf) = sqlite3OsRead st WAL_HDRSIZE 0
      in if rc \<noteq> SQLITE_OK then (st, rc, (0, 0))
         else (let magic = the (sqlite3Get4byte aBuf);
                   sz = the (sqlite3Get4byte (drop 8 aBuf))
               in if magic AND 0xFFFFFFFE \<noteq> WAL_MAGIC \<or> sz AND (sz - 1) \<noteq> 0 \<or> sz > 65536 \<or> sz < 512
                  then (st, SQLITE_OK, (0, 0))
                  else (let be = ucast (magic AND 1);
                            c = walChecksumBytes (be = 0) (take 24 aBuf) (0, 0);
                            st = st\<lparr>pWal := hdr_upd (\<lambda>h. h\<lparr>bigEndCksum := be, aSalt := take 8 (drop 16 aBuf), aFrameCksum := c\<rparr>)
                                     (pWal st\<lparr>szPage := sz, nCkpt := the (sqlite3Get4byte (drop 12 aBuf))\<rparr>)\<rparr>
                        in if fst c \<noteq> the (sqlite3Get4byte (drop 24 aBuf)) \<or> snd c \<noteq> the (sqlite3Get4byte (drop 28 aBuf))
                           then (st, SQLITE_OK, (0, 0))
                           else if the (sqlite3Get4byte (drop 4 aBuf)) \<noteq> WAL_MAX_VERSION then (st, SQLITE_CANTOPEN, (0, 0))
                           else (let ((mrc, _), st) = next_fault st
                                 in if mrc \<noteq> SQLITE_OK then (st, SQLITE_NOMEM, (0, 0))
                                    else (let szPg = unat sz; iLastFrame = (nSize - WAL_HDRSIZE) div (szPg + WAL_FRAME_HDRSIZE)
                                          in recover_pages st szPg iLastFrame aPrivate 0 (walFramePage iLastFrame + 1) (0, 0))))))"

abbreviation (input) WAL_NREADER :: nat where "WAL_NREADER \<equiv> 5"
abbreviation (input) READMARK_NOT_USED :: nat where "READMARK_NOT_USED \<equiv> 0xffffffff"

fun reset_marks :: "log_state \<Rightarrow> nat list \<Rightarrow> rc \<Rightarrow> log_state \<times> rc" where
  "reset_marks st [] rc = (st, rc)"
| "reset_marks st (i # is) rc0 =
     (let ((rc, _), st) = next_fault st
      in if rc = SQLITE_OK
         then (let mark = (if i = 1 \<and> mxFrame (hdr (pWal st)) \<noteq> 0 then mxFrame (hdr (pWal st)) else READMARK_NOT_USED);
                   st = st\<lparr>pInfo := pInfo st\<lparr>aReadMark := (aReadMark (pInfo st))[i := mark]\<rparr>\<rparr>
               in reset_marks st is rc)
         else if rc \<noteq> SQLITE_BUSY then (st, rc)
         else reset_marks st is rc)"

definition recover_finish :: "log_state \<Rightarrow> u32 \<times> u32 \<Rightarrow> log_state \<times> rc" where
  "recover_finish st cks =
     (let st = walIndexWriteHdr (st\<lparr>pWal := hdr_upd (\<lambda>h. h\<lparr>aFrameCksum := cks\<rparr>) (pWal st)\<rparr>);
          st = st\<lparr>pInfo := \<lparr>nBackfill = 0, aReadMark = (aReadMark (pInfo st))[0 := 0],
                                nBackfillAttempted = mxFrame (hdr (pWal st))\<rparr>\<rparr>
      in reset_marks st [1..<WAL_NREADER] SQLITE_OK)"

definition walIndexRecover :: "log_state \<Rightarrow> wi_page \<Rightarrow> log_state \<times> rc" where
  "walIndexRecover st aPrivate =
     (let ((rc, _), st) = next_fault st
      in if rc \<noteq> SQLITE_OK then (st, rc)
         else (let st = st\<lparr>pWal := pWal st\<lparr>hdr := \<lparr>iChange = 0, bigEndCksum = 0, hszPage = 0, mxFrame = 0, nPage = 0,
                                       aFrameCksum = (0, 0), aSalt = replicate 8 0\<rparr>\<rparr>\<rparr>;
                   ((rc, _), st) = next_fault st
               in if rc \<noteq> SQLITE_OK then (st, rc)
                  else (let (st, rc, cks) = (if length (pWalFd st) > WAL_HDRSIZE
                                             then recover_log st (length (pWalFd st)) aPrivate else (st, SQLITE_OK, (0, 0)))
                        in if rc = SQLITE_OK then recover_finish st cks else (st, rc))))"

section \<open>Reading without faults\<close>

lemma read_no_fault:
  assumes "faults st = []"
  shows "sqlite3OsRead st n off =
    (st, if length (take n (drop off (pWalFd st))) < n then SQLITE_IOERR else SQLITE_OK,
     take n (drop off (pWalFd st)) @ replicate (n - length (take n (drop off (pWalFd st)))) 0)"
  using assms by (simp add: sqlite3OsRead_def next_fault_def Let_def)

text \<open>What recovery keeps while it reads: the file, and an index of the frames read.\<close>

definition reading :: "log_state \<Rightarrow> bytes \<Rightarrow> bool \<Rightarrow> nat \<Rightarrow> bytes \<Rightarrow> u32 list \<Rightarrow> bool" where
  "reading st F be n salt ps \<longleftrightarrow> faults st = [] \<and> pWalFd st = F \<and> (\<forall>h. \<not> isl (shm st h)) \<and>
     index_ok (shm st) (mxFrame (hdr (pWal st))) ps \<and> unat (szPage (pWal st)) = n \<and>
     (nativeCksum (pWal st) \<longleftrightarrow> \<not> be) \<and> aSalt (hdr (pWal st)) = salt \<and> iReCksum (pWal st) = 0 \<and>
     (mxFrame (hdr (pWal st)) \<noteq> 0 \<longrightarrow> hszPage (hdr (pWal st)) = page_code n)"

lemma decode_pgno: "walDecodeFrame w d f = (w', Some (p, t)) \<Longrightarrow> p \<noteq> 0"
  by (auto simp: walDecodeFrame_def Let_def split: if_splits)

lemma decode_wal: "walDecodeFrame w d f = (w', v) \<Longrightarrow> cksum_only w w'"
  by (auto simp: walDecodeFrame_def Let_def cksum_only_def split: if_splits)

text \<open>A step of the inner loop on a file without faults.\<close>

lemma cksum_only_reading:
  assumes "cksum_only (pWal st) w" "reading st F be n salt ps"
  shows "reading (st\<lparr>pWal := w\<rparr>) F be n salt ps" "mxFrame (hdr w) = mxFrame (hdr (pWal st))" "nPage (hdr w) = nPage (hdr (pWal st))"
proof -
  have a: "g (hdr_upd (\<lambda>h. h\<lparr>aFrameCksum := (0, 0)\<rparr>) w) = g (hdr_upd (\<lambda>h. h\<lparr>aFrameCksum := (0, 0)\<rparr>) (pWal st))" for g
    using assms(1) by (simp add: cksum_only_def)
  have "szPage w = szPage (pWal st)" "bigEndCksum (hdr w) = bigEndCksum (hdr (pWal st))" "aSalt (hdr w) = aSalt (hdr (pWal st))"
    "iReCksum w = iReCksum (pWal st)" "hszPage (hdr w) = hszPage (hdr (pWal st))"
    using a [of szPage] a [of "\<lambda>w. bigEndCksum (hdr w)"] a [of "\<lambda>w. aSalt (hdr w)"] a [of iReCksum]
      a [of "\<lambda>w. hszPage (hdr w)"] by simp_all
  moreover show "mxFrame (hdr w) = mxFrame (hdr (pWal st))" "nPage (hdr w) = nPage (hdr (pWal st))"
    using a [of "\<lambda>w. mxFrame (hdr w)"] a [of "\<lambda>w. nPage (hdr w)"] by simp_all
  ultimately show "reading (st\<lparr>pWal := w\<rparr>) F be n salt ps" using assms(2) by (simp add: reading_def)
qed

lemma reading_append:
  assumes "reading st F be n salt ps" "p \<noteq> 0"
  obtains wi where "walIndexAppend (shm st) (mxFrame (hdr (pWal st))) (Suc (length ps)) p = (wi, SQLITE_OK)"
    "reading (st\<lparr>shm := wi\<rparr>) F be n salt (ps @ [p])"
proof -
  have ok: "index_ok (shm st) (mxFrame (hdr (pWal st))) ps" and map: "\<And>h. \<not> isl (shm st h)"
    using assms(1) by (simp_all add: reading_def)
  obtain pg where pg: "shm st (walFramePage (Suc (length ps))) = Inr pg"
    using map [of "walFramePage (Suc (length ps))"] by (cases "shm st (walFramePage (Suc (length ps)))") auto
  obtain wi where w: "walIndexAppend (shm st) (mxFrame (hdr (pWal st))) (Suc (length ps)) p = (wi, SQLITE_OK)"
    "index_ok wi (mxFrame (hdr (pWal st))) (ps @ [p])" "\<forall>h. isl (wi h) \<longleftrightarrow> isl (shm st h)"
    by (rule index_append [OF ok pg assms(2)])
  have "reading (st\<lparr>shm := wi\<rparr>) F be n salt (ps @ [p])" using assms(1) w(2,3) by (simp add: reading_def)
  with w(1) show thesis by (rule that)
qed

text \<open>The chain: as long as the frames read are those of \<open>fs\<close>, everything is determined.\<close>

abbreviation is_commit :: "frame list \<Rightarrow> nat \<Rightarrow> bool" where
  "is_commit fs i \<equiv> fst (snd (fs ! (i - 1))) \<noteq> 0"

definition last_commit :: "frame list \<Rightarrow> nat \<Rightarrow> nat" where
  "last_commit fs k = newest (is_commit fs) k"

definition on_chain :: "log_state \<Rightarrow> u32 \<times> u32 \<Rightarrow> bool \<Rightarrow> nat \<Rightarrow> u32 \<times> u32 \<Rightarrow> frame list \<Rightarrow> u32 list \<Rightarrow> bool" where
  "on_chain st cks be n c0 fs ps \<longleftrightarrow> length ps \<le> length fs \<and> ps = map fst (take (length ps) fs) \<and>
     mxFrame (hdr (pWal st)) = last_commit fs (length ps) \<and>
     (0 < last_commit fs (length ps) \<longrightarrow> cks = log_cksum be n c0 (take (last_commit fs (length ps)) fs) \<and>
        nPage (hdr (pWal st)) = fst (snd (fs ! (last_commit fs (length ps) - 1))))"

definition running :: "log_state \<Rightarrow> bool \<Rightarrow> nat \<Rightarrow> u32 \<times> u32 \<Rightarrow> frame list \<Rightarrow> nat \<Rightarrow> bool" where
  "running st be n c0 fs k \<longleftrightarrow> (k \<le> length fs \<longrightarrow> aFrameCksum (hdr (pWal st)) = log_cksum be n c0 (take k fs))"

definition past_chain :: "log_state \<Rightarrow> frame list \<Rightarrow> u32 list \<Rightarrow> bool" where
  "past_chain st fs ps \<longleftrightarrow> length fs < length ps \<and> take (length fs) ps = map fst fs \<and>
     last_commit fs (length fs) \<le> mxFrame (hdr (pWal st))"

text \<open>Nothing that decodes follows the chain.\<close>

definition chain_ends :: "bool \<Rightarrow> nat \<Rightarrow> bytes \<Rightarrow> u32 \<times> u32 \<Rightarrow> bytes \<Rightarrow> bool" where
  "chain_ends be n salt c rest \<longleftrightarrow> length rest < n + 24 \<or> take 8 (drop 8 rest) \<noteq> salt \<or> sqlite3Get4byte rest = Some 0 \<or>
     walChecksumBytes (\<not> be) (take n (drop 24 rest)) (walChecksumBytes (\<not> be) (take 8 rest) c) \<noteq>
       (the (sqlite3Get4byte (drop 16 rest)), the (sqlite3Get4byte (drop 20 rest)))"

lemma last_commit_Suc: "last_commit fs (Suc k) = (if is_commit fs (Suc k) then Suc k else last_commit fs k)"
  by (simp add: last_commit_def)

lemma last_commit_le: "last_commit fs k \<le> k"
  unfolding last_commit_def by (rule newest_cases [of "is_commit fs" k]) auto

lemma log_chain_nth:
  "k < length fs \<Longrightarrow> fs ! k = (p, t, d) \<Longrightarrow> \<exists>B. log_chain be n salt c fs =
     log_chain be n salt c (take k fs) @ frame_header p t salt (log_cksum be n c (take (Suc k) fs)) @ d @ B"
proof -
  assume k: "k < length fs" and f: "fs ! k = (p, t, d)"
  have s: "take (Suc k) fs = take k fs @ [(p, t, d)]" using k f by (simp add: take_Suc_conv_app_nth)
  have "fs = take k fs @ (p, t, d) # drop (Suc k) fs" using k f by (metis id_take_nth_drop)
  then have "log_chain be n salt c fs = log_chain be n salt c (take k fs @ (p, t, d) # drop (Suc k) fs)" by simp
  also have "\<dots> = log_chain be n salt c (take k fs) @ frame_header p t salt (log_cksum be n c (take (Suc k) fs)) @ d @
      log_chain be n salt (log_cksum be n c (take (Suc k) fs)) (drop (Suc k) fs)"
    unfolding s by (simp add: log_chain_append log_cksum_append)
  finally show ?thesis by blast
qed


definition tracked :: "log_state \<Rightarrow> u32 \<times> u32 \<Rightarrow> bool \<Rightarrow> nat \<Rightarrow> u32 \<times> u32 \<Rightarrow> bytes \<Rightarrow> bytes \<Rightarrow> frame list \<Rightarrow> u32 list \<Rightarrow> bool" where
  "tracked st cks be n c0 salt rest fs ps \<longleftrightarrow>
     on_chain st cks be n c0 fs ps \<or> past_chain st fs ps \<and> \<not> chain_ends be n salt (log_cksum be n c0 fs) rest"

lemma read_frame:
  assumes "reading st F be n salt ps" "walFrameOffset (Suc (length ps) + 1) n \<le> length F"
  shows "sqlite3OsRead st (n + 24) (walFrameOffset (Suc (length ps)) n) =
    (st, SQLITE_OK, take (n + 24) (drop (walFrameOffset (Suc (length ps)) n) F))"
proof -
  have "length (take (n + 24) (drop (walFrameOffset (Suc (length ps)) n) F)) = n + 24"
    using assms(2) by (simp add: walFrameOffset_def)
  then show ?thesis using assms(1) read_no_fault [of st] by (simp add: reading_def)
qed

lemma decode_on_chain:
  assumes r: "reading st F be n salt ps" and c: "running st be n (header_cksum be n ck salt) fs (length ps)"
    and F: "F = log_prefix be n ck salt fs @ rest" and salt: "length salt = 8" and fok: "frames_ok n fs" and n: "0 < n"
    and k: "length ps < length fs" and f: "fs ! length ps = (p, t, d)"
    and a: "a = take (n + 24) (drop (walFrameOffset (Suc (length ps)) n) F)"
  shows "walDecodeFrame (pWal st) (drop 24 a) (take 24 a) =
    (hdr_upd (\<lambda>h. h\<lparr>aFrameCksum := log_cksum be n (header_cksum be n ck salt) (take (Suc (length ps)) fs)\<rparr>) (pWal st), Some (p, t))"
proof -
  let ?hc = "header_cksum be n ck salt" and ?k = "length ps"
  let ?c = "log_cksum be n ?hc (take (Suc ?k) fs)"
  have "(p, t, d) \<in> set fs" using k f nth_mem by metis
  then have pd: "p \<noteq> 0" "length d = n" using fok by (auto simp: frames_ok_def)
  have s: "take (Suc ?k) fs = take ?k fs @ [(p, t, d)]" using k f by (simp add: take_Suc_conv_app_nth)
  have tk: "frames_ok n (take ?k fs)" using fok by (metis append_take_drop_id frames_ok_append)
  obtain B where B: "log_chain be n salt ?hc fs = log_chain be n salt ?hc (take ?k fs) @ frame_header p t salt ?c @ d @ B"
    using log_chain_nth [OF k f] by blast
  have hl: "length (frame_header p t salt ?c) = 24" by (rule length_frame_header [OF salt])
  have pre: "length (log_prefix be n ck salt (take ?k fs)) = walFrameOffset (Suc ?k) n"
    using length_log_prefix [OF salt tk, of be ck] k by simp
  have "F = log_prefix be n ck salt (take ?k fs) @ frame_header p t salt ?c @ d @ B @ rest"
    using B unfolding F log_prefix_def by simp
  then have "drop (walFrameOffset (Suc ?k) n) F = frame_header p t salt ?c @ d @ B @ rest" using pre by simp
  then have "a = frame_header p t salt ?c @ d" unfolding a using hl pd(2) by simp
  then have ad: "take 24 a = frame_header p t salt ?c" "drop 24 a = d" using hl by simp_all
  have w: "aSalt (hdr (pWal st)) = salt" "unat (szPage (pWal st)) = n" "nativeCksum (pWal st) \<longleftrightarrow> \<not> be"
    using r by (simp_all add: reading_def)
  have sz: "szPage (pWal st) \<noteq> 0" using w(2) n by auto
  have ck: "frame_cksum (nativeCksum (pWal st)) (unat (szPage (pWal st))) p t d (aFrameCksum (hdr (pWal st))) = ?c"
    using c k unfolding running_def s w(2,3) by (simp add: log_cksum_append)
  show ?thesis
    unfolding ad using decode_frame [of "pWal st" p d t ?c] w(1) salt pd(1) sz unfolding ck by simp
qed

lemma decode_at_end:
  assumes r: "reading st F be n salt ps" and c: "running st be n (header_cksum be n ck salt) fs (length ps)"
    and F: "F = log_prefix be n ck salt fs @ rest" and salt: "length salt = 8" and fok: "frames_ok n fs"
    and k: "length ps = length fs" and e: "chain_ends be n salt (log_cksum be n (header_cksum be n ck salt) fs) rest"
    and a: "a = take (n + 24) (drop (walFrameOffset (Suc (length ps)) n) F)"
    and room: "walFrameOffset (Suc (length ps) + 1) n \<le> length F"
  shows "snd (walDecodeFrame (pWal st) (drop 24 a) (take 24 a)) = None"
proof -
  have pre: "length (log_prefix be n ck salt fs) = walFrameOffset (Suc (length ps)) n"
    using length_log_prefix [OF salt fok, of be ck] k by simp
  have ar: "a = take (n + 24) rest" unfolding a F using pre by simp
  have rl: "n + 24 \<le> length rest" using room pre unfolding F by (simp add: walFrameOffset_def)
  have a24: "take 24 a = take 24 rest" "drop 24 a = take n (drop 24 rest)" unfolding ar by (simp_all add: drop_take)
  have t8: "take 8 (drop 8 (take 24 a)) = take 8 (drop 8 rest)" "take 8 (take 24 a) = take 8 rest"
    "take n (drop 24 a) = take n (drop 24 rest)"
    unfolding a24 by (simp_all add: drop_take)
  have g: "sqlite3Get4byte (drop i (take 24 a)) = sqlite3Get4byte (drop i rest)" if "i + 4 \<le> 24" for i
  proof -
    have "byte_at (drop i (take 24 a)) j = byte_at (drop i rest) j" if "j < 4" for j
      using rl \<open>i + 4 \<le> 24\<close> that unfolding a24 by (simp add: byte_at_def)
    then show ?thesis by (simp add: sqlite3Get4byte_def)
  qed
  have w: "aSalt (hdr (pWal st)) = salt" "unat (szPage (pWal st)) = n" "nativeCksum (pWal st) \<longleftrightarrow> \<not> be"
    "aFrameCksum (hdr (pWal st)) = log_cksum be n (header_cksum be n ck salt) fs"
    using r c k by (simp_all add: reading_def running_def)
  have g0: "sqlite3Get4byte (take 24 a) = sqlite3Get4byte rest" "sqlite3Get4byte (drop 16 (take 24 a)) = sqlite3Get4byte (drop 16 rest)"
    "sqlite3Get4byte (drop 20 (take 24 a)) = sqlite3Get4byte (drop 20 rest)"
    using g [of 0] g [of 16] g [of 20] by simp_all
  show ?thesis
    unfolding walDecodeFrame_def w t8 g0 Let_def
    using e rl unfolding chain_ends_def by (auto simp: prod_eq_iff w(3)) (metis option.sel)+
qed


text \<open>The inner loop.\<close>

lemma recover_frames_ok:
  assumes F: "F = log_prefix be n ck salt fs @ rest" and salt: "length salt = 8" and fok: "frames_ok n fs" and n: "0 < n"
    and hc: "hc = header_cksum be n ck salt"
  shows "reading st F be n salt ps \<Longrightarrow> tracked st cks be n hc salt rest fs ps \<Longrightarrow> running st be n hc fs (length ps) \<Longrightarrow>
    walFrameOffset (length ps + j + 1) n \<le> length F \<Longrightarrow>
    recover_frames st n (Suc (length ps)) j cks = (st', rc, i', cks') \<Longrightarrow>
    \<exists>ps'. rc = SQLITE_OK \<and> reading st' F be n salt ps' \<and> tracked st' cks' be n hc salt rest fs ps' \<and>
      i' = Suc (length ps') \<and> length ps \<le> length ps' \<and> length ps' \<le> length ps + j \<and>
      (length ps' = length ps + j \<longrightarrow> running st' be n hc fs (length ps')) \<and>
      (length ps' < length ps + j \<longrightarrow> length fs \<le> length ps')"
proof (induction j arbitrary: st ps cks)
  case 0
  then show ?case by (intro exI [of _ ps]) simp
next
  case (Suc j)
  let ?k = "length ps"
  define a where "a = take (n + 24) (drop (walFrameOffset (Suc ?k) n) F)"
  have room: "walFrameOffset (Suc ?k + 1) n \<le> length F"
    using Suc.prems(4) walFrameOffset_mono [of "Suc ?k + 1" "?k + Suc j + 1" n] by simp
  have rd: "sqlite3OsRead st (n + 24) (walFrameOffset (Suc ?k) n) = (st, SQLITE_OK, a)"
    unfolding a_def by (rule read_frame [OF Suc.prems(1) room])
  obtain w v where dec: "walDecodeFrame (pWal st) (drop 24 a) (take 24 a) = (w, v)" by fastforce
  have cw: "cksum_only (pWal st) w" by (rule decode_wal [OF dec])
  note r1 = cksum_only_reading [OF cw Suc.prems(1)]
  have tr1: "tracked (st\<lparr>pWal := w\<rparr>) cks be n hc salt rest fs ps"
    using Suc.prems(2) r1(2,3) by (simp add: tracked_def on_chain_def past_chain_def)
  have on: "w = hdr_upd (\<lambda>h. h\<lparr>aFrameCksum := log_cksum be n hc (take (Suc ?k) fs)\<rparr>) (pWal st) \<and> v = Some (p, t)"
    if "?k < length fs" "fs ! ?k = (p, t, d)" for p t d
    using decode_on_chain [OF Suc.prems(1) _ F salt fok n that a_def] Suc.prems(3) dec unfolding hc by simp
  show ?case
  proof (cases v)
    case None
    have "st' = st\<lparr>pWal := w\<rparr>" "rc = SQLITE_OK" "i' = Suc ?k" "cks' = cks"
      using Suc.prems(5) rd dec None by (auto simp: Let_def)
    moreover have "\<not> length ps < length fs" using on None by (metis option.distinct(1) surj_pair)
    ultimately show ?thesis using r1(1) tr1 by (intro exI [of _ ps]) simp
  next
    case (Some x)
    obtain p t where x: "x = (p, t)" by (cases x)
    have p0: "p \<noteq> 0" by (rule decode_pgno [OF dec [unfolded Some x]])
    obtain wi where wi: "walIndexAppend (shm (st\<lparr>pWal := w\<rparr>)) (mxFrame (hdr (pWal (st\<lparr>pWal := w\<rparr>)))) (Suc ?k) p = (wi, SQLITE_OK)"
      "reading (st\<lparr>pWal := w, shm := wi\<rparr>) F be n salt (ps @ [p])"
      by (rule reading_append [OF r1(1) p0])
    define st1 where "st1 = st\<lparr>pWal := w, shm := wi\<rparr>"
    define sz where "sz = (of_nat n :: u32)"
    define st2 where "st2 = (if t \<noteq> 0 then st1\<lparr>pWal := hdr_upd (\<lambda>h. h\<lparr>mxFrame := Suc ?k, nPage := t,
        hszPage := ucast ((sz AND 0xff00) OR drop_bit 16 sz)\<rparr>) (pWal st1)\<rparr> else st1)"
    define cks2 where "cks2 = (if t \<noteq> 0 then aFrameCksum (hdr (pWal st2)) else cks)"
    have rec: "recover_frames st2 n (Suc (length (ps @ [p]))) j cks2 = (st', rc, i', cks')"
      using Suc.prems(5) rd dec Some x wi(1) unfolding st2_def cks2_def st1_def sz_def
      by (auto simp: Let_def split: if_splits)
    have r2: "reading st2 F be n salt (ps @ [p])"
    proof (cases "t = 0")
      case True
      then show ?thesis using wi(2) by (simp add: st2_def st1_def)
    next
      case False
      have "index_ok wi (mxFrame (hdr w)) (ps @ [p])" using wi(2) by (simp add: reading_def)
      from index_commit [OF this] have "index_ok wi (Suc ?k) (ps @ [p])" by simp
      with False show ?thesis using wi(2) by (simp add: st2_def st1_def reading_def page_code_def sz_def Let_def)
    qed
    have mx: "mxFrame (hdr (pWal st2)) = (if t \<noteq> 0 then Suc ?k else mxFrame (hdr (pWal st)))"
      "nPage (hdr (pWal st2)) = (if t \<noteq> 0 then t else nPage (hdr (pWal st)))" "aFrameCksum (hdr (pWal st2)) = aFrameCksum (hdr w)"
      using r1(2,3) by (simp_all add: st2_def st1_def)
    have new: "tracked st2 cks2 be n hc salt rest fs (ps @ [p]) \<and> running st2 be n hc fs (length (ps @ [p]))"
    proof (cases "?k < length fs")
      case True
      obtain d where fk: "fs ! ?k = (p, t, d)"
      proof -
        obtain p' t' d where f: "fs ! ?k = (p', t', d)" by (metis surj_pair)
        with on [OF True f] Some x that show thesis by simp
      qed
      have wk: "aFrameCksum (hdr w) = log_cksum be n hc (take (Suc ?k) fs)" using on [OF True fk] by simp
      have oc: "on_chain st cks be n hc fs ps" using Suc.prems(2) True by (auto simp: tracked_def past_chain_def)
      have s: "take (Suc ?k) fs = take ?k fs @ [(p, t, d)]" using True fk by (simp add: take_Suc_conv_app_nth)
      have lc: "last_commit fs (Suc ?k) = (if t \<noteq> 0 then Suc ?k else last_commit fs ?k)" using fk by (simp add: last_commit_Suc)
      have "on_chain st2 cks2 be n hc fs (ps @ [p])"
        using oc True mx fk unfolding on_chain_def by (simp add: s lc cks2_def wk)
      then show ?thesis using wk mx(3) by (simp add: tracked_def running_def)
    next
      case False
      have "length fs < length (ps @ [p])" using False by simp
      have past: "take (length fs) (ps @ [p]) = map fst fs \<and> last_commit fs (length fs) \<le> mxFrame (hdr (pWal st2)) \<and>
          \<not> chain_ends be n salt (log_cksum be n hc fs) rest"
      proof (cases "length ps = length fs")
        case True
        have oc: "on_chain st cks be n hc fs ps" using Suc.prems(2) True by (auto simp: tracked_def past_chain_def)
        have "\<not> chain_ends be n salt (log_cksum be n hc fs) rest"
          using decode_at_end [OF Suc.prems(1) _ F salt fok True _ a_def room] Suc.prems(3) dec Some unfolding hc by auto
        moreover have "last_commit fs (length fs) \<le> length fs" by (rule last_commit_le)
        ultimately show ?thesis using oc True mx(1) by (auto simp: on_chain_def)
      next
        case False
        then have "past_chain st fs ps \<and> \<not> chain_ends be n salt (log_cksum be n hc fs) rest"
          using Suc.prems(2) \<open>\<not> ?k < length fs\<close> by (auto simp: tracked_def on_chain_def)
        moreover have "last_commit fs (length fs) \<le> length fs" by (rule last_commit_le)
        ultimately show ?thesis using mx(1) by (auto simp: past_chain_def)
      qed
      then show ?thesis using False by (simp add: tracked_def past_chain_def running_def)
    qed
    have room2: "walFrameOffset (length (ps @ [p]) + j + 1) n \<le> length F" using Suc.prems(4) by simp
    obtain ps' where "rc = SQLITE_OK" "reading st' F be n salt ps'" "tracked st' cks' be n hc salt rest fs ps'"
      "i' = Suc (length ps')" "length (ps @ [p]) \<le> length ps'" "length ps' \<le> length (ps @ [p]) + j"
      "length ps' = length (ps @ [p]) + j \<longrightarrow> running st' be n hc fs (length ps')"
      "length ps' < length (ps @ [p]) + j \<longrightarrow> length fs \<le> length ps'"
      using Suc.IH [OF r2 new [THEN conjunct1] new [THEN conjunct2] room2 rec] by blast
    then show ?thesis by (intro exI [of _ ps']) simp
  qed
qed


section \<open>All tables\<close>

lemma first_frame: "1 + (if iPg = 0 then 0 else 4062 + (iPg - 1) * 4096) = Suc (iZero iPg)" "4062 + iPg * 4096 = iZero iPg + cap iPg"
  by (simp_all add: iZero_def cap_def split: nat.split) (cases iPg; simp)+

lemma recover_pages_ok:
  assumes F: "F = log_prefix be n ck salt fs @ rest" and salt: "length salt = 8" and fok: "frames_ok n fs" and n: "0 < n"
    and hc: "hc = header_cksum be n ck salt" and last: "length fs \<le> iLastFrame" "walFrameOffset (iLastFrame + 1) n \<le> length F"
  shows "reading st F be n salt ps \<Longrightarrow> tracked st cks be n hc salt rest fs ps \<Longrightarrow> running st be n hc fs (length ps) \<Longrightarrow>
    length ps = min iLastFrame (iZero iPg) \<Longrightarrow> iPg + j = walFramePage iLastFrame + 1 \<Longrightarrow>
    length (aPgno buf) = 4096 \<Longrightarrow> length (aHash buf) = 8192 \<Longrightarrow>
    recover_pages st n iLastFrame buf iPg j cks = (st', rc, cks') \<Longrightarrow>
    \<exists>ps'. rc = SQLITE_OK \<and> reading st' F be n salt ps' \<and> tracked st' cks' be n hc salt rest fs ps' \<and> length fs \<le> length ps'"
proof (induction j arbitrary: st ps cks iPg buf)
  case 0
  have "iLastFrame \<le> iZero iPg"
  proof (cases "iLastFrame = 0")
    case False
    then have "iLastFrame \<le> iZero (walFramePage iLastFrame) + cap (walFramePage iLastFrame)"
      using walFramePage_range [of iLastFrame] by simp
    then show ?thesis using 0(5) iZero_Suc [of "walFramePage iLastFrame"] by simp
  qed simp
  then have "length fs \<le> length ps" using 0(4) last(1) by simp
  then show ?case using 0 by (intro exI [of _ ps]) simp
next
  case (Suc j)
  define iLast where "iLast = min iLastFrame (iZero iPg + cap iPg)"
  have z: "iZero iPg \<le> iLastFrame"
  proof (cases "iPg = 0")
    case True
    then show ?thesis by (simp add: iZero_def)
  next
    case False
    have le: "iPg \<le> walFramePage iLastFrame" using Suc.prems(5) by simp
    then have "iLastFrame \<noteq> 0" using False by (cases "iLastFrame = 0") (auto simp: walFramePage_def)
    then have "iZero (walFramePage iLastFrame) < iLastFrame" using walFramePage_range [of iLastFrame] by simp
    then show ?thesis using le iZero_mono [of iPg "walFramePage iLastFrame"] by (cases "iPg = walFramePage iLastFrame") auto
  qed
  then have len: "length ps = iZero iPg" using Suc.prems(4) by simp
  obtain pg0 where pg0: "shm st iPg = Inr pg0"
    using Suc.prems(1) by (cases "shm st iPg") (auto simp: reading_def dest: spec [of _ iPg])
  let ?view = "page_view iPg buf"
  have shape_view: "length (aPgno ?view) = cap iPg" "length (aHash ?view) = 8192"
    using Suc.prems(6,7) by (simp_all add: page_view_def cap_def)
  define st1 where "st1 = st\<lparr>shm := (shm st)(iPg := Inr ?view)\<rparr>"
  have ix: "index_ok ((shm st)(iPg := Inr ?view)) m ps" if "index_ok (shm st) m ps" for m
    using that shape_view len unfolding index_ok_def shape_def by auto
  have r1: "reading st1 F be n salt ps" using Suc.prems(1) ix by (simp add: reading_def st1_def)
  have t1: "tracked st1 cks be n hc salt rest fs ps" "running st1 be n hc fs (length ps)"
    using Suc.prems(2,3) by (simp_all add: tracked_def on_chain_def past_chain_def running_def st1_def)
  obtain st2 rc2 i2 cks2 where fr: "recover_frames st1 n (Suc (length ps)) (iLast - iZero iPg) cks = (st2, rc2, i2, cks2)"
    by (metis surj_pair)
  have e: "length ps + (iLast - iZero iPg) = iLast" using len z by (simp add: iLast_def)
  have room: "walFrameOffset (length ps + (iLast - iZero iPg) + 1) n \<le> length F"
    unfolding e using last(2) walFrameOffset_mono [of "iLast + 1" "iLastFrame + 1" n] by (simp add: iLast_def)
  obtain ps2 where p2: "rc2 = SQLITE_OK" "reading st2 F be n salt ps2" "tracked st2 cks2 be n hc salt rest fs ps2"
    "i2 = Suc (length ps2)" "length ps2 \<le> iLast" "length ps2 = iLast \<longrightarrow> running st2 be n hc fs (length ps2)"
    "length ps2 < iLast \<longrightarrow> length fs \<le> length ps2"
    using recover_frames_ok [OF F salt fok n hc r1 t1 room fr] unfolding e by blast
  have cnt: "iLast + 1 - Suc (iZero iPg) = iLast - iZero iPg" by simp
  define buf2 where "buf2 = (case shm st2 iPg of Inr pg \<Rightarrow> page_back iPg buf pg | Inl _ \<Rightarrow> buf)"
  have eq: "recover_pages st n iLastFrame buf iPg (Suc j) cks =
      (if i2 \<le> iLast then (st2, rc2, cks2) else recover_pages st2 n iLastFrame buf2 (iPg + 1) j cks2)"
    unfolding recover_pages.simps(2) Let_def first_frame(1)
    unfolding first_frame(2) pg0 sum.case iLast_def [symmetric]
      st1_def [symmetric] cnt fr [unfolded len] prod.case buf2_def by (rule refl)
  show ?case
  proof (cases "i2 \<le> iLast")
    case True
    then have "st' = st2" "rc = rc2" "cks' = cks2" using Suc.prems(8) unfolding eq by auto
    then show ?thesis using p2 True by (intro exI [of _ ps2]) simp
  next
    case False
    then have full: "length ps2 = iLast" using p2(4,5) by simp
    have rec: "recover_pages st2 n iLastFrame buf2 (iPg + 1) j cks2 = (st', rc, cks')"
      using Suc.prems(8) False unfolding eq by simp
    obtain pg2 where pg2: "shm st2 iPg = Inr pg2"
      using p2(2) by (cases "shm st2 iPg") (auto simp: reading_def dest: spec [of _ iPg])
    have "length (aPgno pg2) = cap iPg" "length (aHash pg2) = 8192"
      using p2(2) pg2 unfolding reading_def index_ok_def shape_def by blast+
    then have b: "length (aPgno buf2) = 4096" "length (aHash buf2) = 8192"
      using Suc.prems(6) by (simp_all add: buf2_def pg2 page_back_def cap_def split: if_splits)
    have l2: "length ps2 = min iLastFrame (iZero (iPg + 1))" using full by (simp add: iLast_def iZero_Suc)
    have r2: "running st2 be n hc fs (length ps2)" using p2(6) full by simp
    have j2: "iPg + 1 + j = walFramePage iLastFrame + 1" using Suc.prems(5) by simp
    show ?thesis by (rule Suc.IH [OF p2(2,3) r2 l2 j2 b rec])
  qed
qed


section \<open>Recovery\<close>

definition page_size_ok :: "nat \<Rightarrow> bool" where
  "page_size_ok n \<longleftrightarrow> 512 \<le> n \<and> n \<le> 65536 \<and> (of_nat n :: u32) AND (of_nat n - 1) = 0"

lemma get4_at: "length a = i \<Longrightarrow> sqlite3Get4byte (drop i (a @ sqlite3Put4byte v @ b)) = Some v"
  by (simp add: get4_put4)

lemma header_fields:
  assumes "length salt = 8"
  shows "sqlite3Get4byte (log_header be n ck salt) = Some (if be then WAL_MAGIC + 1 else WAL_MAGIC)"
    "sqlite3Get4byte (drop 4 (log_header be n ck salt)) = Some WAL_MAX_VERSION"
    "sqlite3Get4byte (drop 8 (log_header be n ck salt)) = Some (of_nat n)"
    "sqlite3Get4byte (drop 12 (log_header be n ck salt)) = Some ck"
    "take 8 (drop 16 (log_header be n ck salt)) = salt"
    "take 24 (log_header be n ck salt) = header_start be n ck salt"
    "sqlite3Get4byte (drop 24 (log_header be n ck salt)) = Some (fst (header_cksum be n ck salt))"
    "sqlite3Get4byte (drop 28 (log_header be n ck salt)) = Some (snd (header_cksum be n ck salt))"
  using assms by (simp_all add: log_header_def header_start_def get4_put4 get4_put4_end)

lemma reset_marks_ok:
  "faults st = [] \<Longrightarrow> \<exists>i. reset_marks st is SQLITE_OK = (st\<lparr>pInfo := i\<rparr>, SQLITE_OK) \<and> nBackfill i = nBackfill (pInfo st)"
proof (induction "is" arbitrary: st)
  case Nil
  have "st = st\<lparr>pInfo := pInfo st\<rparr>" by simp
  then show ?case by (intro exI [of _ "pInfo st"]) simp
next
  case (Cons i "is")
  have nf: "next_fault st = ((SQLITE_OK, 0), st)" using Cons.prems by (simp add: next_fault_def)
  let ?st = "st\<lparr>pInfo := pInfo st\<lparr>aReadMark := (aReadMark (pInfo st))[i := if i = 1 \<and> mxFrame (hdr (pWal st)) \<noteq> 0
      then mxFrame (hdr (pWal st)) else READMARK_NOT_USED]\<rparr>\<rparr>"
  have "faults ?st = []" using Cons.prems by simp
  from Cons.IH [OF this] obtain j where "reset_marks ?st is SQLITE_OK = (?st\<lparr>pInfo := j\<rparr>, SQLITE_OK)"
    "nBackfill j = nBackfill (pInfo st)" by auto
  then show ?case using nf by (intro exI [of _ j]) (simp add: Let_def)
qed

lemma recover_log_ok:
  assumes F: "F = log_prefix be n ck salt fs @ rest" and salt: "length salt = 8" and fok: "frames_ok n fs"
    and n: "page_size_ok n" and st: "faults st = []" "pWalFd st = F" "\<forall>h. \<not> isl (shm st h)" "shape (shm st)"
    "mxFrame (hdr (pWal st)) = 0" "iReCksum (pWal st) = 0"
    and buf: "length (aPgno buf) = 4096" "length (aHash buf) = 8192"
    and call: "recover_log st (length F) buf = (st', rc, cks')"
  shows "\<exists>ps'. rc = SQLITE_OK \<and> reading st' F be n salt ps' \<and>
    tracked st' cks' be n (header_cksum be n ck salt) salt rest fs ps' \<and> length fs \<le> length ps'"
proof -
  let ?H = "log_header be n ck salt" and ?sz = "of_nat n :: u32" and ?hc = "header_cksum be n ck salt"
  have n': "512 \<le> n" "n \<le> 65536" "?sz AND (?sz - 1) = 0" using n by (simp_all add: page_size_ok_def)
  have un: "unat ?sz = n" using n'(2) by (simp add: unsigned_of_nat take_bit_nat_eq_self)
  have sz: "\<not> ?sz > 65536" "\<not> ?sz < 512" using n'(1,2) un by (simp_all add: word_less_nat_alt)
  have FH: "F = ?H @ (log_chain be n salt ?hc fs @ rest)" unfolding F log_prefix_def by simp
  have t32: "take 32 F = ?H" unfolding FH using length_log_header [OF salt, of be n ck] by simp
  have rd: "sqlite3OsRead st 32 0 = (st, SQLITE_OK, ?H)"
    using read_no_fault [OF st(1), of 32 0] st(2) t32 length_log_header [OF salt, of be n ck] by simp
  have mg: "(if be then WAL_MAGIC + 1 else WAL_MAGIC) AND 0xFFFFFFFE = WAL_MAGIC"
    "(ucast ((if be then WAL_MAGIC + 1 else WAL_MAGIC) AND 1) :: u8) = (if be then 1 else 0)"
    by (cases be; simp)+
  define w where "w = hdr_upd (\<lambda>h. h\<lparr>bigEndCksum := if be then 1 else 0, aSalt := salt, aFrameCksum := ?hc\<rparr>)
    (pWal st\<lparr>szPage := ?sz, nCkpt := ck\<rparr>)"
  define st1 where "st1 = st\<lparr>pWal := w\<rparr>"
  have nf: "next_fault st1 = ((SQLITE_OK, 0), st1)" using st(1) by (simp add: next_fault_def st1_def)
  have cks: "walChecksumBytes ((if be then 1 else 0 :: u8) = 0) (header_start be n ck salt) (0, 0) = ?hc"
    by (simp add: header_cksum_def)
  define iL where "iL = (length F - 32) div (n + 24)"
  have eq: "recover_log st (length F) buf = recover_pages st1 n iL buf 0 (walFramePage iL + 1) (0, 0)"
    unfolding recover_log_def rd Let_def prod.case header_fields [OF salt] option.sel mg
    using sz n'(3) cks nf un by (simp add: w_def st1_def iL_def)
  have lF: "length F = 32 + (length fs * (n + 24) + length rest)"
    unfolding FH using length_log_header [OF salt, of be n ck] length_log_chain [OF salt fok, of be ?hc] by simp
  have l1: "length fs \<le> iL"
  proof -
    have "length fs * (n + 24) div (n + 24) \<le> iL" unfolding iL_def lF by (rule div_le_mono) simp
    then show ?thesis by simp
  qed
  have l2: "walFrameOffset (iL + 1) n \<le> length F"
    using lF times_div_less_eq_dividend [of "n + 24" "length F - 32"]
    unfolding walFrameOffset_def iL_def by (simp add: mult.commute)
  have n0: "0 < n" using n'(1) by simp
  have r0: "reading st1 F be n salt []"
    using st un by (simp add: reading_def st1_def w_def index_ok_def)
  have t0: "tracked st1 (0, 0) be n ?hc salt rest fs []" "running st1 be n ?hc fs (length [])"
    using st by (simp_all add: tracked_def on_chain_def running_def st1_def w_def last_commit_def)
  have m0: "length [] = min iL (iZero 0)" "0 + (walFramePage iL + 1) = walFramePage iL + 1" by (simp_all add: iZero_def)
  show ?thesis
    by (rule recover_pages_ok [OF F salt fok n0 refl l1 l2 r0 t0 m0 buf call [unfolded eq]])
qed

lemma log_longer:
  "f = log_prefix be n ck salt fs @ rest \<Longrightarrow> length salt = 8 \<Longrightarrow> frames_ok n fs \<Longrightarrow> fs \<noteq> [] \<Longrightarrow> 32 < length f"
  by (simp add: log_prefix_def length_log_header length_log_chain)

text \<open>Recovery does not sync the log.\<close>

lemma next_fault_synced: "next_fault st = (x, st') \<Longrightarrow> pSynced st' = pSynced st"
  using next_fault_simps(6) [of st] by simp

lemma read_synced: "sqlite3OsRead st n off = (st', rc, d) \<Longrightarrow> pSynced st' = pSynced st"
  by (auto simp: sqlite3OsRead_def Let_def split: prod.splits dest: next_fault_synced)

lemma recover_frames_synced: "recover_frames st szPg i n cks = (st', rc, i', cks') \<Longrightarrow> pSynced st' = pSynced st"
  by (induction n arbitrary: st i cks)
    (auto simp: Let_def split: prod.splits if_splits option.splits dest!: read_synced)

lemma recover_pages_synced: "recover_pages st szPg il buf p n cks = (st', rc, cks') \<Longrightarrow> pSynced st' = pSynced st"
  by (induction n arbitrary: st buf p cks)
    (auto simp: Let_def split: prod.splits if_splits sum.splits dest!: recover_frames_synced)

lemma recover_log_synced: "recover_log st k buf = (st', rc, cks) \<Longrightarrow> pSynced st' = pSynced st"
  by (auto simp: recover_log_def Let_def simp del: recover_pages.simps split: prod.splits if_splits dest!: read_synced next_fault_synced recover_pages_synced)

lemma walIndexRecover_ok:
  assumes F: "pWalFd st = log_prefix be n ck salt fs @ rest" and salt: "length salt = 8" and fok: "frames_ok n fs" "32 < length (pWalFd st)"
    and n: "page_size_ok n" and st: "faults st = []" "\<forall>h. \<not> isl (shm st h)" "shape (shm st)" "iReCksum (pWal st) = 0"
    and buf: "length (aPgno buf) = 4096" "length (aHash buf) = 8192"
  shows "\<exists>st'. walIndexRecover st buf = (st', SQLITE_OK) \<and> live st' = hdr (pWal st') \<and> pWalFd st' = pWalFd st \<and>
    pSynced st' = pSynced st \<and> nBackfill (pInfo st') = 0 \<and>
    (mxFrame (hdr (pWal st')) \<noteq> 0 \<longrightarrow> hszPage (hdr (pWal st')) = page_code n) \<and>
    (\<exists>qs. index_ok (shm st') (mxFrame (hdr (pWal st'))) qs \<and> length qs = mxFrame (hdr (pWal st')) \<and>
      last_commit fs (length fs) \<le> length qs \<and>
      take (last_commit fs (length fs)) qs = map fst (take (last_commit fs (length fs)) fs)) \<and>
    (chain_ends be n salt (log_cksum be n (header_cksum be n ck salt) fs) rest \<longrightarrow>
      log_ok st' be n ck (take (last_commit fs (length fs)) fs) \<and>
      nPage (hdr (pWal st')) = (if last_commit fs (length fs) = 0 then nPage (hdr (pWal st')) else fst (snd (fs ! (last_commit fs (length fs) - 1)))))"
proof -
  let ?hc = "header_cksum be n ck salt" and ?lc = "last_commit fs (length fs)"
  define st1 where "st1 = st\<lparr>pWal := pWal st\<lparr>hdr := \<lparr>iChange = 0, bigEndCksum = 0, hszPage = 0, mxFrame = 0, nPage = 0,
     aFrameCksum = (0, 0), aSalt = replicate 8 0\<rparr>\<rparr>\<rparr>"
  have nf: "next_fault s = ((SQLITE_OK, 0), s)" if "faults s = []" for s using that by (simp add: next_fault_def)
  obtain st2 rc2 cks where rl: "recover_log st1 (length (pWalFd st1)) buf = (st2, rc2, cks)" using prod_cases3 by blast
  have s1: "faults st1 = []" "\<forall>h. \<not> isl (shm st1 h)" "shape (shm st1)" "mxFrame (hdr (pWal st1)) = 0" "iReCksum (pWal st1) = 0"
    "pWalFd st1 = pWalFd st"
    using st by (simp_all add: st1_def)
  obtain ps where ps: "rc2 = SQLITE_OK" "reading st2 (pWalFd st) be n salt ps" "tracked st2 cks be n ?hc salt rest fs ps" "length fs \<le> length ps"
    using recover_log_ok [OF F salt fok(1) n s1(1,6,2,3,4,5) buf] rl s1(6) by auto
  define st3 where "st3 = (walIndexWriteHdr (st2\<lparr>pWal := hdr_upd (\<lambda>h. h\<lparr>aFrameCksum := cks\<rparr>) (pWal st2)\<rparr>))
      \<lparr>pInfo := \<lparr>nBackfill = 0, aReadMark = (aReadMark (pInfo st2))[0 := 0], nBackfillAttempted = mxFrame (hdr (pWal st2))\<rparr>\<rparr>"
  have f3: "faults st3 = []" using ps(2) by (simp add: st3_def walIndexWriteHdr_def reading_def)
  obtain i where rm: "reset_marks st3 [1..<5] SQLITE_OK = (st3\<lparr>pInfo := i\<rparr>, SQLITE_OK)" and bf: "nBackfill i = 0"
    using reset_marks_ok [OF f3, of "[1..<5]"] by (auto simp: st3_def walIndexWriteHdr_def)
  define st4 where "st4 = st3\<lparr>pInfo := i\<rparr>"
  have fin: "recover_finish st2 cks = (st4, SQLITE_OK)"
    using rm unfolding recover_finish_def Let_def st4_def by (simp add: st3_def walIndexWriteHdr_def)
  have eq: "walIndexRecover st buf = (st4, SQLITE_OK)"
    unfolding walIndexRecover_def Let_def nf [OF st(1)] prod.case
    using nf [OF s1(1)] fok(2) rl s1(6) ps(1) fin unfolding st1_def [symmetric] by simp
  have s4: "live st4 = hdr (pWal st4)" "pWalFd st4 = pWalFd st" "shm st4 = shm st2" "mxFrame (hdr (pWal st4)) = mxFrame (hdr (pWal st2))"
    "nPage (hdr (pWal st4)) = nPage (hdr (pWal st2))" "aFrameCksum (hdr (pWal st4)) = cks" "aSalt (hdr (pWal st4)) = salt"
    "iReCksum (pWal st4) = 0" "unat (szPage (pWal st4)) = n" "nativeCksum (pWal st4) \<longleftrightarrow> \<not> be"
    using ps(2) by (simp_all add: st4_def st3_def walIndexWriteHdr_def reading_def)
  have ix: "index_ok (shm st2) (mxFrame (hdr (pWal st2))) ps" using ps(2) by (simp add: reading_def)
  have ml: "mxFrame (hdr (pWal st2)) \<le> length ps" using ix by (simp add: index_ok_def)
  let ?m = "mxFrame (hdr (pWal st2))"
  have pre: "?lc \<le> ?m \<and> take (length fs) ps = map fst fs"
    using ps(3,4) by (auto simp: tracked_def on_chain_def past_chain_def)
  have lcl: "?lc \<le> length fs" by (rule last_commit_le)
  have q: "index_ok (shm st4) (mxFrame (hdr (pWal st4))) (take ?m ps)" "length (take ?m ps) = mxFrame (hdr (pWal st4))"
    using index_prefix [OF ix ml] ml s4 by simp_all
  have tk: "take ?lc (take ?m ps) = map fst (take ?lc fs)"
  proof -
    have "take ?lc (take ?m ps) = take ?lc ps" using pre by (simp add: min_absorb1)
    also have "\<dots> = take ?lc (take (length fs) ps)" using lcl by (simp add: min_absorb1)
    also have "\<dots> = map fst (take ?lc fs)" using pre by (simp add: take_map)
    finally show ?thesis .
  qed
  have ends: "log_ok st4 be n ck (take ?lc fs) \<and> (0 < ?lc \<longrightarrow> nPage (hdr (pWal st4)) = fst (snd (fs ! (?lc - 1))))"
    if "chain_ends be n salt (log_cksum be n ?hc fs) rest"
  proof -
    have oc: "on_chain st2 cks be n ?hc fs ps" "length ps = length fs"
      using ps(3,4) that by (auto simp: tracked_def past_chain_def on_chain_def)
    have m: "?m = ?lc" using oc by (simp add: on_chain_def)
    have pg: "take ?m ps = map fst (take ?lc fs)" using tk m by (simp add: min_absorb1)
    have fk: "frames_ok n (take ?lc fs)" using fok(1) by (metis append_take_drop_id frames_ok_append)
    have "log_ok st4 be n ck (take ?lc fs)"
      unfolding log_ok_def
    proof (intro conjI impI)
      show "iReCksum (pWal st4) = 0" "length (aSalt (hdr (pWal st4))) = 8" using s4 salt by simp_all
      show "mxFrame (hdr (pWal st4)) = length (take ?lc fs)" using s4 m lcl by simp
      show "frames_ok n (take ?lc fs)" by (rule fk)
      show "index_ok (shm st4) (length (take ?lc fs)) (map fst (take ?lc fs))"
        using q(1) pg m lcl s4(4) by simp
      assume "take ?lc fs \<noteq> []"
      then have "0 < ?lc" by (cases "?lc") auto
      then have "cks = log_cksum be n ?hc (take ?lc fs)" using oc by (simp add: on_chain_def)
      then show "writer st4 be n (aSalt (hdr (pWal st4))) (log_cksum be n (header_cksum be n ck (aSalt (hdr (pWal st4)))) (take ?lc fs))"
        using s4 salt by (simp add: writer_def)
      have "log_prefix be n ck salt fs = log_prefix be n ck salt (take ?lc fs @ drop ?lc fs)" by simp
      then show "\<exists>r. pWalFd st4 = log_prefix be n ck (aSalt (hdr (pWal st4))) (take ?lc fs) @ r"
        unfolding log_prefix_append s4(2,7) F by auto
    qed
    then show ?thesis using oc s4(5) by (simp add: on_chain_def)
  qed
  have sy: "pSynced st4 = pSynced st"
    using recover_log_synced [OF rl] by (simp add: st4_def st3_def walIndexWriteHdr_def st1_def)
  have sz: "nBackfill (pInfo st4) = 0" "?m \<noteq> 0 \<longrightarrow> hszPage (hdr (pWal st4)) = page_code n"
    using bf ps(2) by (simp_all add: st4_def st3_def walIndexWriteHdr_def reading_def)
  show ?thesis
    using eq s4(1,2,4) q tk pre ml ends sy sz by (intro exI [of _ st4]) auto
qed


section \<open>Properties\<close>

text \<open>A process that opens the log after a crash: nothing read yet, tables of any contents.\<close>

definition restarted :: "log_state \<Rightarrow> wi_page \<Rightarrow> bool" where
  "restarted st aPrivate \<longleftrightarrow> faults st = [] \<and> (\<forall>h. \<not> isl (shm st h)) \<and> shape (shm st) \<and> iReCksum (pWal st) = 0 \<and>
     length (aPgno aPrivate) = 4096 \<and> length (aHash aPrivate) = 8192"

text \<open>
  C2. From a log of valid frames followed by anything that does not continue their checksums (a
  torn frame, frames of an older log, the end of the file), recovery restores exactly the frames up
  to the last commit: the file, the wal-index and the running checksum are again those of a writer
  that has committed them, and the size of the database is the one in the last commit frame.
\<close>

theorem wal_recover_exact:
  assumes "pWalFd st = log_prefix be n ck salt fs @ rest" "length salt = 8" "frames_ok n fs" "fs \<noteq> []" "page_size_ok n"
    and "chain_ends be n salt (log_cksum be n (header_cksum be n ck salt) fs) rest" "restarted st aPrivate"
    and "m = last_commit fs (length fs)"
  shows "\<exists>st'. walIndexRecover st aPrivate = (st', SQLITE_OK) \<and> log_ok st' be n ck (take m fs) \<and>
    mxFrame (hdr (pWal st')) = m \<and> live st' = hdr (pWal st') \<and>
    (0 < m \<longrightarrow> nPage (hdr (pWal st')) = fst (snd (fs ! (m - 1))) \<and> nPage (hdr (pWal st')) \<noteq> 0)"
proof -
  obtain st' where s: "walIndexRecover st aPrivate = (st', SQLITE_OK)" "live st' = hdr (pWal st')" "log_ok st' be n ck (take m fs)"
    "nPage (hdr (pWal st')) = (if m = 0 then nPage (hdr (pWal st')) else fst (snd (fs ! (m - 1))))"
    using walIndexRecover_ok [OF assms(1-3) log_longer [OF assms(1-4)] assms(5)] assms(6,7) unfolding restarted_def assms(8) by blast
  have "0 < m \<Longrightarrow> fst (snd (fs ! (m - 1))) \<noteq> 0"
    unfolding assms(8) last_commit_def by (rule newest_cases [of "is_commit fs" "length fs"]) auto
  moreover have "m \<le> length fs" unfolding assms(8) by (rule last_commit_le)
  ultimately show ?thesis using s by (intro exI [of _ st']) (simp add: log_ok_def split: if_splits)
qed

text \<open>A fresh buffer, and an empty log, for the witnesses.\<close>

definition fresh_page :: wi_page where
  "fresh_page = \<lparr>aPgno = replicate 4096 9, aHash = replicate 8192 17\<rparr>"

lemma stale_shape: "shape stale_index" "\<not> isl (stale_index h)"
  by (auto simp: shape_def stale_index_def)

lemma restarted_small: "restarted (small_log\<lparr>pWalFd := f\<rparr>) fresh_page"
  by (simp add: restarted_def small_log_def stale_shape fresh_page_def)

lemma page_size_512: "page_size_ok 512"
  by (simp add: page_size_ok_def)

theorem wal_recover_exact_witness:
  "\<exists>f st'. walIndexRecover (small_log\<lparr>pWalFd := f\<rparr>) fresh_page = (st', SQLITE_OK) \<and> mxFrame (hdr (pWal st')) = 1"
proof -
  let ?fs = "[(1, 1, replicate 512 7), (2, 0, replicate 512 8)] :: frame list" and ?s = "replicate 8 1 :: bytes"
  let ?f = "log_prefix False 512 3 ?s ?fs"
  have F: "pWalFd (small_log\<lparr>pWalFd := ?f\<rparr>) = log_prefix False 512 3 ?s ?fs @ []" by simp
  have fok: "frames_ok 512 ?fs" "?fs \<noteq> []" "length ?s = 8" by (simp_all add: frames_ok_def)
  have ends: "chain_ends False 512 ?s (log_cksum False 512 (header_cksum False 512 3 ?s) ?fs) []" by (simp add: chain_ends_def)
  have lc: "1 = last_commit ?fs (length ?fs)" by (simp add: last_commit_def)
  show ?thesis
    using wal_recover_exact [OF F fok(3,1,2) page_size_512 ends restarted_small lc] by blast
qed

end
