(* ===== verification/Wal_Tx.thy ===== *)
theory Wal_Tx
  imports Wal_Recover
begin

text \<open>
  Whole transactions in the log (pager.c calling \<open>sqlite3WalFrames\<close>): calls that write pages when
  the page cache spills and the call of the commit. A page that the transaction has written before
  is overwritten in its frame, which breaks the chain of checksums from there on; the commit
  rewrites the checksums. The theorem is that a commit survives a crash. A savepoint that is rolled
  back inside such a transaction is not part of these runs.
\<close>

section \<open>Model\<close>

text \<open>
  The pager may write pages to the log before the commit, when its cache is full: each of these
  calls passes no size. The commit is the last call. The first call that fails ends the
  transaction.
\<close>

fun tx_spills :: "log_state \<Rightarrow> nat \<Rightarrow> (u32 \<times> bytes) list list \<Rightarrow> nat \<Rightarrow> bytes \<Rightarrow> log_state \<times> rc" where
  "tx_spills st szPg [] flags rnd = (st, SQLITE_OK)"
| "tx_spills st szPg (ps # pss) flags rnd =
     (let (st, rc) = walFrames st (frames_first st) szPg ps 0 False flags rnd
      in if rc \<noteq> SQLITE_OK then (st, rc) else tx_spills st szPg pss flags rnd)"

definition tx_commit :: "log_state \<Rightarrow> nat \<Rightarrow> (u32 \<times> bytes) list list \<Rightarrow> (u32 \<times> bytes) list \<Rightarrow> u32 \<Rightarrow> nat \<Rightarrow> bytes \<Rightarrow> log_state \<times> rc" where
  "tx_commit st szPg spills pList nTruncate flags rnd =
     (let (st, rc) = tx_spills st szPg spills flags rnd
      in if rc \<noteq> SQLITE_OK then (st, rc) else walFrames st (frames_first st) szPg pList nTruncate True flags rnd)"

section \<open>What a call leaves alone\<close>

text \<open>The settings of a connection that no call of the log writer changes.\<close>

definition config :: "log_state \<Rightarrow> nat \<times> nat \<times> bool \<times> ckpt_info" where
  "config st = (minFrame (pWal st), sectorSize st, syncHeader st, pInfo st)"

lemma config_upd [simp]:
  "config (st\<lparr>pWalFd := f\<rparr>) = config st" "config (st\<lparr>pSynced := f\<rparr>) = config st" "config (st\<lparr>faults := q\<rparr>) = config st"
  "config (st\<lparr>shm := wi\<rparr>) = config st" "config (st\<lparr>truncateOnCommit := b\<rparr>) = config st" "config (st\<lparr>live := h\<rparr>) = config st"
  "config (st\<lparr>iCallback := i\<rparr>) = config st"
  "minFrame w = minFrame (pWal st) \<Longrightarrow> config (st\<lparr>pWal := w\<rparr>) = config st"
  by (simp_all add: config_def)

lemma config_fault: "next_fault st = (x, st') \<Longrightarrow> config st' = config st"
  by (auto simp: next_fault_def split: list.splits)

lemma config_write: "sqlite3OsWrite st d off = (st', rc) \<Longrightarrow> config st' = config st"
  by (auto simp: sqlite3OsWrite_def split: prod.splits dest: config_fault)

lemma config_read: "sqlite3OsRead st n off = (st', rc, d) \<Longrightarrow> config st' = config st"
  by (auto simp: sqlite3OsRead_def Let_def split: prod.splits dest: config_fault)

lemma config_sync: "sqlite3OsSync st fl = (st', rc) \<Longrightarrow> config st' = config st"
  by (auto simp: sqlite3OsSync_def Let_def split: prod.splits if_splits dest: config_fault)

lemma config_to_log: "walWriteToLog st sp fl d off = (st', rc) \<Longrightarrow> config st' = config st"
  by (auto simp: walWriteToLog_def Let_def split: prod.splits if_splits dest!: config_write config_sync)

lemma config_encode: "walEncodeFrame w p t d = (w', f) \<Longrightarrow> minFrame w' = minFrame w"
  using encode_frame_wal by fastforce

lemma config_one_frame: "walWriteOneFrame st n sp fl p t off = (st', rc) \<Longrightarrow> config st' = config st"
  by (auto simp: walWriteOneFrame_def Let_def split: prod.splits if_splits dest!: config_to_log config_encode)

lemma config_rewrite_loop: "rewrite_loop st n i k = (st', rc) \<Longrightarrow> config st' = config st"
proof (induction k arbitrary: st i)
  case (Suc k)
  obtain st1 rc1 b where r: "sqlite3OsRead st (n + 24) (walFrameOffset i n) = (st1, rc1, b)" using prod_cases3 by blast
  obtain w f where e: "walEncodeFrame (pWal st1) (the (sqlite3Get4byte b)) (the (sqlite3Get4byte (drop 4 b))) (drop 24 b) = (w, f)"
    by fastforce
  obtain st2 rc2 where w: "sqlite3OsWrite (st1\<lparr>pWal := w\<rparr>) f (walFrameOffset i n) = (st2, rc2)" by fastforce
  have c: "config st1 = config st" "config st2 = config st"
    using config_read [OF r] config_write [OF w] config_encode [OF e] by simp_all
  show ?case using Suc.IH [of st2 "Suc i"] Suc.prems r e w c by (auto simp: Let_def split: if_splits)
qed simp

lemma config_rewrite: "walRewriteChecksums st i = (st', rc) \<Longrightarrow> config st' = config st"
  by (auto simp: walRewriteChecksums_def Let_def split: prod.splits if_splits dest!: config_fault config_read config_rewrite_loop)

lemma config_header: "walWriteHeader st n fl rnd = (st', rc) \<Longrightarrow> config st' = config st"
  by (auto simp: walWriteHeader_def Let_def split: prod.splits if_splits dest!: config_write config_sync)

lemma config_frames_loop: "frames_loop st n iFirst isC nT fl ps i off pl = (st', rc, i', off', as, pl') \<Longrightarrow> config st' = config st"
proof (induction ps arbitrary: st i off pl st' rc i' off' as pl')
  case (Cons p ps)
  show ?case
    using Cons.prems
    by (auto simp: Let_def split: if_splits prod.splits dest!: Cons.IH config_write config_one_frame)
qed simp

lemma config_pad_loop: "pad_loop st n sp fl p t off k = (st', rc, off', k') \<Longrightarrow> config st' = config st"
proof (induction "sp - off" arbitrary: st off k rule: less_induct)
  case less
  show ?case
  proof (cases "off < sp")
    case True
    obtain st1 rc1 where w: "walWriteOneFrame st n sp fl p t off = (st1, rc1)" by fastforce
    have "sp - (off + (n + 24)) < sp - off" using True by simp
    from less.hyps [OF this, of st1 "k + 1"] less.prems True w config_one_frame [OF w] show ?thesis
      by (auto simp: pad_loop.simps [of st] split: if_splits)
  next
    case False
    then show ?thesis using less.prems by (simp add: pad_loop.simps)
  qed
qed

lemma config_pad_and_sync: "pad_and_sync st n fl p t off = (st', rc, k) \<Longrightarrow> config st' = config st"
  by (auto simp: pad_and_sync_def Let_def split: prod.splits if_splits dest!: config_pad_loop config_sync)

lemma config_limit: "config (frames_limit st n isC i) = config st"
  by (auto simp: frames_limit_def walLimitSize_def Let_def split: prod.splits dest!: config_fault)

lemma config_index_loop: "index_loop st i ps = (st', rc, i') \<Longrightarrow> config st' = config st"
proof (induction ps arbitrary: st i)
  case (Cons p ps)
  obtain wi rc1 where "walIndexAppend (shm st) (mxFrame (hdr (pWal st))) (i + 1) p = (wi, rc1)" by fastforce
  then show ?case using Cons.IH [of "st\<lparr>shm := wi\<rparr>"] Cons.prems by (auto simp: Let_def split: if_splits)
qed simp

lemma config_publish: "config (frames_publish st n nT isC i) = config st"
  by (simp add: frames_publish_def walIndexWriteHdr_def Let_def)

lemma config_frames: "walFrames st iFirst n pList nT isC fl rnd = (st', rc) \<Longrightarrow> config st' = config st"
  by (auto simp: walFrames_def Let_def config_limit config_publish split: prod.splits if_splits option.splits
      dest!: config_header config_frames_loop config_rewrite config_pad_and_sync config_index_loop)

section \<open>The log inside a transaction\<close>

text \<open>Frames as the file holds them, each with sixteen bytes of salt and checksum.\<close>

definition stored :: "(frame \<times> bytes) list \<Rightarrow> bytes" where
  "stored gs = concat (map (\<lambda>((p, t, d), s). sqlite3Put4byte p @ sqlite3Put4byte t @ s @ d) gs)"

lemma stored_append: "stored (gs @ hs) = stored gs @ stored hs"
  by (simp add: stored_def)

lemma length_stored:
  "frames_ok n (map fst gs) \<Longrightarrow> \<forall>g \<in> set gs. length (snd g) = 16 \<Longrightarrow> length (stored gs) = length gs * (n + 24)"
  by (induction gs) (auto simp: stored_def frames_ok_def)

lemma log_chain_stored:
  "length salt = 8 \<Longrightarrow> \<exists>gs. map fst gs = fs \<and> (\<forall>g \<in> set gs. length (snd g) = 16) \<and> log_chain be n salt c fs = stored gs"
proof (induction fs arbitrary: c)
  case Nil
  then show ?case by (intro exI [of _ "[]"]) (simp add: stored_def)
next
  case (Cons f fs)
  obtain p t d where f: "f = (p, t, d)" by (cases f)
  let ?c = "frame_cksum (\<not> be) n p t d c"
  obtain gs where gs: "map fst gs = fs" "\<forall>g \<in> set gs. length (snd g) = 16" "log_chain be n salt ?c fs = stored gs"
    using Cons.IH [OF Cons.prems] by blast
  show ?case
    using gs Cons.prems by (intro exI [of _ "((p, t, d), salt @ sqlite3Put4byte (fst ?c) @ sqlite3Put4byte (snd ?c)) # gs"])
      (simp add: f stored_def frame_header_def)
qed

text \<open>Writing the page of one of them.\<close>

lemma stored_write:
  assumes "i < length gs" "fst (gs ! i) = (p, t, d0)" "length d = n" "frames_ok n (map fst gs)" "\<forall>g \<in> set gs. length (snd g) = 16"
  shows "file_write (X @ stored gs @ r) (length X + i * (n + 24) + 24) d = X @ stored (gs[i := ((p, t, d), snd (gs ! i))]) @ r"
proof -
  obtain s where g: "gs ! i = ((p, t, d0), s)" using assms(2) by (cases "gs ! i") auto
  have gs: "gs = take i gs @ gs ! i # drop (Suc i) gs" using assms(1) by (rule id_take_nth_drop)
  have "frames_ok n (map fst (take i gs) @ map fst (drop i gs))" using assms(4) by (metis append_take_drop_id map_append)
  then have ok1: "frames_ok n (map fst (take i gs))" by (simp add: frames_ok_append)
  have m: "((p, t, d0), s) \<in> set gs" using nth_mem [OF assms(1)] g by simp
  have ok2: "length s = 16" using m assms(5) by fastforce
  have "(p, t, d0) \<in> set (map fst gs)" using m by force
  then have ok3: "length d0 = n" using assms(4) unfolding frames_ok_def by fast
  note ok = ok1 ok2 ok3
  let ?A = "X @ stored (take i gs) @ sqlite3Put4byte p @ sqlite3Put4byte t @ s"
  have "length (stored (take i gs)) = i * (n + 24)"
  proof -
    have "\<forall>g \<in> set (take i gs). length (snd g) = 16" using assms(5) in_set_takeD by fast
    then show ?thesis using length_stored [OF ok(1)] assms(1) by simp
  qed
  then have l: "length ?A = length X + i * (n + 24) + 24" using ok(2) by simp
  have f: "X @ stored gs @ r = ?A @ d0 @ stored (drop (Suc i) gs) @ r"
  proof -
    have "stored gs = stored (take i gs) @ stored [((p, t, d0), s)] @ stored (drop (Suc i) gs)"
      using arg_cong [OF gs, of stored] unfolding g stored_append [symmetric] by simp
    then show ?thesis by (simp add: stored_def)
  qed
  have "file_write (X @ stored gs @ r) (length ?A) d = ?A @ d @ stored (drop (Suc i) gs) @ r"
    unfolding f file_write_at using assms(3) ok(3) by simp
  moreover have "gs[i := ((p, t, d), s)] = take i gs @ ((p, t, d), s) # drop (Suc i) gs"
    by (rule upd_conv_take_nth_drop [OF assms(1)])
  ultimately show ?thesis unfolding l by (simp add: g stored_append) (simp add: stored_def)
qed

text \<open>
  What the file holds while a transaction that has written frames is open: the frames \<open>fs\<close>, the
  first of them chained by their checksums and, from the number \<open>iReCksum\<close> on, the others waiting
  for theirs. The first \<open>c0\<close> frames are committed.
\<close>

definition same_conn :: "wal \<Rightarrow> wal \<Rightarrow> bool" where
  "same_conn w w' \<longleftrightarrow> mxFrame (hdr w') = mxFrame (hdr w) \<and> szPage w' = szPage w \<and> aSalt (hdr w') = aSalt (hdr w) \<and>
     bigEndCksum (hdr w') = bigEndCksum (hdr w)"

lemma same_conn_refl [simp]: "same_conn w w" by (simp add: same_conn_def)

lemma same_conn_trans: "same_conn a b \<Longrightarrow> same_conn b c \<Longrightarrow> same_conn a c" by (simp add: same_conn_def)

lemma cksum_same_conn: "cksum_only a b \<Longrightarrow> same_conn a b"
proof -
  assume "cksum_only a b"
  then have e: "hdr_upd (\<lambda>h. h\<lparr>aFrameCksum := (0, 0)\<rparr>) b = hdr_upd (\<lambda>h. h\<lparr>aFrameCksum := (0, 0)\<rparr>) a" by (simp add: cksum_only_def)
  have "mxFrame (hdr b) = mxFrame (hdr a)" "szPage b = szPage a" "aSalt (hdr b) = aSalt (hdr a)" "bigEndCksum (hdr b) = bigEndCksum (hdr a)"
    using arg_cong [OF e, of "\<lambda>w. mxFrame (hdr w)"] arg_cong [OF e, of szPage] arg_cong [OF e, of "\<lambda>w. aSalt (hdr w)"]
      arg_cong [OF e, of "\<lambda>w. bigEndCksum (hdr w)"] by simp_all
  then show ?thesis by (simp add: same_conn_def)
qed

definition tx_frame_file :: "log_state \<Rightarrow> bool \<Rightarrow> nat \<Rightarrow> u32 \<Rightarrow> frame list \<Rightarrow> (frame \<times> bytes) list \<Rightarrow> bool" where
  "tx_frame_file st be n ck A gs \<longleftrightarrow> (\<forall>g \<in> set gs. length (snd g) = 16) \<and>
     (\<exists>r. pWalFd st = log_prefix be n ck (aSalt (hdr (pWal st))) A @ stored gs @ r)"

definition tx_file :: "log_state \<Rightarrow> bool \<Rightarrow> nat \<Rightarrow> u32 \<Rightarrow> nat \<Rightarrow> frame list \<Rightarrow> bool" where
  "tx_file st be n ck c0 fs \<longleftrightarrow> unat (szPage (pWal st)) = n \<and> length (aSalt (hdr (pWal st))) = 8 \<and> (nativeCksum (pWal st) \<longleftrightarrow> \<not> be) \<and>
     frames_ok n fs \<and>
     (\<exists>A gs. fs = A @ map fst gs \<and> c0 \<le> length A \<and> tx_frame_file st be n ck A gs \<and>
       (if iReCksum (pWal st) = 0
        then gs = [] \<and> aFrameCksum (hdr (pWal st)) = log_cksum be n (header_cksum be n ck (aSalt (hdr (pWal st)))) A
        else iReCksum (pWal st) = length A + 1 \<and> gs \<noteq> []))"

text \<open>An overwrite moves the end of the chained frames to before the frame it changes.\<close>

lemma tx_unchain:
  assumes "tx_file st be n ck c0 fs" "c0 < iw" "iw \<le> length fs"
  obtains A gs where "fs = A @ map fst gs" "c0 \<le> length A" "tx_frame_file st be n ck A gs" "length A < iw"
    "(if iReCksum (pWal st) = 0 \<or> iw < iReCksum (pWal st) then iw else iReCksum (pWal st)) = length A + 1"
proof -
  obtain A gs where a: "fs = A @ map fst gs" "c0 \<le> length A" "tx_frame_file st be n ck A gs"
    "if iReCksum (pWal st) = 0 then gs = [] else iReCksum (pWal st) = length A + 1 \<and> gs \<noteq> []"
    using assms(1) unfolding tx_file_def by (metis (mono_tags, lifting))
  show thesis
  proof (cases "iw \<le> length A")
    case True
    let ?A = "take (iw - 1) A" and ?s = "aSalt (hdr (pWal st))"
    obtain hs where hs: "map fst hs = drop (iw - 1) A" "\<forall>g \<in> set hs. length (snd g) = 16"
      "log_chain be n ?s (log_cksum be n (header_cksum be n ck ?s) ?A) (drop (iw - 1) A) = stored hs"
      using log_chain_stored assms(1) unfolding tx_file_def by blast
    have "log_prefix be n ck ?s A = log_prefix be n ck ?s ?A @ stored hs"
      using log_prefix_append [of be n ck ?s ?A "drop (iw - 1) A"] hs(3) by simp
    then have tf: "tx_frame_file st be n ck ?A (hs @ gs)"
      using a(3) hs(2) by (auto simp: tx_frame_file_def stored_append)
    have fs: "fs = ?A @ map fst (hs @ gs)" using a(1) hs(1) by (metis append.assoc append_take_drop_id map_append)
    show thesis
      by (rule that [OF fs _ tf]) (use True assms(2) a(4) in \<open>auto split: if_splits\<close>)
  next
    case False
    then have "gs \<noteq> []" using a(1) assms(3) by auto
    then have "iReCksum (pWal st) \<noteq> 0" using a(4) by (auto split: if_splits)
    then show thesis using that [OF a(1-3)] a(4) False by auto
  qed
qed

lemma tx_overwrite:
  assumes f: "tx_file st be n ck c0 fs" and i: "c0 < iw" "iw \<le> length fs" "fs ! (iw - 1) = (p, t, d0)" and d: "length d = n"
    and w: "w = (if iReCksum (pWal st) = 0 \<or> iw < iReCksum (pWal st) then (pWal st)\<lparr>iReCksum := iw\<rparr> else pWal st)"
    and wr: "sqlite3OsWrite (st\<lparr>pWal := w\<rparr>) d (walFrameOffset iw n + 24) = (st', SQLITE_OK)"
  shows "tx_file st' be n ck c0 (fs[iw - 1 := (p, t, d)])" "same_conn (pWal st) (pWal st')" "io_only st st'"
proof -
  obtain A gs where a: "fs = A @ map fst gs" "c0 \<le> length A" "tx_frame_file st be n ck A gs" "length A < iw"
    "(if iReCksum (pWal st) = 0 \<or> iw < iReCksum (pWal st) then iw else iReCksum (pWal st)) = length A + 1"
    by (rule tx_unchain [OF f i(1,2)])
  have w': "iReCksum w = length A + 1" "hdr w = hdr (pWal st)" "szPage w = szPage (pWal st)"
    using a(5) by (auto simp: w split: if_splits)
  let ?s = "aSalt (hdr (pWal st))" and ?i = "iw - 1 - length A"
  have base: "length ?s = 8" "frames_ok n A" "frames_ok n (map fst gs)" using f a(1) by (simp_all add: tx_file_def frames_ok_append)
  obtain r where r: "pWalFd st = log_prefix be n ck ?s A @ stored gs @ r" and g16: "\<forall>g \<in> set gs. length (snd g) = 16"
    using a(3) by (auto simp: tx_frame_file_def)
  have k1: "?i < length gs" using a(1,4) i(2) by simp
  have nl: "\<not> iw - 1 < length A" using a(4) by linarith
  have "fs ! (iw - 1) = map fst gs ! ?i" unfolding a(1) nth_append if_not_P [OF nl] by (rule refl)
  then have k: "?i < length gs" "fst (gs ! ?i) = (p, t, d0)" using k1 i(3) by simp_all
  let ?gs = "gs[?i := ((p, t, d), snd (gs ! ?i))]"
  have "length (log_prefix be n ck ?s A) + ?i * (n + 24) + 24 = walFrameOffset iw n + 24"
  proof -
    have "iw - 1 = length A + ?i" using a(4) by simp
    then show ?thesis unfolding length_log_prefix [OF base(1,2)] by (simp add: walFrameOffset_def algebra_simps)
  qed
  then have "pWalFd st' = log_prefix be n ck ?s A @ stored ?gs @ r"
    using write_ok(1) [OF wr] stored_write [OF k d base(3) g16, of "log_prefix be n ck ?s A" r] by (simp add: r)
  moreover have "\<forall>g \<in> set ?gs. length (snd g) = 16"
    using g16 k(1) nth_mem [OF k(1)] by (auto dest!: set_update_subset_insert [THEN subsetD])
  ultimately have ff: "tx_frame_file st' be n ck A ?gs" using write_ok(2) [OF wr] w'(2) by (simp add: tx_frame_file_def)
  have fs': "fs[iw - 1 := (p, t, d)] = A @ map fst ?gs"
    using a(1) nl by (simp add: list_update_append map_update)
  have "frames_ok n (fs[iw - 1 := (p, t, d)])"
  proof -
    have ok: "frames_ok n fs" using f by (simp add: tx_file_def)
    have "iw - 1 < length fs" using i(1,2) by simp
    then have "(p, t, d0) \<in> set fs" using i(3) nth_mem by metis
    then have "p \<noteq> 0" using ok unfolding frames_ok_def by fast
    then show ?thesis using ok d set_update_subset_insert [of fs "iw - 1" "(p, t, d)"] unfolding frames_ok_def by fast
  qed
  moreover have "?gs \<noteq> []" using k(1) by auto
  moreover have "unat (szPage (pWal st')) = n" "length (aSalt (hdr (pWal st'))) = 8" "nativeCksum (pWal st') \<longleftrightarrow> \<not> be"
    "iReCksum (pWal st') = length A + 1" using f w' write_ok(2) [OF wr] by (simp_all add: tx_file_def)
  ultimately show "tx_file st' be n ck c0 (fs[iw - 1 := (p, t, d)])"
    unfolding tx_file_def fs' using a(2) ff by (intro conjI exI [of _ A] exI [of _ ?gs]) simp_all
  show "same_conn (pWal st) (pWal st')" using write_ok(2) [OF wr] w' by (simp add: same_conn_def)
  show "io_only st st'" using write_ok(4) [OF wr] by (simp add: io_only_def)
qed

text \<open>A frame at the end.\<close>

lemma tx_append:
  assumes f: "tx_file st be n ck c0 fs" and p: "p \<noteq> 0" "length d = n"
    and wr: "walWriteOneFrame st n 0 flags (p, d) t (walFrameOffset (length fs + 1) n) = (st', SQLITE_OK)"
  shows "tx_file st' be n ck c0 (fs @ [(p, t, d)])" "same_conn (pWal st) (pWal st')" "io_only st st'"
proof -
  let ?s = "aSalt (hdr (pWal st))"
  obtain A gs where a: "fs = A @ map fst gs" "c0 \<le> length A" "tx_frame_file st be n ck A gs"
    "if iReCksum (pWal st) = 0 then gs = [] \<and> aFrameCksum (hdr (pWal st)) = log_cksum be n (header_cksum be n ck ?s) A
     else iReCksum (pWal st) = length A + 1 \<and> gs \<noteq> []"
    using f unfolding tx_file_def by blast
  have base: "unat (szPage (pWal st)) = n" "length ?s = 8" "nativeCksum (pWal st) \<longleftrightarrow> \<not> be" "frames_ok n A" "frames_ok n (map fst gs)"
    using f a(1) by (simp_all add: tx_file_def frames_ok_append)
  obtain r where r: "pWalFd st = log_prefix be n ck ?s A @ stored gs @ r" and g16: "\<forall>g \<in> set gs. length (snd g) = 16"
    using a(3) by (auto simp: tx_frame_file_def)
  have fok: "frames_ok n (fs @ [(p, t, d)])" using f p by (simp add: tx_file_def frames_ok_append frames_ok_def)
  let ?X = "log_prefix be n ck ?s A @ stored gs"
  have lX: "walFrameOffset (length fs + 1) n = length ?X"
    using length_log_prefix [OF base(2,4), of be ck] length_stored [OF base(5) g16] a(1)
    by (simp add: walFrameOffset_def algebra_simps)
  have rX: "pWalFd st = ?X @ r" using r by simp
  have "tx_file st' be n ck c0 (fs @ [(p, t, d)]) \<and> same_conn (pWal st) (pWal st') \<and> io_only st st'"
  proof (cases "iReCksum (pWal st) = 0")
    case True
    then have g: "gs = []" "fs = A" using a by simp_all
    define c where "c = log_cksum be n (header_cksum be n ck ?s) A"
    define c' where "c' = frame_cksum (\<not> be) n p t d c"
    have "writer st be n ?s c" using True a(4) base by (simp add: writer_def c_def)
    note o = one_frame_ok [OF wr [unfolded lX] rX this p(2) c'_def]
    have s': "aSalt (hdr (pWal st')) = ?s" using o(3) by simp
    have "c' = log_cksum be n (header_cksum be n ck ?s) (A @ [(p, t, d)])" by (simp add: c'_def c_def log_cksum_append)
    moreover have "pWalFd st' = log_prefix be n ck ?s (A @ [(p, t, d)]) @ stored [] @ drop (n + 24) r"
      using o(1) by (simp add: g stored_def log_prefix_append c_def c'_def)
    then have "tx_frame_file st' be n ck (A @ [(p, t, d)]) []" unfolding tx_frame_file_def s' by auto
    moreover have "iReCksum (pWal st') = 0" "aFrameCksum (hdr (pWal st')) = c'" "unat (szPage (pWal st')) = n" "nativeCksum (pWal st') \<longleftrightarrow> \<not> be"
      using o(3) True base by simp_all
    ultimately have "tx_file st' be n ck c0 (fs @ [(p, t, d)])"
      unfolding tx_file_def s' using fok base(2) a(2) g by (intro conjI exI [of _ "A @ [(p, t, d)]"] exI [of _ "[]"]) simp_all
    moreover have "same_conn (pWal st) (pWal st')" by (rule cksum_same_conn) (simp add: o(3) cksum_only_def)
    ultimately show ?thesis using o(4) by simp
  next
    case False
    let ?f = "sqlite3Put4byte p @ sqlite3Put4byte t @ replicate 16 (0 :: u8)"
    have e: "walEncodeFrame (pWal st) p t d = (pWal st, ?f)" using False by (simp add: walEncodeFrame_def Let_def)
    obtain st1 rc1 where w1: "walWriteToLog st 0 flags ?f (length ?X) = (st1, rc1)" by fastforce
    have lf: "length ?f = 24" by simp
    have td: "take n d = d" using p(2) by simp
    have eq: "walWriteOneFrame st n 0 flags (p, d) t (length ?X) =
        (if rc1 \<noteq> SQLITE_OK then (st1, rc1) else walWriteToLog st1 0 flags d (length ?X + 24))"
      unfolding walWriteOneFrame_def fst_conv snd_conv e Let_def prod.case using w1 lf td by simp
    have rc1: "rc1 = SQLITE_OK" using wr unfolding lX eq by (auto split: if_splits)
    note t1 = to_log_ok [OF w1 [unfolded rc1] rX]
    have w2: "walWriteToLog st1 0 flags d (length (?X @ ?f)) = (st', SQLITE_OK)" using wr rc1 lf unfolding lX eq by (simp add: add.assoc)
    have f1: "pWalFd st1 = (?X @ ?f) @ drop (length ?f) r" using t1(1) by simp
    note t2 = to_log_ok [OF w2 f1]
    have s': "pWal st' = pWal st" using t1(2) t2(2) by simp
    let ?gs = "gs @ [((p, t, d), replicate 16 0)]"
    have "pWalFd st' = log_prefix be n ck ?s A @ stored ?gs @ drop (length d) (drop (length ?f) r)"
      using t2(1) by (simp add: stored_append) (simp add: stored_def)
    then have "tx_frame_file st' be n ck A ?gs" unfolding tx_frame_file_def s' using g16 by auto
    moreover have "fs @ [(p, t, d)] = A @ map fst ?gs" using a(1) by simp
    ultimately have "tx_file st' be n ck c0 (fs @ [(p, t, d)])"
      unfolding tx_file_def s' using fok base a(2,4) False by (intro conjI exI [of _ A] exI [of _ ?gs]) simp_all
    then show ?thesis using s' io_only_trans [OF t1(3) t2(3)] by simp
  qed
  then show "tx_file st' be n ck c0 (fs @ [(p, t, d)])" "same_conn (pWal st) (pWal st')" "io_only st st'" by blast+
qed

text \<open>Before the commit the waiting frames get their checksums.\<close>

lemma read_frame_ok:
  assumes "sqlite3OsRead st k off = (st', SQLITE_OK, b)"
  shows "b = take k (drop off (pWalFd st))" "pWalFd st' = pWalFd st" "pWal st' = pWal st" "io_only st st'"
  using assms by (auto simp: sqlite3OsRead_def next_fault_def io_only_def Let_def split: list.splits if_splits prod.splits)

lemma rewrite_loop_ok:
  "rewrite_loop st n (length A + 1) (length gs) = (st', SQLITE_OK) \<Longrightarrow>
    pWalFd st = log_prefix be n ck salt A @ stored gs @ r \<Longrightarrow> \<forall>g \<in> set gs. length (snd g) = 16 \<Longrightarrow>
    frames_ok n A \<Longrightarrow> frames_ok n (map fst gs) \<Longrightarrow> writer st be n salt (log_cksum be n (header_cksum be n ck salt) A) \<Longrightarrow>
    pWalFd st' = log_prefix be n ck salt (A @ map fst gs) @ r \<and>
    writer st' be n salt (log_cksum be n (header_cksum be n ck salt) (A @ map fst gs)) \<and>
    same_conn (pWal st) (pWal st') \<and> io_only st st'"
proof (induction gs arbitrary: st A)
  case Nil
  then show ?case by (simp add: stored_def io_only_def)
next
  case (Cons g gs)
  obtain p t d s where g: "g = ((p, t, d), s)" by (metis prod.exhaust)
  let ?X = "log_prefix be n ck salt A" and ?c = "log_cksum be n (header_cksum be n ck salt) A"
  have s8: "length salt = 8" using Cons.prems(6) by (simp add: writer_def)
  have l: "length s = 16" "p \<noteq> 0" "length d = n" using Cons.prems(3,5) by (simp_all add: g frames_ok_def)
  have off: "walFrameOffset (length A + 1) n = length ?X" by (simp add: length_log_prefix [OF s8 Cons.prems(4)])
  have F: "pWalFd st = ?X @ (sqlite3Put4byte p @ sqlite3Put4byte t @ s @ d) @ stored gs @ r"
    using Cons.prems(2) by (simp add: g stored_def)
  define c' where "c' = frame_cksum (\<not> be) n p t d ?c"
  obtain st1 rc1 b where rd: "sqlite3OsRead st (n + 24) (length ?X) = (st1, rc1, b)" using prod_cases3 by blast
  obtain w f where e: "walEncodeFrame (pWal st1) (the (sqlite3Get4byte b)) (the (sqlite3Get4byte (drop 4 b))) (drop 24 b) = (w, f)" by fastforce
  obtain st2 rc2 where w: "sqlite3OsWrite (st1\<lparr>pWal := w\<rparr>) f (length ?X) = (st2, rc2)" by fastforce
  have eq: "rewrite_loop st n (length A + 1) (length (g # gs)) =
      (if rc1 \<noteq> SQLITE_OK then (st1, rc1) else if rc2 \<noteq> SQLITE_OK then (st2, rc2) else rewrite_loop st2 n (length A + 1 + 1) (length gs))"
    unfolding list.size(4) One_nat_def add_Suc_right add_0_right rewrite_loop.simps off [unfolded One_nat_def add_Suc_right add_0_right] Let_def
    using rd e w by simp
  have rc: "rc1 = SQLITE_OK" "rc2 = SQLITE_OK" using Cons.prems(1) unfolding eq by (auto split: if_splits)
  note r1 = read_frame_ok [OF rd [unfolded rc(1)]]
  have b: "b = sqlite3Put4byte p @ sqlite3Put4byte t @ s @ d" using r1(1) l unfolding F by simp
  have get: "sqlite3Get4byte b = Some p" "sqlite3Get4byte (drop 4 b) = Some t" "drop 24 b = d"
    using l(1) by (simp_all add: b get4_put4)
  have w1: "writer st1 be n salt ?c" using Cons.prems(6) r1(3) by (simp add: writer_def)
  have "walEncodeFrame (pWal st1) p t d = (hdr_upd (\<lambda>h. h\<lparr>aFrameCksum := c'\<rparr>) (pWal st1), frame_header p t salt c')"
    using w1 encode_frame [of "pWal st1" c' p t d] by (simp add: writer_def c'_def)
  then have wf: "w = hdr_upd (\<lambda>h. h\<lparr>aFrameCksum := c'\<rparr>) (pWal st1)" "f = frame_header p t salt c'" using e get by simp_all
  note w2 = write_ok [OF w [unfolded rc(2)]]
  have "pWalFd st2 = ?X @ f @ d @ stored gs @ r"
    using w2(1) file_write_at [of ?X "(sqlite3Put4byte p @ sqlite3Put4byte t @ s @ d) @ stored gs @ r" f] l(1)
    by (simp add: r1(2) F wf(2) length_frame_header [OF s8])
  then have F2: "pWalFd st2 = log_prefix be n ck salt (A @ [(p, t, d)]) @ stored gs @ r"
    by (simp add: wf(2) log_prefix_append c'_def)
  have W2: "writer st2 be n salt (log_cksum be n (header_cksum be n ck salt) (A @ [(p, t, d)]))"
    using w1 w2(2) wf(1) by (simp add: writer_def log_cksum_append c'_def)
  have len: "length (A @ [(p, t, d)]) + 1 = length A + 1 + 1" by simp
  have fok: "frames_ok n (A @ [(p, t, d)])" "frames_ok n (map fst gs)" "\<forall>g \<in> set gs. length (snd g) = 16"
    using Cons.prems(3-5) by (simp_all add: g frames_ok_def)
  have "rewrite_loop st2 n (length (A @ [(p, t, d)]) + 1) (length gs) = (st', SQLITE_OK)"
    using Cons.prems(1) rc unfolding eq len by simp
  note IH = Cons.IH [OF this F2 fok(3,1,2) W2]
  have "same_conn (pWal st) (pWal st2)" "io_only st st2"
    using w2(2,4) wf(1) r1(3,4) by (simp_all add: same_conn_def io_only_def)
  then show ?case using IH same_conn_trans io_only_trans by (auto simp: g)
qed

text \<open>The checksum that a chain of frames ends with is read back from its last bytes.\<close>

lemma chain_end_cksum:
  assumes "length salt = 8" "frames_ok n A" "f = log_prefix be n ck salt A @ r"
    and "off = (if length A + 1 = 1 then 24 else walFrameOffset (length A + 1 - 1) n + 16)"
  shows "\<exists>x. drop off f = sqlite3Put4byte (fst (log_cksum be n (header_cksum be n ck salt) A)) @
    sqlite3Put4byte (snd (log_cksum be n (header_cksum be n ck salt) A)) @ x"
proof (cases A rule: rev_cases)
  case Nil
  have "length (header_start be n ck salt) = 24" using assms(1) by (simp add: header_start_def)
  then show ?thesis using assms(3,4) Nil by (simp add: log_prefix_def log_header_def)
next
  case (snoc B b)
  obtain p t d where b: "b = (p, t, d)" by (cases b)
  let ?c = "log_cksum be n (header_cksum be n ck salt) A"
  have fB: "frames_ok n B" using assms(2) snoc by (simp add: frames_ok_append)
  have c: "?c = frame_cksum (\<not> be) n p t d (log_cksum be n (header_cksum be n ck salt) B)" by (simp add: snoc b log_cksum_append)
  let ?Y = "log_prefix be n ck salt B @ sqlite3Put4byte p @ sqlite3Put4byte t @ salt"
  have f: "f = ?Y @ sqlite3Put4byte (fst ?c) @ sqlite3Put4byte (snd ?c) @ d @ r"
    unfolding assms(3) c by (simp add: snoc b log_prefix_append frame_header_def)
  have "off = length ?Y" using assms(1,4) snoc length_log_prefix [OF assms(1) fB, of be ck] by simp
  then show ?thesis unfolding f by simp
qed

lemma rewrite_ok:
  assumes f: "tx_file st be n ck c0 fs" and re: "iReCksum (pWal st) \<noteq> 0" and call: "walRewriteChecksums st (length fs) = (st', SQLITE_OK)"
  shows "(\<exists>r. pWalFd st' = log_prefix be n ck (aSalt (hdr (pWal st))) fs @ r) \<and>
    writer st' be n (aSalt (hdr (pWal st))) (log_cksum be n (header_cksum be n ck (aSalt (hdr (pWal st)))) fs) \<and>
    same_conn (pWal st) (pWal st') \<and> io_only st st'"
proof -
  let ?s = "aSalt (hdr (pWal st))"
  obtain A gs where a: "fs = A @ map fst gs" "c0 \<le> length A" "tx_frame_file st be n ck A gs" "iReCksum (pWal st) = length A + 1"
    using f re unfolding tx_file_def by (metis (mono_tags, lifting))
  have base: "unat (szPage (pWal st)) = n" "length ?s = 8" "nativeCksum (pWal st) \<longleftrightarrow> \<not> be" "frames_ok n A" "frames_ok n (map fst gs)"
    using f a(1) by (simp_all add: tx_file_def frames_ok_append)
  obtain r where r: "pWalFd st = log_prefix be n ck ?s A @ stored gs @ r" and g16: "\<forall>g \<in> set gs. length (snd g) = 16"
    using a(3) by (auto simp: tx_frame_file_def)
  let ?c = "log_cksum be n (header_cksum be n ck ?s) A"
  define off where "off = (if length A + 1 = 1 then 24 else walFrameOffset (length A + 1 - 1) n + 16)"
  obtain mrc k st0 where nf: "next_fault st = ((mrc, k), st0)" by (metis surj_pair)
  have s0: "pWalFd st0 = pWalFd st" "pWal st0 = pWal st" "io_only st st0"
    using nf by (auto simp: next_fault_def io_only_def split: list.splits)
  obtain st1 rc1 b where rd: "sqlite3OsRead st0 8 off = (st1, rc1, b)" using prod_cases3 by blast
  define st2 where "st2 = st1\<lparr>pWal := hdr_upd (\<lambda>h. h\<lparr>aFrameCksum := (the (sqlite3Get4byte b), the (sqlite3Get4byte (drop 4 b)))\<rparr>)
                             (pWal st1\<lparr>iReCksum := 0\<rparr>)\<rparr>"
  have cnt: "length fs + 1 - (length A + 1) = length gs" using a(1) by simp
  have eq: "walRewriteChecksums st (length fs) = (if mrc \<noteq> SQLITE_OK then (st0, SQLITE_NOMEM)
      else if rc1 \<noteq> SQLITE_OK then (st2, rc1) else rewrite_loop st2 n (length A + 1) (length gs))"
    unfolding walRewriteChecksums_def Let_def nf prod.case s0(2) a(4) base(1) off_def [symmetric] rd st2_def [symmetric] cnt by (rule refl)
  have rc: "mrc = SQLITE_OK" "rc1 = SQLITE_OK" using call unfolding eq by (auto split: if_splits)
  note r1 = read_frame_ok [OF rd [unfolded rc(2)]]
  obtain x where "drop off (pWalFd st) = sqlite3Put4byte (fst ?c) @ sqlite3Put4byte (snd ?c) @ x"
    using chain_end_cksum [OF base(2,4) r off_def] by blast
  then have b: "b = sqlite3Put4byte (fst ?c) @ sqlite3Put4byte (snd ?c)" using r1(1) s0(1) by simp
  have get: "sqlite3Get4byte b = Some (fst ?c)" "sqlite3Get4byte (drop 4 b) = Some (snd ?c)" by (simp_all add: b get4_put4 get4_put4_end)
  have w2: "writer st2 be n ?s ?c" "pWalFd st2 = log_prefix be n ck ?s A @ stored gs @ r" "same_conn (pWal st) (pWal st2)" "io_only st st2"
    using base r1(2-4) s0 r by (simp_all add: st2_def writer_def get same_conn_def io_only_def)
  have "rewrite_loop st2 n (length A + 1) (length gs) = (st', SQLITE_OK)" using call unfolding eq rc by simp
  from rewrite_loop_ok [OF this w2(2) g16 base(4,5) w2(1)] show ?thesis
    using same_conn_trans [OF w2(3)] io_only_trans [OF w2(4)] unfolding a(1) by blast
qed

section \<open>The pages of a transaction\<close>

type_synonym content = "u32 \<Rightarrow> bytes option"

text \<open>The pages in a list of frames, a later frame before an earlier one.\<close>

definition log_map :: "frame list \<Rightarrow> content" where
  "log_map fs = map_of (rev (map (\<lambda>(p, t, d). (p, d)) fs))"

lemma log_map_append: "log_map (fs @ gs) = log_map fs ++ log_map gs"
  by (simp add: log_map_def)

lemma log_map_Nil [simp]: "log_map [] = Map.empty"
  by (simp add: log_map_def)

lemma log_map_None: "log_map fs p = None \<longleftrightarrow> p \<notin> fst ` set fs"
  by (force simp: log_map_def map_of_eq_None_iff)

lemma log_map_tx: "log_map (tx_frames isC nT ps) = map_of (rev ps)"
proof -
  have "map (\<lambda>(p, t, d). (p, d)) (tx_frames isC nT ps) = ps" by (induction ps) auto
  then show ?thesis by (simp add: log_map_def)
qed

lemma log_map_update:
  assumes "i < length T" "fst (T ! i) = p" "\<forall>j. i < j \<and> j < length T \<longrightarrow> fst (T ! j) \<noteq> p"
  shows "log_map (T[i := (p, t, d)]) = (log_map T)(p \<mapsto> d)"
proof -
  obtain t0 d0 where g: "T ! i = (p, t0, d0)" using assms(2) by (cases "T ! i") auto
  have "p \<notin> fst ` set (drop (Suc i) T)"
  proof
    assume "p \<in> fst ` set (drop (Suc i) T)"
    then obtain k where "k < length (drop (Suc i) T)" "fst (drop (Suc i) T ! k) = p" by (force simp: in_set_conv_nth)
    then show False using assms(3) by (auto dest: spec [of _ "Suc i + k"])
  qed
  then have n: "log_map (drop (Suc i) T) p = None" by (simp add: log_map_None)
  have T: "T = take i T @ [T ! i] @ drop (Suc i) T" using assms(1) id_take_nth_drop by fastforce
  have T': "T[i := (p, t, d)] = take i T @ [(p, t, d)] @ drop (Suc i) T" using assms(1) by (simp add: upd_conv_take_nth_drop)
  have one: "log_map [(p, x, y)] = [p \<mapsto> y]" for x y by (simp add: log_map_def)
  have "(M ++ ([p \<mapsto> d] ++ N)) = (M ++ ([p \<mapsto> d0] ++ N))(p \<mapsto> d)" if "N p = None" for M N :: content
    using that by (auto simp: map_add_def fun_eq_iff split: option.splits)
  from this [of "log_map (drop (Suc i) T)", OF n] show ?thesis
    using arg_cong [OF T, of log_map] unfolding T' log_map_append g one by simp
qed

text \<open>The frames of a transaction: the last one carries the size of the database, no other does.\<close>

definition open_frames :: "frame list \<Rightarrow> bool" where
  "open_frames fs \<longleftrightarrow> (\<forall>f \<in> set fs. fst (snd f) = 0)"

lemma open_frames_append: "open_frames (fs @ gs) \<longleftrightarrow> open_frames fs \<and> open_frames gs"
  by (auto simp: open_frames_def)

lemma tx_frames_open: "open_frames (if isC then butlast (tx_frames isC nT ps) else tx_frames isC nT ps)"
proof (cases isC)
  case True
  have "tx_frames True nT ps = [] \<longleftrightarrow> ps = []" for ps by (cases ps) simp_all
  then show ?thesis using True by (induction ps) (auto simp: open_frames_def)
next
  case False
  then show ?thesis by (induction ps) (auto simp: open_frames_def)
qed

lemma tx_frames_ends: "ps \<noteq> [] \<Longrightarrow> last (tx_frames True nT ps) = (fst (last ps), nT, snd (last ps))"
proof (induction ps)
  case (Cons p ps)
  have "tx_frames True nT ps = [] \<longleftrightarrow> ps = []" by (cases ps) simp_all
  then show ?case using Cons by auto
qed simp

text \<open>
  The main loop in a transaction that has frames already: a page written before is written in
  place, in its newest frame; the others, and the last page of a commit, become new frames.
\<close>

lemma tx_loop:
  "frames_loop st n (c0 + 1) isC nT flags ps iFrame off pLast = (st', SQLITE_OK, iFrame', off', as, pLast') \<Longrightarrow>
    tx_file st be n ck c0 fs \<Longrightarrow> c0 \<le> m \<Longrightarrow> m \<le> length fs \<Longrightarrow> iFrame = length fs \<Longrightarrow> off = walFrameOffset (length fs + 1) n \<Longrightarrow>
    index_ok (shm st) m (map fst (take m fs)) \<Longrightarrow> mxFrame (hdr (pWal st)) = m \<Longrightarrow> 1 \<le> minFrame (pWal st) \<Longrightarrow>
    distinct (map fst ps) \<Longrightarrow> fst ` set ps \<inter> fst ` set (drop m fs) = {} \<Longrightarrow>
    \<forall>p \<in> set ps. fst p \<noteq> 0 \<and> length (snd p) = n \<Longrightarrow> open_frames (drop c0 fs) \<Longrightarrow>
    \<exists>fs'. tx_file st' be n ck c0 fs' \<and> iFrame' = length fs' \<and> off' = walFrameOffset (length fs' + 1) n \<and> take c0 fs' = take c0 fs \<and>
      map fst fs' = map fst fs @ map (\<lambda>(p, a). fst p) (filter snd (zip ps as)) \<and> c0 \<le> length fs' \<and>
      log_map (drop c0 fs') = log_map (drop c0 fs) ++ map_of (rev ps) \<and>
      open_frames (if isC \<and> ps \<noteq> [] then butlast (drop c0 fs') else drop c0 fs') \<and>
      (isC \<and> ps \<noteq> [] \<longrightarrow> drop c0 fs' \<noteq> [] \<and> last fs' = (fst (last ps), nT, snd (last ps)) \<and> pLast' = Some (last ps)) \<and>
      same_conn (pWal st) (pWal st') \<and> io_only st st'"
proof (induction ps arbitrary: st iFrame off pLast fs as)
  case Nil
  then show ?case by (intro exI [of _ fs]) (auto simp: io_only_def)
next
  case (Cons p ps)
  obtain pg d where p: "p = (pg, d)" by (cases p)
  have pg: "pg \<noteq> 0" "length d = n" "take n d = d" using Cons.prems(12) by (simp_all add: p)
  define iw where "iw = (if ps \<noteq> [] \<or> \<not> isC then (case walFindFrame (shm st) False (mxFrame (hdr (pWal st))) (minFrame (pWal st)) pg of
                            Inl rc \<Rightarrow> 0 | Inr i \<Rightarrow> i) else 0)"
  let ?P = "\<lambda>f. minFrame (pWal st) \<le> f \<and> map fst (take m fs) ! (f - 1) = pg"
  have ff: "walFindFrame (shm st) False m (minFrame (pWal st)) pg = Inr (newest ?P m)"
    by (rule find_frame [OF Cons.prems(7)]) (use Cons.prems(4,9) in simp_all)
  have iw_new: "iw = newest ?P m" if "iw \<noteq> 0" using that ff Cons.prems(8) by (simp add: iw_def split: if_splits)
  have first: "c0 + 1 \<noteq> 0" by simp
  have iwe: "(if c0 + 1 \<noteq> 0 \<and> (ps \<noteq> [] \<or> \<not> isC) then (case walFindFrame (shm st) False (mxFrame (hdr (pWal st))) (minFrame (pWal st)) (fst p) of
                            Inl rc \<Rightarrow> 0 | Inr i \<Rightarrow> i) else 0) = iw" by (simp add: iw_def p)
  note eq = frames_loop.simps(2) [of st n "c0 + 1" isC nT flags p ps iFrame off pLast, unfolded iwe Let_def]
  have rest_pages: "distinct (map fst ps)" "\<forall>q \<in> set ps. fst q \<noteq> 0 \<and> length (snd q) = n" "pg \<notin> fst ` set ps"
    using Cons.prems(10,12) by (auto simp: p)
  show ?case
  proof (cases "c0 + 1 \<noteq> 0 \<and> (ps \<noteq> [] \<or> \<not> isC) \<and> iw \<ge> c0 + 1")
    case True
    have nz: "newest ?P m = iw" "1 \<le> iw" using True iw_new by auto
    have iw: "iw \<le> m" "fst (fs ! (iw - 1)) = pg" "\<And>j. iw < j \<Longrightarrow> j \<le> m \<Longrightarrow> fst (fs ! (j - 1)) \<noteq> pg"
    proof -
      have "iw \<le> m \<and> ?P iw \<and> (\<forall>j. iw < j \<and> j \<le> m \<longrightarrow> \<not> ?P j)"
        by (rule newest_cases [of ?P m]) (use nz in auto)
      then have a: "iw \<le> m" "?P iw" "\<And>j. iw < j \<Longrightarrow> j \<le> m \<Longrightarrow> \<not> ?P j" by blast+
      have nth: "map fst (take m fs) ! (j - 1) = fst (fs ! (j - 1))" if "1 \<le> j" "j \<le> m" for j
        using that Cons.prems(4) by simp
      show "iw \<le> m" by (rule a(1))
      show "fst (fs ! (iw - 1)) = pg" using a(2) nth [OF nz(2) a(1)] by simp
      show "fst (fs ! (j - 1)) \<noteq> pg" if "iw < j" "j \<le> m" for j
        using a(3) [OF that] a(2) nth [of j] that nz(2) by auto
    qed
    obtain t0 d0 where f0: "fs ! (iw - 1) = (pg, t0, d0)" using iw(2) by (cases "fs ! (iw - 1)") auto
    define w where "w = (if iReCksum (pWal st) = 0 \<or> iw < iReCksum (pWal st) then (pWal st)\<lparr>iReCksum := iw\<rparr> else pWal st)"
    have st_w: "(if iReCksum (pWal st) = 0 \<or> iw < iReCksum (pWal st) then st\<lparr>pWal := pWal st\<lparr>iReCksum := iw\<rparr>\<rparr> else st) = st\<lparr>pWal := w\<rparr>"
      by (simp add: w_def)
    obtain st1 rc1 where wr: "sqlite3OsWrite (st\<lparr>pWal := w\<rparr>) d (walFrameOffset iw n + 24) = (st1, rc1)" by fastforce
    have wr': "sqlite3OsWrite (st\<lparr>pWal := w\<rparr>) (take n (snd p)) (walFrameOffset iw n + 24) = (st1, rc1)" using wr pg by (simp add: p)
    obtain st2 rc2 i2 o2 as2 l2 where rest: "frames_loop st1 n (c0 + 1) isC nT flags ps iFrame off pLast = (st2, rc2, i2, o2, as2, l2)"
      by (metis surj_pair)
    have rc: "rc1 = SQLITE_OK" "st' = st2" "rc2 = SQLITE_OK" "iFrame' = i2" "off' = o2" "as = False # as2" "pLast' = l2"
      using Cons.prems(1) unfolding eq if_P [OF True] st_w wr' prod.case rest by (auto split: if_splits)
    have ci: "c0 < iw" "iw \<le> length fs" using True iw(1) Cons.prems(4) by simp_all
    note ov = tx_overwrite [OF Cons.prems(2) ci f0 pg(2) w_def wr [unfolded rc(1)]]
    let ?fs = "fs[iw - 1 := (pg, t0, d)]"
    have len: "length ?fs = length fs" by simp
    have mf: "map fst ?fs = map fst fs"
    proof -
      have "map fst fs ! (iw - 1) = pg" using ci f0 by simp
      then show ?thesis using list_update_id [of "map fst fs" "iw - 1"] by (simp add: map_update)
    qed
    have mt: "map fst (take m ?fs) = map fst (take m fs)" by (metis mf take_map)
    have md: "fst ` set (drop m ?fs) = fst ` set (drop m fs)" by (metis drop_map mf set_map)
    have lm: "log_map (drop c0 ?fs) = (log_map (drop c0 fs))(pg \<mapsto> d)"
    proof -
      have "drop c0 ?fs = (drop c0 fs)[iw - 1 - c0 := (pg, t0, d)]" using ci by (simp add: drop_update_swap)
      moreover have "log_map ((drop c0 fs)[iw - 1 - c0 := (pg, t0, d)]) = (log_map (drop c0 fs))(pg \<mapsto> d)"
      proof (rule log_map_update)
        show "iw - 1 - c0 < length (drop c0 fs)" using ci by simp
        show "fst (drop c0 fs ! (iw - 1 - c0)) = pg" using ci f0 by simp
        show "\<forall>j. iw - 1 - c0 < j \<and> j < length (drop c0 fs) \<longrightarrow> fst (drop c0 fs ! j) \<noteq> pg"
        proof (intro allI impI)
          fix j assume j: "iw - 1 - c0 < j \<and> j < length (drop c0 fs)"
          then have jj: "c0 + j < length fs" "iw < c0 + j + 1" using ci by auto
          have e: "drop c0 fs ! j = fs ! (c0 + j)" using jj(1) by simp
          show "fst (drop c0 fs ! j) \<noteq> pg"
          proof (cases "c0 + j + 1 \<le> m")
            case True
            then show ?thesis using iw(3) [OF jj(2) True] e by simp
          next
            case False
            then have "fs ! (c0 + j) \<in> set (drop m fs)" using jj(1) by (auto simp: in_set_conv_nth intro!: exI [of _ "c0 + j - m"])
            then show ?thesis using Cons.prems(11) e by (auto simp: p)
          qed
        qed
      qed
      ultimately show ?thesis by simp
    qed
    have op: "open_frames (drop c0 ?fs)"
    proof -
      have "drop c0 ?fs = (drop c0 fs)[iw - 1 - c0 := (pg, t0, d)]" using ci by (simp add: drop_update_swap)
      moreover have "fs ! (iw - 1) \<in> set (drop c0 fs)" using ci by (auto simp: in_set_conv_nth intro!: exI [of _ "iw - 1 - c0"])
      then have "t0 = 0" using Cons.prems(13) f0 by (auto simp: open_frames_def)
      ultimately show ?thesis using Cons.prems(13) set_update_subset_insert [of "drop c0 fs" "iw - 1 - c0" "(pg, t0, d)"]
        unfolding open_frames_def by fastforce
    qed
    have tk: "take c0 ?fs = take c0 fs" using ci by (simp add: take_update_cancel)
    have conn: "mxFrame (hdr (pWal st1)) = m" "shm st1 = shm st"
      using ov(2,3) Cons.prems(8) by (simp_all add: same_conn_def io_only_def)
    have mn: "1 \<le> minFrame (pWal st1)" using Cons.prems(9) config_write [OF wr] by (simp add: config_def w_def split: if_splits)
    have "\<exists>fs'. tx_file st' be n ck c0 fs' \<and> iFrame' = length fs' \<and> off' = walFrameOffset (length fs' + 1) n \<and> take c0 fs' = take c0 ?fs \<and>
      map fst fs' = map fst ?fs @ map (\<lambda>(p, a). fst p) (filter snd (zip ps as2)) \<and> c0 \<le> length fs' \<and>
      log_map (drop c0 fs') = log_map (drop c0 ?fs) ++ map_of (rev ps) \<and>
      open_frames (if isC \<and> ps \<noteq> [] then butlast (drop c0 fs') else drop c0 fs') \<and>
      (isC \<and> ps \<noteq> [] \<longrightarrow> drop c0 fs' \<noteq> [] \<and> last fs' = (fst (last ps), nT, snd (last ps)) \<and> pLast' = Some (last ps)) \<and>
      same_conn (pWal st1) (pWal st') \<and> io_only st1 st'"
      by (rule Cons.IH [OF _ ov(1) Cons.prems(3)])
        (use rest rc conn mn rest_pages op Cons.prems(4-7,11) in \<open>simp_all add: mt [unfolded One_nat_def] md [unfolded One_nat_def] p\<close>)
    then obtain fs' where F: "tx_file st' be n ck c0 fs'" "iFrame' = length fs'" "off' = walFrameOffset (length fs' + 1) n" "take c0 fs' = take c0 ?fs"
      "map fst fs' = map fst ?fs @ map (\<lambda>(p, a). fst p) (filter snd (zip ps as2))" "c0 \<le> length fs'"
      "log_map (drop c0 fs') = log_map (drop c0 ?fs) ++ map_of (rev ps)"
      "open_frames (if isC \<and> ps \<noteq> [] then butlast (drop c0 fs') else drop c0 fs')"
      "isC \<and> ps \<noteq> [] \<longrightarrow> drop c0 fs' \<noteq> [] \<and> last fs' = (fst (last ps), nT, snd (last ps)) \<and> pLast' = Some (last ps)"
      "same_conn (pWal st1) (pWal st')" "io_only st1 st'" by blast
    have pos: "ps \<noteq> [] \<or> \<not> isC" using True by blast
    have lmf: "log_map (drop c0 fs') = log_map (drop c0 fs) ++ map_of (rev (p # ps))"
      unfolding F(7) lm by (simp add: p)
    note facts = F(1-3,6,8-9) same_conn_trans [OF ov(2) F(10)] io_only_trans [OF ov(3) F(11)] F(4) tk F(5) mf pos
    show ?thesis
      by (cases "ps = []"; intro exI [of _ fs'] conjI; (rule lmf | use facts in \<open>simp add: rc(6)\<close>))
  next
    case False
    define t where "t = (if isC \<and> ps = [] then nT else 0)"
    obtain st1 rc1 where wr: "walWriteOneFrame st n 0 flags (pg, d) t off = (st1, rc1)" by fastforce
    have wr': "walWriteOneFrame st n 0 flags p t off = (st1, rc1)" using wr by (simp add: p)
    obtain st2 rc2 i2 o2 as2 l2 where rest:
      "frames_loop st1 n (c0 + 1) isC nT flags ps (iFrame + 1) (off + (n + 24)) (Some p) = (st2, rc2, i2, o2, as2, l2)"
      by (metis surj_pair)
    have rc: "rc1 = SQLITE_OK" "st' = st2" "rc2 = SQLITE_OK" "iFrame' = i2" "off' = o2" "as = True # as2" "pLast' = l2"
      using Cons.prems(1) unfolding eq if_not_P [OF False] t_def [symmetric] wr' prod.case rest by (auto split: if_splits)
    note ap = tx_append [OF Cons.prems(2) pg(1,2) wr [unfolded Cons.prems(6) rc(1)]]
    let ?fs = "fs @ [(pg, t, d)]"
    have c0: "c0 \<le> length fs" using Cons.prems(3,4) by simp
    have dr: "drop c0 ?fs = drop c0 fs @ [(pg, t, d)]" "take c0 ?fs = take c0 fs" "take m ?fs = take m fs"
      "drop m ?fs = drop m fs @ [(pg, t, d)]" using c0 Cons.prems(4) by simp_all
    have lm: "log_map (drop c0 ?fs) = (log_map (drop c0 fs))(pg \<mapsto> d)"
      unfolding dr log_map_append by (simp add: log_map_def)
    have conn: "mxFrame (hdr (pWal st1)) = m" "shm st1 = shm st"
      using ap(2,3) Cons.prems(8) by (simp_all add: same_conn_def io_only_def)
    have mn: "1 \<le> minFrame (pWal st1)" using Cons.prems(9) config_one_frame [OF wr] by (simp add: config_def)
    have off: "off + (n + 24) = walFrameOffset (length ?fs + 1) n" by (simp add: Cons.prems(6) walFrameOffset_def)
    show ?thesis
    proof (cases "isC \<and> ps = []")
      case True
      then have e: "st' = st1" "iFrame' = length ?fs" "off' = walFrameOffset (length ?fs + 1) n" "as2 = []" "pLast' = Some p"
        using rest rc off Cons.prems(5) by auto
      have lmf: "log_map (drop c0 ?fs) = log_map (drop c0 fs) ++ map_of (rev (p # ps))"
        unfolding lm using True by (simp add: p)
      show ?thesis
        unfolding e rc(6)
        by (intro exI [of _ ?fs] conjI; (rule lmf | use ap True c0 Cons.prems(13) in \<open>simp add: dr p t_def\<close>))
    next
      case nl: False
      have op: "open_frames (drop c0 ?fs)" using Cons.prems(13) nl unfolding dr open_frames_append by (auto simp: open_frames_def t_def)
      have "\<exists>fs'. tx_file st' be n ck c0 fs' \<and> iFrame' = length fs' \<and> off' = walFrameOffset (length fs' + 1) n \<and> take c0 fs' = take c0 ?fs \<and>
        map fst fs' = map fst ?fs @ map (\<lambda>(p, a). fst p) (filter snd (zip ps as2)) \<and> c0 \<le> length fs' \<and>
        log_map (drop c0 fs') = log_map (drop c0 ?fs) ++ map_of (rev ps) \<and>
        open_frames (if isC \<and> ps \<noteq> [] then butlast (drop c0 fs') else drop c0 fs') \<and>
        (isC \<and> ps \<noteq> [] \<longrightarrow> drop c0 fs' \<noteq> [] \<and> last fs' = (fst (last ps), nT, snd (last ps)) \<and> pLast' = Some (last ps)) \<and>
        same_conn (pWal st1) (pWal st') \<and> io_only st1 st'"
        by (rule Cons.IH [OF _ ap(1) Cons.prems(3)])
          (use rest rc conn mn rest_pages op off Cons.prems(4,5,7,11) in \<open>simp_all add: dr p\<close>)
      then obtain fs' where F: "tx_file st' be n ck c0 fs'" "iFrame' = length fs'" "off' = walFrameOffset (length fs' + 1) n" "take c0 fs' = take c0 ?fs"
        "map fst fs' = map fst ?fs @ map (\<lambda>(p, a). fst p) (filter snd (zip ps as2))" "c0 \<le> length fs'"
        "log_map (drop c0 fs') = log_map (drop c0 ?fs) ++ map_of (rev ps)"
        "open_frames (if isC \<and> ps \<noteq> [] then butlast (drop c0 fs') else drop c0 fs')"
        "isC \<and> ps \<noteq> [] \<longrightarrow> drop c0 fs' \<noteq> [] \<and> last fs' = (fst (last ps), nT, snd (last ps)) \<and> pLast' = Some (last ps)"
        "same_conn (pWal st1) (pWal st')" "io_only st1 st'" by blast
      have pos: "ps \<noteq> [] \<or> \<not> isC" using nl by blast
      have lmf: "log_map (drop c0 fs') = log_map (drop c0 fs) ++ map_of (rev (p # ps))"
        unfolding F(7) lm by (simp add: p)
      note facts = F(1-3,6,8-9) same_conn_trans [OF ap(2) F(10)] io_only_trans [OF ap(3) F(11)] F(4,5) dr(2) pos
      show ?thesis
        by (cases "ps = []"; intro exI [of _ fs'] conjI; (rule lmf | use facts in \<open>simp add: rc(6) p\<close>))
    qed
  qed
qed

section \<open>Calls of a transaction\<close>

text \<open>A transaction that has written frames: \<open>fs\<close> are those in the log, the first \<open>c0\<close> committed.\<close>

definition tx_open :: "log_state \<Rightarrow> bool \<Rightarrow> nat \<Rightarrow> u32 \<Rightarrow> nat \<Rightarrow> frame list \<Rightarrow> bool" where
  "tx_open st be n ck c0 fs \<longleftrightarrow> tx_file st be n ck c0 fs \<and> c0 < length fs \<and> mxFrame (hdr (pWal st)) = length fs \<and>
     mxFrame (live st) = c0 \<and> index_ok (shm st) (length fs) (map fst fs) \<and> 1 \<le> minFrame (pWal st) \<and> open_frames (drop c0 fs)"

lemma tx_open_first: "tx_open st be n ck c0 fs \<Longrightarrow> frames_first st = c0 + 1"
  by (auto simp: tx_open_def frames_first_def)

definition pages_ok :: "nat \<Rightarrow> (u32 \<times> bytes) list \<Rightarrow> bool" where
  "pages_ok n ps \<longleftrightarrow> ps \<noteq> [] \<and> distinct (map fst ps) \<and> (\<forall>p \<in> set ps. fst p \<noteq> 0 \<and> length (snd p) = n)"

text \<open>What a call makes of the frames of its transaction.\<close>

definition tx_step :: "nat \<Rightarrow> frame list \<Rightarrow> frame list \<Rightarrow> (u32 \<times> bytes) list \<Rightarrow> bool" where
  "tx_step c0 fs fs' ps \<longleftrightarrow> take c0 fs' = take c0 fs \<and> c0 < length fs' \<and>
     log_map (drop c0 fs') = log_map (drop c0 fs) ++ map_of (rev ps)"

text \<open>What a commit leaves: the frames \<open>fs\<close>, the last one perhaps repeated, all of \<open>fs\<close> synced.\<close>

definition committed :: "log_state \<Rightarrow> bool \<Rightarrow> nat \<Rightarrow> u32 \<Rightarrow> nat \<Rightarrow> frame list \<Rightarrow> u32 \<Rightarrow> nat \<Rightarrow> bool" where
  "committed st be n ck c0 fs nT flags \<longleftrightarrow>
     (\<exists>k. log_ok st be n ck (fs @ replicate k (last fs))) \<and> fs \<noteq> [] \<and> fst (snd (last fs)) = nT \<and> open_frames (butlast (drop c0 fs)) \<and>
     live st = hdr (pWal st) \<and> nPage (hdr (pWal st)) = nT \<and> hszPage (hdr (pWal st)) = page_code n \<and>
     (WAL_SYNC_FLAGS flags \<noteq> 0 \<longrightarrow> (\<exists>q. pSynced st = log_prefix be n ck (aSalt (hdr (pWal st))) fs @ q))"

lemma frames_limit_open [simp]: "frames_limit st n False i = st"
  by (simp add: frames_limit_def)

text \<open>The end of a call: the entries of the wal-index, and the header.\<close>

lemma index_publish:
  assumes ix: "index_ok (shm st) (mxFrame (hdr (pWal st))) ps" "length ps = m" "0 \<notin> set qs"
    and call: "index_loop st m qs = (s', SQLITE_OK, i)" "st' = frames_publish s' n nT isC i"
  shows "i = m + length qs" "index_ok (shm st') (length (ps @ qs)) (ps @ qs)" "mxFrame (hdr (pWal st')) = m + length qs"
    "pWalFd st' = pWalFd st" "pSynced st' = pSynced st" "live st' = (if isC then hdr (pWal st') else live st)"
    "aSalt (hdr (pWal st')) = aSalt (hdr (pWal st))" "szPage (pWal st') = szPage (pWal st)" "iReCksum (pWal st') = iReCksum (pWal st)"
    "aFrameCksum (hdr (pWal st')) = aFrameCksum (hdr (pWal st))" "bigEndCksum (hdr (pWal st')) = bigEndCksum (hdr (pWal st))"
    "isC \<Longrightarrow> nPage (hdr (pWal st')) = nT" "hszPage (hdr (pWal st')) = page_code n"
proof -
  note l = index_loop_ok [OF ix call(1)]
  show "i = m + length qs" using l by simp
  have "shm st' = shm s'" by (simp add: call(2) frames_publish_def walIndexWriteHdr_def Let_def)
  then show "index_ok (shm st') (length (ps @ qs)) (ps @ qs)" using l index_commit by metis
  show "mxFrame (hdr (pWal st')) = m + length qs"
    "pWalFd st' = pWalFd st" "pSynced st' = pSynced st" "live st' = (if isC then hdr (pWal st') else live st)"
    "aSalt (hdr (pWal st')) = aSalt (hdr (pWal st))" "szPage (pWal st') = szPage (pWal st)" "iReCksum (pWal st') = iReCksum (pWal st)"
    "aFrameCksum (hdr (pWal st')) = aFrameCksum (hdr (pWal st))" "bigEndCksum (hdr (pWal st')) = bigEndCksum (hdr (pWal st))"
    "isC \<Longrightarrow> nPage (hdr (pWal st')) = nT" "hszPage (hdr (pWal st')) = page_code n"
    using l by (simp_all add: call(2) frames_publish_def walIndexWriteHdr_def Let_def page_code_def)
qed

text \<open>The call that starts a transaction.\<close>

lemma first_call_ok:
  assumes ok: "log_ok st be n ck fs" "live st = hdr (pWal st)" and call: "walFrames st (frames_first st) n pList nT isC flags rnd = (st', SQLITE_OK)"
    and pages: "pages_ok n pList" and params: "n < 2 ^ 32" "length rnd = 8" "0 < sectorSize st" "1 \<le> minFrame (pWal st)"
  shows "\<exists>be ck fs'. tx_step (length fs) fs fs' pList \<and>
    (if isC then committed st' be n ck (length fs) fs' nT flags else tx_open st' be n ck (length fs) fs')"
proof -
  have f0: "frames_first st = 0" using ok(2) by (simp add: frames_first_def)
  have ps: "pList \<noteq> []" "\<forall>p \<in> set pList. fst p \<noteq> 0 \<and> length (snd p) = n" using pages by (simp_all add: pages_ok_def)
  let ?tx = "tx_frames isC nT pList"
  obtain be' ck' k where w: "log_ok st' be' n ck' (fs @ ?tx @ replicate k (fst (last pList), nT, snd (last pList)))"
    "isC \<longrightarrow> live st' = hdr (pWal st') \<and> nPage (hdr (pWal st')) = nT \<and>
      (WAL_SYNC_FLAGS flags \<noteq> 0 \<longrightarrow> (\<exists>r. pSynced st' = log_prefix be' n ck' (aSalt (hdr (pWal st'))) (fs @ ?tx) @ r))"
    "\<not> isC \<longrightarrow> live st' = live st \<and> k = 0" "hszPage (hdr (pWal st')) = page_code n"
    using walFrames_ok [OF ok(1) call [unfolded f0] ps params(1-3)] by blast
  have ne: "?tx \<noteq> []" using ps(1) by (cases pList) auto
  have step: "tx_step (length fs) fs (fs @ ?tx) pList"
    using ne by (simp add: tx_step_def log_map_tx)
  have m: "mxFrame (hdr (pWal st)) = length fs" using ok(1) by (simp add: log_ok_def)
  show ?thesis
  proof (cases isC)
    case True
    have l: "last (fs @ ?tx) = (fst (last pList), nT, snd (last pList))" using tx_frames_ends [OF ps(1)] ne True by simp
    have "open_frames (butlast ?tx)" using tx_frames_open [of True nT pList] True by simp
    then have "committed st' be' n ck' (length fs) (fs @ ?tx) nT flags"
      unfolding committed_def l using w ne True by auto
    then show ?thesis using step True by auto
  next
    case False
    then have w': "log_ok st' be' n ck' (fs @ ?tx)" "live st' = live st" using w by simp_all
    have "open_frames ?tx" using tx_frames_open [of False nT pList] False by simp
    moreover have "minFrame (pWal st') = minFrame (pWal st)" using config_frames [OF call] by (simp add: config_def)
    moreover have "fs @ ?tx = (fs @ ?tx) @ map fst ([] :: (frame \<times> bytes) list)" by simp
    moreover obtain r where "pWalFd st' = log_prefix be' n ck' (aSalt (hdr (pWal st'))) (fs @ ?tx) @ r" using w'(1) ne by (auto simp: log_ok_def)
    then have "tx_frame_file st' be' n ck' (fs @ ?tx) []" by (simp add: tx_frame_file_def stored_def)
    ultimately have "tx_open st' be' n ck' (length fs) (fs @ ?tx)"
      using w' ne params(4) m ok(2) unfolding tx_open_def tx_file_def log_ok_def writer_def
      by (intro conjI exI [of _ "fs @ ?tx"] exI [of _ "[]"]) simp_all
    then show ?thesis using step False by auto
  qed
qed

text \<open>A later call.\<close>

lemma later_call_ok:
  assumes ok: "tx_open st be n ck c0 fs" and call: "walFrames st (frames_first st) n pList nT isC flags rnd = (st', SQLITE_OK)"
    and pages: "pages_ok n pList" and sec: "0 < sectorSize st"
  shows "\<exists>fs'. tx_step c0 fs fs' pList \<and>
    (if isC then committed st' be n ck c0 fs' nT flags else tx_open st' be n ck c0 fs')"
proof -
  let ?m = "length fs" and ?s = "aSalt (hdr (pWal st))"
  have o: "tx_file st be n ck c0 fs" "c0 < ?m" "mxFrame (hdr (pWal st)) = ?m" "mxFrame (live st) = c0" "index_ok (shm st) ?m (map fst fs)"
    "1 \<le> minFrame (pWal st)" "open_frames (drop c0 fs)" using ok by (simp_all add: tx_open_def)
  have f1: "frames_first st = c0 + 1" by (rule tx_open_first [OF ok])
  have m0: "(if ?m = 0 then walWriteHeader st n flags rnd else (st, SQLITE_OK)) = (st, SQLITE_OK)" using o(2) by auto
  have sz: "(unat (szPage (pWal st)) \<noteq> n) = False" using o(1) by (simp add: tx_file_def)
  obtain st2 rc2 il o2 as pl where fl: "frames_loop st n (c0 + 1) isC nT flags pList ?m (walFrameOffset (?m + 1) n) None = (st2, rc2, il, o2, as, pl)"
    by (metis surj_pair)
  note W2 = walFrames_def [of st "c0 + 1" n pList nT isC flags rnd, unfolded Let_def o(3) m0 prod.case simp_thms sz if_False fl]
  have rc2: "rc2 = SQLITE_OK" using call unfolding f1 W2 by (auto split: if_splits)
  have ps: "pList \<noteq> []" "distinct (map fst pList)" "\<forall>p \<in> set pList. fst p \<noteq> 0 \<and> length (snd p) = n" using pages by (simp_all add: pages_ok_def)
  have "\<exists>fs'. tx_file st2 be n ck c0 fs' \<and> il = length fs' \<and> o2 = walFrameOffset (length fs' + 1) n \<and> take c0 fs' = take c0 fs \<and>
      map fst fs' = map fst fs @ map (\<lambda>(p, a). fst p) (filter snd (zip pList as)) \<and> c0 \<le> length fs' \<and>
      log_map (drop c0 fs') = log_map (drop c0 fs) ++ map_of (rev pList) \<and>
      open_frames (if isC \<and> pList \<noteq> [] then butlast (drop c0 fs') else drop c0 fs') \<and>
      (isC \<and> pList \<noteq> [] \<longrightarrow> drop c0 fs' \<noteq> [] \<and> last fs' = (fst (last pList), nT, snd (last pList)) \<and> pl = Some (last pList)) \<and>
      same_conn (pWal st) (pWal st2) \<and> io_only st st2"
    by (rule tx_loop [OF fl [unfolded rc2] o(1) _ _ _ _ _ o(3,6) ps(2) _ ps(3) o(7)]) (use o in simp_all)
  then obtain fs' where F: "tx_file st2 be n ck c0 fs'" "il = length fs'" "o2 = walFrameOffset (length fs' + 1) n" "take c0 fs' = take c0 fs"
    "map fst fs' = map fst fs @ map (\<lambda>(p, a). fst p) (filter snd (zip pList as))"
    "log_map (drop c0 fs') = log_map (drop c0 fs) ++ map_of (rev pList)"
    "open_frames (if isC then butlast (drop c0 fs') else drop c0 fs')"
    "isC \<longrightarrow> drop c0 fs' \<noteq> [] \<and> last fs' = (fst (last pList), nT, snd (last pList)) \<and> pl = Some (last pList)"
    "same_conn (pWal st) (pWal st2)" "io_only st st2" using ps(1) by auto
  let ?new = "map (\<lambda>(p, a). fst p) (filter snd (zip pList as))"
  have len: "length fs' = ?m + length ?new" using arg_cong [OF F(5), of length] by simp
  have step: "tx_step c0 fs fs' pList" using F(4,6) o(2) len by (simp add: tx_step_def)
  have new0: "0 \<notin> set ?new" using ps(3) by (fastforce dest: set_zip_leftD)
  obtain st3 rc3 where rw: "(if isC \<and> iReCksum (pWal st2) \<noteq> 0 then walRewriteChecksums st2 il else (st2, SQLITE_OK)) = (st3, rc3)" by fastforce
  note W3 = W2 [unfolded rc2 simp_thms if_False rw prod.case]
  have rc3: "rc3 = SQLITE_OK" using call unfolding f1 W3 by (auto split: if_splits)
  show ?thesis
  proof (cases isC)
    case False
    then have "st3 = st2" using rw by simp
    have pad: "(case pl of Some p \<Rightarrow> if isC \<and> WAL_SYNC_FLAGS flags \<noteq> 0 then pad_and_sync st3 n flags p nT o2 else (st3, SQLITE_OK, 0)
        | None \<Rightarrow> (st3, SQLITE_OK, 0)) = (st2, SQLITE_OK, 0)" using False \<open>st3 = st2\<close> by (simp split: option.splits)
    obtain s5 rc5 i5 where ix: "index_loop st2 ?m ?new = (s5, rc5, i5)" by (metis surj_pair)
    have lim: "frames_limit st2 n isC i = st2" for i using False by simp
    note W5 = W3 [unfolded rc3 simp_thms if_False pad prod.case lim replicate_0 append_Nil2 ix]
    have rc5: "rc5 = SQLITE_OK" and st': "st' = frames_publish s5 n nT isC i5"
      using call unfolding f1 W5 by (auto split: if_splits)
    have c: "mxFrame (hdr (pWal st2)) = ?m" "shm st2 = shm st" "live st2 = live st"
      using F(9,10) o(3) by (simp_all add: same_conn_def io_only_def)
    have ixs: "index_ok (shm st2) (mxFrame (hdr (pWal st2))) (map fst fs)" "length (map fst fs) = ?m" using o(5) c by simp_all
    note P = index_publish [OF ixs new0 ix [unfolded rc5] st']
    have "tx_frame_file st' = tx_frame_file st2" by (intro ext) (simp add: tx_frame_file_def P(4,7))
    then have "tx_file st' be n ck c0 fs'" using F(1) unfolding tx_file_def P(7-11) by simp
    moreover have "minFrame (pWal st') = minFrame (pWal st)" using config_frames [OF call] by (simp add: config_def)
    ultimately have "tx_open st' be n ck c0 fs'"
      using P(2,3,6) o(2,4,6) F(7) False len c(3) unfolding tx_open_def F(5) [symmetric] by simp
    then show ?thesis using step False by auto
  next
    case True
    let ?c = "log_cksum be n (header_cksum be n ck ?s)"
    have s2: "aSalt (hdr (pWal st2)) = ?s" using F(9) by (simp add: same_conn_def)
    have lf: "last fs' = (fst (last pList), nT, snd (last pList))" "pl = Some (last pList)" "fs' \<noteq> []" using F(8) True by auto
    have W: "(\<exists>r. pWalFd st3 = log_prefix be n ck ?s fs' @ r) \<and> writer st3 be n ?s (?c fs') \<and> same_conn (pWal st) (pWal st3) \<and> io_only st st3"
    proof (cases "iReCksum (pWal st2) = 0")
      case re: True
      then have "st3 = st2" using rw by simp
      have A: "tx_frame_file st2 be n ck fs' []" "aFrameCksum (hdr (pWal st2)) = ?c fs'"
        using F(1) re unfolding tx_file_def s2 by auto
      then have "(\<exists>r. pWalFd st2 = log_prefix be n ck ?s fs' @ r) \<and> writer st2 be n ?s (?c fs')"
        using F(1) re by (simp add: tx_frame_file_def s2 stored_def writer_def tx_file_def)
      then show ?thesis using \<open>st3 = st2\<close> F(9,10) by simp
    next
      case False
      then have "walRewriteChecksums st2 (length fs') = (st3, SQLITE_OK)" using rw True rc3 F(2) by simp
      from rewrite_ok [OF F(1) False this] show ?thesis
        using same_conn_trans [OF F(9)] io_only_trans [OF F(10)] by (auto simp: s2)
    qed
    have s8: "length ?s = 8" and fok: "frames_ok n fs'" using o(1) F(1) by (simp_all add: tx_file_def)
    let ?B = "log_prefix be n ck ?s fs'"
    obtain r3 where f3: "pWalFd st3 = ?B @ r3" using W by blast
    have o2: "o2 = length ?B" using length_log_prefix [OF s8 fok] F(3) by simp
    let ?p = "fst (last pList)" and ?d = "snd (last pList)"
    have pd: "?p \<noteq> 0" "length ?d = n" using ps(1,3) by simp_all
    obtain st4 rc4 k where pad: "(if WAL_SYNC_FLAGS flags \<noteq> 0 then pad_and_sync st3 n flags (last pList) nT o2 else (st3, SQLITE_OK, 0)) = (st4, rc4, k)"
      by (metis surj_pair)
    have pad': "(case pl of Some p \<Rightarrow> if isC \<and> WAL_SYNC_FLAGS flags \<noteq> 0 then pad_and_sync st3 n flags p nT o2 else (st3, SQLITE_OK, 0)
        | None \<Rightarrow> (st3, SQLITE_OK, 0)) = (st4, rc4, k)" using True pad lf(2) by simp
    note W4 = W3 [unfolded rc3 simp_thms if_False pad' prod.case]
    have rc4: "rc4 = SQLITE_OK" using call unfolding f1 W4 by (auto split: if_splits)
    let ?pad = "replicate k (last fs')"
    let ?gs = "fs' @ ?pad"
    have S4: "(\<exists>r'. pWalFd st4 = log_prefix be n ck ?s ?gs @ r') \<and> writer st4 be n ?s (?c ?gs) \<and> same_conn (pWal st) (pWal st4) \<and>
      io_only st st4 \<and> (WAL_SYNC_FLAGS flags \<noteq> 0 \<longrightarrow> take (length ?B) (pSynced st4) = ?B)"
    proof (cases "WAL_SYNC_FLAGS flags \<noteq> 0")
      case sync: True
      have call': "pad_and_sync st3 n flags (?p, ?d) nT (length ?B) = (st4, SQLITE_OK, k)" using pad sync rc4 o2 by simp
      have sec3: "0 < sectorSize st3" using W sec by (simp add: io_only_def)
      obtain r' where r': "pWalFd st4 = ?B @ log_chain be n ?s (?c fs') (replicate k (?p, nT, ?d)) @ r'"
        "writer st4 be n ?s (log_cksum be n (?c fs') (replicate k (?p, nT, ?d)))"
        "io_only st3 st4" "cksum_only (pWal st3) (pWal st4)" "take (length ?B) (pSynced st4) = ?B"
        using pad_and_sync_ok [OF call' sec3 sync f3 _ pd(2)] W by metis
      have "log_prefix be n ck ?s ?gs = ?B @ log_chain be n ?s (?c fs') (replicate k (?p, nT, ?d))"
        "?c ?gs = log_cksum be n (?c fs') (replicate k (?p, nT, ?d))"
        unfolding log_prefix_append log_cksum_append lf(1) by (rule refl)+
      moreover have "same_conn (pWal st) (pWal st4)" "io_only st st4"
        using W same_conn_trans cksum_same_conn [OF r'(4)] io_only_trans r'(3) by blast+
      ultimately show ?thesis using r'(1,2,5) by simp
    next
      case False
      then have "st4 = st3" "k = 0" using pad by auto
      then show ?thesis using W False by simp
    qed
    have fok': "frames_ok n ?gs" using fok pd by (simp add: frames_ok_append lf(1) frames_ok_replicate)
    obtain r4 where f4: "pWalFd st4 = log_prefix be n ck ?s ?gs @ r4" using S4 by blast
    have l4: "length (log_prefix be n ck ?s ?gs) \<le> walFrameOffset (il + k + 1) n"
      using length_log_prefix [OF s8 fok', of be ck] F(2) by simp
    note lim = limit_ok [OF f4 l4, of isC]
    let ?st5 = "frames_limit st4 n isC (il + k + 1)"
    obtain s6 rc6 i6 where ix: "index_loop ?st5 ?m (?new @ replicate k ?p) = (s6, rc6, i6)" by (metis surj_pair)
    note W6 = W4 [unfolded rc4 simp_thms if_False lf(2) option.case ix prod.case]
    have rc6: "rc6 = SQLITE_OK" and st': "st' = frames_publish s6 n nT isC i6"
      using call unfolding f1 W6 by (auto split: if_splits)
    have c: "mxFrame (hdr (pWal ?st5)) = ?m" "shm ?st5 = shm st"
      using S4 o(3) lim(2,4) by (simp_all add: same_conn_def io_only_def)
    have ixs: "index_ok (shm ?st5) (mxFrame (hdr (pWal ?st5))) (map fst fs)" "length (map fst fs) = ?m" using o(5) c by simp_all
    have q0: "0 \<notin> set (?new @ replicate k ?p)" using new0 pd(1) by auto
    note P = index_publish [OF ixs q0 ix [unfolded rc6] st']
    have pgs: "map fst ?gs = map fst fs @ ?new @ replicate k ?p" using F(5) by (simp add: lf(1))
    have st4: "aSalt (hdr (pWal st4)) = ?s" "iReCksum (pWal st4) = 0" "unat (szPage (pWal st4)) = n" "aFrameCksum (hdr (pWal st4)) = ?c ?gs"
      "nativeCksum (pWal st4) \<longleftrightarrow> \<not> be" using S4 by (simp_all add: writer_def)
    have log: "log_ok st' be n ck ?gs"
      unfolding log_ok_def
    proof (intro conjI impI)
      show "iReCksum (pWal st') = 0" "length (aSalt (hdr (pWal st'))) = 8" "frames_ok n ?gs"
        unfolding P(7,9) lim(2) using st4 s8 fok' by simp_all
      show "mxFrame (hdr (pWal st')) = length ?gs" using P(3) len by simp
      have l: "length (map fst fs @ ?new @ replicate k ?p) = length ?gs" unfolding pgs [symmetric] by simp
      show "index_ok (shm st') (length ?gs) (map fst ?gs)" using P(2) unfolding l pgs .
      show "writer st' be n (aSalt (hdr (pWal st'))) (log_cksum be n (header_cksum be n ck (aSalt (hdr (pWal st')))) ?gs)"
        unfolding writer_def P(7-11) lim(2) st4 using s8 by simp
      show "\<exists>r. pWalFd st' = log_prefix be n ck (aSalt (hdr (pWal st'))) ?gs @ r"
        unfolding P(4,7) lim(2) st4 using lim(1) by blast
    qed
    have syn: "\<exists>q. pSynced st' = log_prefix be n ck (aSalt (hdr (pWal st'))) fs' @ q" if "WAL_SYNC_FLAGS flags \<noteq> 0"
    proof -
      have "take (length ?B) (pSynced st') = ?B" unfolding P(5) lim(3) using S4 that by blast
      then show ?thesis unfolding P(7) lim(2) st4 by (metis append_take_drop_id)
    qed
    have "committed st' be n ck c0 fs' nT flags"
      unfolding committed_def using log lf P(6,12,13) True F(7) syn by auto
    then show ?thesis using step True by auto
  qed
qed

section \<open>Transactions\<close>

text \<open>The pages that a transaction has written, the last content of each.\<close>

definition tx_pages :: "(u32 \<times> bytes) list list \<Rightarrow> content" where
  "tx_pages pss = map_of (rev (concat pss))"

lemma tx_pages_append: "tx_pages (pss @ qss) = tx_pages pss ++ tx_pages qss"
  by (simp add: tx_pages_def)

lemma tx_pages_Cons: "tx_pages (ps # pss) = map_of (rev ps) ++ tx_pages pss"
  by (simp add: tx_pages_def)

lemma config_spills: "tx_spills st n pss flags rnd = (st', rc) \<Longrightarrow> config st' = config st"
  by (induction pss arbitrary: st) (auto simp: Let_def split: prod.splits if_splits dest!: config_frames)

lemma spills_ok:
  "tx_spills st n pss flags rnd = (st', SQLITE_OK) \<Longrightarrow> tx_open st be n ck c0 fs \<Longrightarrow> \<forall>ps \<in> set pss. pages_ok n ps \<Longrightarrow>
    0 < sectorSize st \<Longrightarrow>
    \<exists>fs'. tx_open st' be n ck c0 fs' \<and> take c0 fs' = take c0 fs \<and> log_map (drop c0 fs') = log_map (drop c0 fs) ++ tx_pages pss"
proof (induction pss arbitrary: st fs)
  case Nil
  then show ?case by (intro exI [of _ fs]) (simp add: tx_pages_def)
next
  case (Cons ps pss)
  obtain st1 rc1 where w: "walFrames st (frames_first st) n ps 0 False flags rnd = (st1, rc1)" by fastforce
  have rc1: "rc1 = SQLITE_OK" and rest: "tx_spills st1 n pss flags rnd = (st', SQLITE_OK)"
    using Cons.prems(1) w by (auto split: if_splits)
  have ps: "pages_ok n ps" "\<forall>ps \<in> set pss. pages_ok n ps" using Cons.prems(3) by simp_all
  obtain fs1 where 1: "tx_step c0 fs fs1 ps" "tx_open st1 be n ck c0 fs1"
    using later_call_ok [OF Cons.prems(2) w [unfolded rc1] ps(1) Cons.prems(4)] by auto
  have "0 < sectorSize st1" using Cons.prems(4) config_frames [OF w] by (simp add: config_def)
  then obtain fs' where "tx_open st' be n ck c0 fs'" "take c0 fs' = take c0 fs1" "log_map (drop c0 fs') = log_map (drop c0 fs1) ++ tx_pages pss"
    using Cons.IH [OF rest 1(2) ps(2)] by blast
  then show ?case using 1(1) by (intro exI [of _ fs']) (simp add: tx_step_def tx_pages_Cons)
qed

text \<open>A transaction that has committed: \<open>tx\<close> are its frames.\<close>

lemma tx_commit_ok:
  assumes ok: "log_ok st be n ck fs" "live st = hdr (pWal st)" and call: "tx_commit st n spills pList nT flags rnd = (st', SQLITE_OK)"
    and pages: "\<forall>ps \<in> set (spills @ [pList]). pages_ok n ps"
    and params: "n < 2 ^ 32" "length rnd = 8" "0 < sectorSize st" "1 \<le> minFrame (pWal st)"
  obtains be' ck' tx where "committed st' be' n ck' (length fs) (fs @ tx) nT flags" "tx \<noteq> []" "log_map tx = tx_pages (spills @ [pList])"
proof -
  note result = that
  have drop0: "log_map (drop (length fs) fs) = Map.empty" by simp
  have fin: thesis if "tx_step (length fs) g fs' pList" "take (length fs) g = fs" "log_map (drop (length fs) g) = tx_pages spills"
    "committed st' be' n ck' (length fs) fs' nT flags" for be' ck' g fs'
  proof -
    define tx where "tx = drop (length fs) fs'"
    have "take (length fs) fs' = fs" using that(1,2) by (simp add: tx_step_def)
    then have "fs' = fs @ tx" unfolding tx_def by (metis append_take_drop_id)
    then have "committed st' be' n ck' (length fs) (fs @ tx) nT flags" using that(4) by simp
    moreover have "tx \<noteq> []" using that(1) by (simp add: tx_step_def tx_def)
    moreover have "log_map tx = tx_pages (spills @ [pList])"
      using that(1,3) by (simp add: tx_step_def tx_pages_append tx_def) (simp add: tx_pages_def)
    ultimately show thesis by (rule result)
  qed
  show thesis
  proof (cases spills)
    case Nil
    then have w: "walFrames st (frames_first st) n pList nT True flags rnd = (st', SQLITE_OK)" using call by (simp add: tx_commit_def)
    have "pages_ok n pList" using pages by simp
    from first_call_ok [OF ok w this params] obtain be' ck' fs' where
      "tx_step (length fs) fs fs' pList" "committed st' be' n ck' (length fs) fs' nT flags" by auto
    then show thesis using fin [of fs fs' be' ck'] Nil drop0 by (simp add: tx_pages_def)
  next
    case (Cons ps pss)
    obtain st1 rc1 where w: "walFrames st (frames_first st) n ps 0 False flags rnd = (st1, rc1)" by fastforce
    obtain st2 rc2 where sp: "tx_spills st1 n pss flags rnd = (st2, rc2)" by fastforce
    have rc: "rc1 = SQLITE_OK" "rc2 = SQLITE_OK" and c: "walFrames st2 (frames_first st2) n pList nT True flags rnd = (st', SQLITE_OK)"
      using call w sp by (auto simp: tx_commit_def Cons split: if_splits)
    have pg: "pages_ok n ps" "\<forall>ps \<in> set pss. pages_ok n ps" "pages_ok n pList" using pages by (simp_all add: Cons)
    obtain be' ck' fs1 where 1: "tx_step (length fs) fs fs1 ps" "tx_open st1 be' n ck' (length fs) fs1"
      using first_call_ok [OF ok w [unfolded rc(1)] pg(1) params] by auto
    have s1: "0 < sectorSize st1" using params(3) config_frames [OF w] by (simp add: config_def)
    obtain fs2 where 2: "tx_open st2 be' n ck' (length fs) fs2" "take (length fs) fs2 = take (length fs) fs1"
      "log_map (drop (length fs) fs2) = log_map (drop (length fs) fs1) ++ tx_pages pss"
      using spills_ok [OF sp [unfolded rc(2)] 1(2) pg(2) s1] by blast
    have s2: "0 < sectorSize st2" using s1 config_spills [OF sp] by (simp add: config_def)
    obtain fs' where 3: "tx_step (length fs) fs2 fs' pList" "committed st' be' n ck' (length fs) fs' nT flags"
      using later_call_ok [OF 2(1) c pg(3) s2] by auto
    show thesis
      by (rule fin [OF 3(1) _ _ 3(2)]) (use 1(1) 2(2,3) in \<open>simp_all add: tx_step_def Cons tx_pages_Cons drop0\<close>)
  qed
qed

section \<open>Crashes\<close>

text \<open>What a crash leaves of the log: where the last sync and the file agree, their bytes; anything
  elsewhere.\<close>

definition crash_log :: "log_state \<Rightarrow> bytes \<Rightarrow> bool" where
  "crash_log l f \<longleftrightarrow> (\<forall>i < length (pSynced l). i < length (pWalFd l) \<and> pSynced l ! i = pWalFd l ! i \<longrightarrow>
     i < length f \<and> f ! i = pSynced l ! i)"

lemma crash_prefix:
  assumes "crash_log l f" "pSynced l = B @ q" "pWalFd l = B @ r"
  shows "\<exists>q'. f = B @ q'"
proof -
  have b: "i < length f \<and> f ! i = B ! i" if "i < length B" for i
    using assms that by (auto simp: crash_log_def nth_append)
  have "length B \<le> length f"
  proof (rule ccontr)
    assume "\<not> length B \<le> length f"
    then show False using b [of "length f"] by simp
  qed
  then have "take (length B) f = B" using b by (intro nth_equalityI) (simp_all add: min_absorb2)
  then show ?thesis by (metis append_take_drop_id)
qed

text \<open>What a frame holds, read from the file.\<close>

lemma log_frame_data:
  assumes "f = log_prefix be n ck salt fs @ r" "length salt = 8" "frames_ok n fs" "1 \<le> i" "i \<le> length fs"
  shows "take n (drop (walFrameOffset i n + 24) f) = snd (snd (fs ! (i - 1)))" "length (snd (snd (fs ! (i - 1)))) = n"
    "walFrameOffset i n + 24 + n \<le> length f"
proof -
  obtain p t d where d: "fs ! (i - 1) = (p, t, d)" using prod_cases3 by blast
  have k: "i - 1 < length fs" using assms(4,5) by simp
  have dn: "length d = n" using assms(3) k d nth_mem [OF k] by (auto simp: frames_ok_def)
  have fk: "frames_ok n (take (i - 1) fs)" using assms(3) by (metis append_take_drop_id frames_ok_append)
  let ?c = "log_cksum be n (header_cksum be n ck salt) (take (Suc (i - 1)) fs)"
  let ?A = "log_prefix be n ck salt (take (i - 1) fs) @ frame_header p t salt ?c"
  obtain B where "log_chain be n salt (header_cksum be n ck salt) fs =
      log_chain be n salt (header_cksum be n ck salt) (take (i - 1) fs) @ frame_header p t salt ?c @ d @ B"
    using log_chain_nth [OF k d] by blast
  then have f: "f = ?A @ d @ B @ r" using assms(1) by (simp add: log_prefix_def)
  have l: "length ?A = walFrameOffset i n + 24"
    using length_log_prefix [OF assms(2) fk] length_frame_header [OF assms(2)] assms(4,5) by (simp add: min_absorb1)
  show "take n (drop (walFrameOffset i n + 24) f) = snd (snd (fs ! (i - 1)))" unfolding f l [symmetric] using dn d by simp
  show "length (snd (snd (fs ! (i - 1)))) = n" using d dn by simp
  show "walFrameOffset i n + 24 + n \<le> length f" unfolding f using l dn by simp
qed

lemma last_commit_end: "fs \<noteq> [] \<Longrightarrow> fst (snd (last fs)) \<noteq> 0 \<Longrightarrow> last_commit fs (length fs) = length fs"
  by (cases fs rule: rev_cases) (simp_all add: last_commit_def nth_append)

section \<open>Properties\<close>

text \<open>
  C1. A transaction whose commit returned SQLITE_OK with syncing on survives any crash, whether or
  not it had written pages to the log before the commit: whatever the file holds where it was not
  synced, recovery finds, after the frames that were in the log before, frames \<open>tx\<close> of the
  transaction, the last of them its commit frame. The newest of them for each page that the
  transaction wrote holds what it wrote last, and no other page has one.
\<close>

theorem wal_commit_durable:
  assumes "log_ok st be n ck fs" "live st = hdr (pWal st)"
    and "tx_commit st n spills pList nTruncate flags rnd = (st', SQLITE_OK)"
    and "\<forall>ps \<in> set (spills @ [pList]). pages_ok n ps" "nTruncate \<noteq> 0" "WAL_SYNC_FLAGS flags \<noteq> 0"
    and "page_size_ok n" "length rnd = 8" "0 < sectorSize st" "1 \<le> minFrame (pWal st)"
    and "crash_log st' (pWalFd r)" "restarted r aPrivate"
  shows "\<exists>r' tx. walIndexRecover r aPrivate = (r', SQLITE_OK) \<and> length (fs @ tx) \<le> mxFrame (hdr (pWal r')) \<and>
    log_map tx = tx_pages (spills @ [pList]) \<and> fst (snd (last tx)) = nTruncate \<and>
    (\<forall>i < length (fs @ tx). walFramePgno (shm r') (i + 1) = Some (fst ((fs @ tx) ! i)) \<and>
       take n (drop (walFrameOffset (i + 1) n + 24) (pWalFd r')) = snd (snd ((fs @ tx) ! i)))"
proof -
  have n: "n < 2 ^ 32" using assms(7) by (simp add: page_size_ok_def)
  obtain be' ck' tx where w: "committed st' be' n ck' (length fs) (fs @ tx) nTruncate flags" "tx \<noteq> []"
    "log_map tx = tx_pages (spills @ [pList])"
    by (rule tx_commit_ok [OF assms(1-4) n assms(8-10)])
  let ?salt = "aSalt (hdr (pWal st'))" and ?fs = "fs @ tx"
  obtain k q where c: "log_ok st' be' n ck' (?fs @ replicate k (last ?fs))" "fst (snd (last ?fs)) = nTruncate"
    "pSynced st' = log_prefix be' n ck' ?salt ?fs @ q"
    using w(1) assms(6) unfolding committed_def by blast
  have s8: "length ?salt = 8" and fok: "frames_ok n ?fs" using c(1) by (simp_all add: log_ok_def frames_ok_append)
  have ne: "?fs \<noteq> []" using w(2) by simp
  obtain x where "pWalFd st' = log_prefix be' n ck' ?salt ?fs @ x"
    using c(1) ne log_prefix_append [of be' n ck' ?salt ?fs "replicate k (last ?fs)"] by (auto simp: log_ok_def)
  then obtain rest where F: "pWalFd r = log_prefix be' n ck' ?salt ?fs @ rest" using crash_prefix [OF assms(11) c(3)] by blast
  have lc: "last_commit ?fs (length ?fs) = length ?fs" using last_commit_end [OF ne] c(2) assms(5) by simp
  have r: "faults r = []" "\<forall>h. \<not> isl (shm r h)" "shape (shm r)" "iReCksum (pWal r) = 0"
    "length (aPgno aPrivate) = 4096" "length (aHash aPrivate) = 8192"
    using assms(12) by (simp_all add: restarted_def)
  obtain r' qs where r': "walIndexRecover r aPrivate = (r', SQLITE_OK)" "pWalFd r' = pWalFd r"
    "index_ok (shm r') (mxFrame (hdr (pWal r'))) qs" "length qs = mxFrame (hdr (pWal r'))" "length ?fs \<le> length qs"
    "take (length ?fs) qs = map fst (take (length ?fs) ?fs)"
    using walIndexRecover_ok [OF F s8 fok log_longer [OF F s8 fok ne] assms(7) r] unfolding lc by blast
  have i: "walFramePgno (shm r') (i + 1) = Some (fst (?fs ! i)) \<and>
    take n (drop (walFrameOffset (i + 1) n + 24) (pWalFd r')) = snd (snd (?fs ! i))" if "i < length ?fs" for i
  proof -
    have "qs ! i = take (length ?fs) qs ! i" using that by simp
    also have "\<dots> = fst (?fs ! i)" unfolding r'(6) using that by (metis nth_map order_refl take_all)
    finally show ?thesis
      using index_pgno [OF r'(3), of "i + 1"] log_frame_data(1) [OF F s8 fok, of "i + 1"] that r'(2,5) by simp
  qed
  have "fst (snd (last tx)) = nTruncate" using c(2) w(2) by simp
  moreover have "length ?fs \<le> mxFrame (hdr (pWal r'))" using r'(4,5) by simp
  ultimately show ?thesis using r'(1) w(3) i by blast
qed

definition empty_log :: log_state where
  "empty_log = small_log\<lparr>pWal := (pWal small_log)\<lparr>hdr := (hdr (pWal small_log))\<lparr>mxFrame := 0\<rparr>\<rparr>, pWalFd := [],
     live := (hdr (pWal small_log))\<lparr>mxFrame := 0\<rparr>\<rparr>"

lemma empty_log_ok: "log_ok empty_log False 512 1 []" "live empty_log = hdr (pWal empty_log)" "0 < sectorSize empty_log"
  "1 \<le> minFrame (pWal empty_log)" "frames_first empty_log = 0"
  by (simp_all add: log_ok_def empty_log_def small_log_def frames_ok_def index_ok_def stale_shape frames_first_def)

text \<open>In it, a page that is written before the commit, and one with the commit.\<close>

lemma empty_log_spill:
  "\<exists>st'. walFrames empty_log 0 512 [(1, replicate 512 7)] 0 False 2 (replicate 8 3) = (st', SQLITE_OK) \<and>
     faults st' = [] \<and> mxFrame (hdr (pWal st')) = 1 \<and> szPage (pWal st') = 512 \<and> iReCksum (pWal st') = 0 \<and>
     \<not> padToSectorBoundary st' \<and> mxWalSize st' = -1 \<and> mxFrame (live st') = 0 \<and>
     index_ok (shm st') 0 [1] \<and> (\<forall>h. \<not> isl (shm st' h))"
proof -
  obtain pg where pg: "stale_index (walFramePage (Suc (length ([] :: u32 list)))) = Inr pg" by (simp add: stale_index_def)
  have ok: "index_ok stale_index 0 []" by (simp add: index_ok_def stale_shape)
  have p1: "(1 :: u32) \<noteq> 0" by simp
  obtain wi where wi: "walIndexAppend stale_index 0 (Suc (length ([] :: u32 list))) 1 = (wi, SQLITE_OK)" "index_ok wi 0 ([] @ [1])"
    "\<forall>h. isl (wi h) \<longleftrightarrow> isl (stale_index h)"
    by (rule index_append [OF ok pg p1])
  then have w: "walIndexAppend stale_index 0 (Suc 0) 1 = (wi, SQLITE_OK)" "index_ok wi 0 [1]" "\<forall>h. \<not> isl (wi h)"
    by (simp_all add: stale_shape)
  show ?thesis
    using w(2,3)
    by (simp add: walFrames_def walWriteHeader_def sqlite3OsWrite_def sqlite3OsSync_def next_fault_def Let_def walWriteOneFrame_def
        walWriteToLog_def walEncodeFrame_def pad_and_sync_def w(1) frames_publish_def
        empty_log_def small_log_def WAL_SYNC_FLAGS_def CKPT_SYNC_FLAGS_def)
qed

lemma empty_log_commit: "\<exists>st'. tx_commit empty_log 512 [[(1, replicate 512 7)]] [(2, replicate 512 8)] 2 2 (replicate 8 3) = (st', SQLITE_OK)"
proof -
  obtain st1 where s1: "walFrames empty_log 0 512 [(1, replicate 512 7)] 0 False 2 (replicate 8 3) = (st1, SQLITE_OK)"
    "faults st1 = []" "mxFrame (hdr (pWal st1)) = 1" "szPage (pWal st1) = 512" "iReCksum (pWal st1) = 0"
    "\<not> padToSectorBoundary st1" "mxWalSize st1 = -1" "mxFrame (live st1) = 0" "index_ok (shm st1) 0 [1]" "\<forall>h. \<not> isl (shm st1 h)"
    using empty_log_spill by blast
  have f1: "frames_first st1 = Suc 0" using s1(3,8) by (auto simp: frames_first_def)
  obtain pg where pg: "shm st1 (walFramePage (Suc (length [1 :: u32]))) = Inr pg" using s1(10) by (metis isl_def sum.exhaust)
  have ok: "index_ok (shm st1) 1 [1]" using index_commit [OF s1(9)] by simp
  have p2: "(2 :: u32) \<noteq> 0" by simp
  obtain wi where "walIndexAppend (shm st1) 1 (Suc (length [1 :: u32])) 2 = (wi, SQLITE_OK)" by (rule index_append [OF ok pg p2])
  then have w: "walIndexAppend (shm st1) (Suc 0) (Suc (Suc 0)) 2 = (wi, SQLITE_OK)" by simp
  have "\<exists>st'. walFrames st1 (Suc 0) 512 [(2, replicate 512 8)] 2 True 2 (replicate 8 3) = (st', SQLITE_OK)"
    using s1(2-7)
    by (simp add: walFrames_def sqlite3OsWrite_def sqlite3OsSync_def next_fault_def Let_def walWriteOneFrame_def
        walWriteToLog_def walEncodeFrame_def pad_and_sync_def frames_limit_def w WAL_SYNC_FLAGS_def)
  then show ?thesis using s1(1) by (simp add: tx_commit_def empty_log_ok(5) f1)
qed

theorem wal_commit_durable_witness:
  "\<exists>st' r' tx. tx_commit empty_log 512 [[(1, replicate 512 7)]] [(2, replicate 512 8)] 2 2 (replicate 8 3) = (st', SQLITE_OK) \<and>
     walIndexRecover (small_log\<lparr>pWalFd := pSynced st'\<rparr>) fresh_page = (r', SQLITE_OK) \<and>
     length tx \<le> mxFrame (hdr (pWal r')) \<and> log_map tx 1 = Some (replicate 512 7) \<and> log_map tx 2 = Some (replicate 512 8)"
proof -
  let ?sp = "[[(1 :: u32, replicate 512 (7 :: u8))]]" and ?p = "[(2 :: u32, replicate 512 (8 :: u8))]"
  obtain st' where w: "tx_commit empty_log 512 ?sp ?p 2 2 (replicate 8 3) = (st', SQLITE_OK)"
    using empty_log_commit by blast
  have h: "\<forall>ps \<in> set (?sp @ [?p]). pages_ok 512 ps" "(2 :: u32) \<noteq> 0" "WAL_SYNC_FLAGS 2 \<noteq> 0" "length (replicate 8 (3 :: u8)) = 8"
    by (simp_all add: WAL_SYNC_FLAGS_def pages_ok_def)
  have c: "crash_log st' (pWalFd (small_log\<lparr>pWalFd := pSynced st'\<rparr>))" by (simp add: crash_log_def)
  note d = wal_commit_durable [OF empty_log_ok(1,2) w h(1-3) page_size_512 h(4) empty_log_ok(3,4) c restarted_small]
  have "tx_pages (?sp @ [?p]) 1 = Some (replicate 512 7)" "tx_pages (?sp @ [?p]) 2 = Some (replicate 512 8)"
    by (simp_all add: tx_pages_def)
  with d w show ?thesis unfolding append_Nil by metis
qed

end
