(* ===== verification/Wal_Checkpoint.thy ===== *)
theory Wal_Checkpoint
  imports Wal_Log Wal_Sort
begin

text \<open>
  Checkpoints (wal.c): the newest versions of the pages in the log are copied into the database
  file, as far as the readers allow, and a log that is copied completely is restarted. Here the
  iterator over the wal-index, the log, the checkpoint information in shared memory, the locks of
  the readers and the database file meet.
  The state adds to that of the log the database file, what of it has been synced, how many other
  connections hold each of the read locks, and when the caller interrupts. A busy handler is the
  list of the lock counts it leaves behind whenever it asks for another attempt; after the end of
  the list it gives up. The connection is not in exclusive mode.
\<close>

section \<open>Model\<close>

subsection \<open>State, locks and the database file\<close>

record ckpt_state =
  cLog :: log_state
  pDbFd :: bytes
  dbSynced :: bytes
  readers :: "nat list"
  interrupts :: "bool list"

definition walLockExclusive :: "ckpt_state \<Rightarrow> nat \<Rightarrow> nat \<Rightarrow> ckpt_state \<times> rc" where
  "walLockExclusive st lockIdx n =
     (if list_ex (\<lambda>j. readers st ! j \<noteq> 0) [lockIdx..<lockIdx + n] then (st, SQLITE_BUSY)
      else (let ((rc, _), l) = next_fault (cLog st) in (st\<lparr>cLog := l\<rparr>, rc)))"

fun walBusyLock :: "ckpt_state \<Rightarrow> nat list list \<Rightarrow> nat \<Rightarrow> nat \<Rightarrow> ckpt_state \<times> nat list list \<times> rc" where
  "walBusyLock st [] lockIdx n = (let (st, rc) = walLockExclusive st lockIdx n in (st, [], rc))"
| "walBusyLock st (r # xBusy) lockIdx n =
     (let (st, rc) = walLockExclusive st lockIdx n
      in if rc = SQLITE_BUSY then walBusyLock (st\<lparr>readers := r\<rparr>) xBusy lockIdx n else (st, r # xBusy, rc))"

text \<open>The calls of the file system for the database file.\<close>

definition on_db :: "(log_state \<Rightarrow> log_state \<times> rc) \<Rightarrow> ckpt_state \<Rightarrow> ckpt_state \<times> rc" where
  "on_db f st =
     (let (l, rc) = f ((cLog st)\<lparr>pWalFd := pDbFd st, pSynced := dbSynced st\<rparr>)
      in (st\<lparr>cLog := (cLog st)\<lparr>faults := faults l\<rparr>, pDbFd := pWalFd l, dbSynced := pSynced l\<rparr>, rc))"

definition sqlite3OsTruncate :: "log_state \<Rightarrow> nat \<Rightarrow> log_state \<times> rc" where
  "sqlite3OsTruncate st n =
     (let ((rc, _), st) = next_fault st
      in (if rc = SQLITE_OK then st\<lparr>pWalFd := take n (pWalFd st) @ replicate (n - length (pWalFd st)) 0\<rparr> else st, rc))"

definition walPagesize :: "wal \<Rightarrow> nat" where
  "walPagesize w = unat ((ucast (hszPage (hdr w)) AND 0xfe00 :: u32) + push_bit 16 (ucast (hszPage (hdr w)) AND 1))"

subsection \<open>Restarting the log\<close>

text \<open>\<open>salt1\<close> is four random bytes.\<close>

definition walRestartHdr :: "log_state \<Rightarrow> bytes \<Rightarrow> log_state" where
  "walRestartHdr st salt1 =
     (let st = st\<lparr>pWal := hdr_upd (\<lambda>h. h\<lparr>mxFrame := 0, aSalt := sqlite3Put4byte (1 + the (sqlite3Get4byte (aSalt h))) @ salt1\<rparr>)
                    (pWal st\<lparr>nCkpt := nCkpt (pWal st) + 1\<rparr>)\<rparr>;
          st = walIndexWriteHdr st
      in st\<lparr>pInfo := \<lparr>nBackfill = 0,
              aReadMark = fold (\<lambda>i m. m[i := 0xffffffff]) [2..<5] ((aReadMark (pInfo st))[1 := 0]),
              nBackfillAttempted = 0\<rparr>\<rparr>)"

subsection \<open>How far the log may be copied\<close>

definition upd_pInfo :: "(ckpt_info \<Rightarrow> ckpt_info) \<Rightarrow> ckpt_state \<Rightarrow> ckpt_state" where
  "upd_pInfo f st = st\<lparr>cLog := (cLog st)\<lparr>pInfo := f (pInfo (cLog st))\<rparr>\<rparr>"

text \<open>The loop over the read marks; the last component says whether it was left for an error.\<close>

fun ckpt_marks :: "ckpt_state \<Rightarrow> nat list list \<Rightarrow> nat list \<Rightarrow> nat \<Rightarrow> rc \<Rightarrow> ckpt_state \<times> nat list list \<times> rc \<times> nat \<times> bool" where
  "ckpt_marks st xBusy [] mxSafeFrame rc = (st, xBusy, rc, mxSafeFrame, False)"
| "ckpt_marks st xBusy (i # is) mxSafeFrame rc0 =
     (let y = aReadMark (pInfo (cLog st)) ! i
      in if mxSafeFrame > y
         then (let (st, xBusy, rc) = walBusyLock st xBusy i 1
               in if rc = SQLITE_OK
                  then (let iMark = (if i = 1 then mxSafeFrame else 0xffffffff);
                            st = upd_pInfo (\<lambda>p. p\<lparr>aReadMark := (aReadMark p)[i := iMark]\<rparr>) st
                        in ckpt_marks st xBusy is mxSafeFrame rc)
                  else if rc = SQLITE_BUSY then ckpt_marks st [] is y rc
                  else (st, xBusy, rc, mxSafeFrame, True))
         else ckpt_marks st xBusy is mxSafeFrame rc0)"

subsection \<open>Copying\<close>

lemma iterator_advances:
  "(p', y) = walIteratorNext p \<Longrightarrow> y = Some x \<Longrightarrow> 2 ^ 32 - unat (iPrior p') < 2 ^ 32 - unat (iPrior p)"
  using walIteratorNext_measure [of p p' x] by simp

function copy_loop :: "ckpt_state \<Rightarrow> wal_iterator \<Rightarrow> nat \<Rightarrow> nat \<Rightarrow> nat \<Rightarrow> u32 \<Rightarrow> bool \<Rightarrow> ckpt_state \<times> rc" where
  "copy_loop st pIter szPg nBack mxSafeFrame mxPage mallocFailed =
     (case walIteratorNext pIter of
        (_, None) \<Rightarrow> (st, SQLITE_OK)
      | (pIter, Some (iDbpage, iFrame)) \<Rightarrow>
          (let (isInterrupted, st) = (case interrupts st of [] \<Rightarrow> (False, st) | b # bs \<Rightarrow> (b, st\<lparr>interrupts := bs\<rparr>))
           in if isInterrupted then (st, if mallocFailed then SQLITE_NOMEM else SQLITE_INTERRUPT)
              else if iFrame \<le> nBack \<or> iFrame > mxSafeFrame \<or> iDbpage > mxPage
              then copy_loop st pIter szPg nBack mxSafeFrame mxPage mallocFailed
              else (let (l, rc, zBuf) = sqlite3OsRead (cLog st) szPg (walFrameOffset iFrame szPg + WAL_FRAME_HDRSIZE);
                        st = st\<lparr>cLog := l\<rparr>
                    in if rc \<noteq> SQLITE_OK then (st, rc)
                       else (let (st, rc) = on_db (\<lambda>l. sqlite3OsWrite l zBuf ((unat iDbpage - 1) * szPg)) st
                             in if rc \<noteq> SQLITE_OK then (st, rc)
                                else copy_loop st pIter szPg nBack mxSafeFrame mxPage mallocFailed))))"
  by pat_completeness auto
termination
proof (relation "measure (\<lambda>(st, p, n, b, m, x, f). 2 ^ 32 - unat (iPrior p))", goal_cases)
  case 1
  show ?case by simp
next
  case (2 st pIter szPg nBack mxSafeFrame mxPage mallocFailed)
  show ?case using iterator_advances [OF 2(1,2)] by simp
next
  case (3 st pIter szPg nBack mxSafeFrame mxPage mallocFailed)
  show ?case using iterator_advances [OF 3(1,2)] by simp
qed

declare copy_loop.simps [simp del]

text \<open>The size of the database file is checked against what the checkpoint will make of it.\<close>

definition ckpt_size :: "ckpt_state \<Rightarrow> nat \<Rightarrow> u32 \<Rightarrow> ckpt_state \<times> rc" where
  "ckpt_size st szPg mxPage =
     (let nReq = unat mxPage * szPg; ((rc, _), l) = next_fault (cLog st); nSize = length (pDbFd st)
      in (st\<lparr>cLog := l\<rparr>,
          if rc = SQLITE_OK \<and> nSize < nReq \<and> nSize + 65536 + mxFrame (hdr (pWal l)) * szPg < nReq
          then SQLITE_CORRUPT else rc))"

text \<open>What happens under the lock of read-lock slot 0.\<close>

definition ckpt_backfill :: "ckpt_state \<Rightarrow> wal_iterator \<Rightarrow> nat \<Rightarrow> nat \<Rightarrow> u32 \<Rightarrow> nat \<Rightarrow> bool \<Rightarrow> ckpt_state \<times> rc" where
  "ckpt_backfill st pIter szPg mxSafeFrame mxPage sync_flags mallocFailed =
     (let nBack = nBackfill (pInfo (cLog st))
      in if aSalt (live (cLog st)) \<noteq> aSalt (hdr (pWal (cLog st))) then (st, SQLITE_OK)
         else (let st = upd_pInfo (\<lambda>p. p\<lparr>nBackfillAttempted := mxSafeFrame\<rparr>) st;
                   (l, rc) = sqlite3OsSync (cLog st) (CKPT_SYNC_FLAGS sync_flags);
                   (st, rc) = (if rc = SQLITE_OK then ckpt_size (st\<lparr>cLog := l\<rparr>) szPg mxPage else (st\<lparr>cLog := l\<rparr>, rc));
                   (st, rc) = (if rc = SQLITE_OK then copy_loop st pIter szPg nBack mxSafeFrame mxPage mallocFailed else (st, rc))
               in if rc \<noteq> SQLITE_OK then (st, rc)
                  else (let (st, rc) =
                              (if mxSafeFrame = mxFrame (live (cLog st))
                               then (let szDb = unat (nPage (hdr (pWal (cLog st)))) * szPg;
                                         (st, rc) = on_db (\<lambda>l. sqlite3OsTruncate l szDb) st
                                     in if rc = SQLITE_OK then on_db (\<lambda>l. sqlite3OsSync l (CKPT_SYNC_FLAGS sync_flags)) st
                                        else (st, rc))
                               else (st, SQLITE_OK))
                        in if rc = SQLITE_OK then (upd_pInfo (\<lambda>p. p\<lparr>nBackfill := mxSafeFrame\<rparr>) st, rc) else (st, rc))))"

subsection \<open>Checkpoint\<close>

abbreviation (input) SQLITE_CHECKPOINT_PASSIVE :: nat where "SQLITE_CHECKPOINT_PASSIVE \<equiv> 0"
abbreviation (input) SQLITE_CHECKPOINT_RESTART :: nat where "SQLITE_CHECKPOINT_RESTART \<equiv> 2"
abbreviation (input) SQLITE_CHECKPOINT_TRUNCATE :: nat where "SQLITE_CHECKPOINT_TRUNCATE \<equiv> 3"

text \<open>The first part; the last component says whether the function was left for an error.\<close>

definition ckpt_copy :: "ckpt_state \<Rightarrow> nat list list \<Rightarrow> nat \<Rightarrow> bool \<Rightarrow> ckpt_state \<times> nat list list \<times> rc \<times> bool" where
  "ckpt_copy st xBusy sync_flags mallocFailed =
     (let szPg = walPagesize (pWal (cLog st)); h = hdr (pWal (cLog st));
          (st, xBusy, rc, mxSafeFrame, out) = ckpt_marks st xBusy [1..<5] (mxFrame h) SQLITE_OK
      in if out then (st, xBusy, rc, True)
         else (let (st, pIter, rc) =
                     (if nBackfill (pInfo (cLog st)) < mxSafeFrame
                      then (let ((mrc, _), l) = next_fault (cLog st)
                            in case walIteratorInit (mrc = SQLITE_OK) (shm l) (mxFrame h) (nBackfill (pInfo l)) of
                                 Inl e \<Rightarrow> (st\<lparr>cLog := l\<rparr>, None, e) | Inr it \<Rightarrow> (st\<lparr>cLog := l\<rparr>, Some it, SQLITE_OK))
                      else (st, None, rc));
                   (st, xBusy, rc) =
                     (case pIter of
                        None \<Rightarrow> (st, xBusy, rc)
                      | Some it \<Rightarrow>
                          (let (st, xBusy, rc) = walBusyLock st xBusy 0 1
                           in if rc = SQLITE_OK
                              then (let (st, rc) = ckpt_backfill st it szPg mxSafeFrame (nPage h) sync_flags mallocFailed
                                    in (st, xBusy, rc))
                              else (st, xBusy, rc)))
               in (st, xBusy, if rc = SQLITE_BUSY then SQLITE_OK else rc, False)))"

definition ckpt_restart :: "ckpt_state \<Rightarrow> nat list list \<Rightarrow> nat \<Rightarrow> bytes \<Rightarrow> ckpt_state \<times> rc" where
  "ckpt_restart st xBusy eMode salt1 =
     (if nBackfill (pInfo (cLog st)) < mxFrame (hdr (pWal (cLog st))) then (st, SQLITE_BUSY)
      else if eMode \<ge> SQLITE_CHECKPOINT_RESTART
      then (let (st, xBusy, rc) = walBusyLock st xBusy 1 4
            in if rc = SQLITE_OK \<and> eMode = SQLITE_CHECKPOINT_TRUNCATE
               then (let (l, rc) = sqlite3OsTruncate (walRestartHdr (cLog st) salt1) 0 in (st\<lparr>cLog := l\<rparr>, rc))
               else (st, rc))
      else (st, SQLITE_OK))"

definition walCheckpoint :: "ckpt_state \<Rightarrow> nat \<Rightarrow> nat list list \<Rightarrow> nat \<Rightarrow> bytes \<Rightarrow> bool \<Rightarrow> ckpt_state \<times> rc" where
  "walCheckpoint st eMode xBusy sync_flags salt1 mallocFailed =
     (let (st, xBusy, rc, out) =
            (if nBackfill (pInfo (cLog st)) < mxFrame (hdr (pWal (cLog st)))
             then ckpt_copy st xBusy sync_flags mallocFailed else (st, xBusy, SQLITE_OK, False))
      in if out then (st, rc)
         else if rc = SQLITE_OK \<and> eMode \<noteq> SQLITE_CHECKPOINT_PASSIVE then ckpt_restart st xBusy eMode salt1
         else (st, rc))"

subsection \<open>Reading a page\<close>

text \<open>The readers: a page comes from the log, when the wal-index knows a frame for it, or else from
  the database file. \<open>noWal\<close> is \<open>readLock==0\<close>.\<close>

definition sqlite3WalReadFrame :: "log_state \<Rightarrow> nat \<Rightarrow> nat \<Rightarrow> log_state \<times> rc \<times> bytes" where
  "sqlite3WalReadFrame st iRead nOut =
     (let sz = walPagesize (pWal st)
      in sqlite3OsRead st (if nOut > sz then sz else nOut) (walFrameOffset iRead sz + WAL_FRAME_HDRSIZE))"

definition readDbPage :: "ckpt_state \<Rightarrow> bool \<Rightarrow> nat \<Rightarrow> u32 \<Rightarrow> ckpt_state \<times> rc \<times> bytes" where
  "readDbPage st noWal pageSize pgno =
     (let l = cLog st
      in case walFindFrame (shm l) noWal (mxFrame (hdr (pWal l))) (minFrame (pWal l)) pgno of
           Inl rc \<Rightarrow> (st, rc, [])
         | Inr iFrame \<Rightarrow>
             if iFrame \<noteq> 0
             then (let (l, rc, d) = sqlite3WalReadFrame l iFrame pageSize in (st\<lparr>cLog := l\<rparr>, rc, d))
             else (let ((rc, _), l) = next_fault l;
                       d = take pageSize (drop ((unat pgno - 1) * pageSize) (pDbFd st))
                   in (st\<lparr>cLog := l\<rparr>, rc, d @ replicate (pageSize - length d) 0)))"

section \<open>Bytes of a file\<close>

text \<open>A file is followed by zeros: what a short read of the database file is filled with.\<close>

definition byte_at :: "bytes \<Rightarrow> nat \<Rightarrow> u8" where
  "byte_at f i = (if i < length f then f ! i else 0)"

definition bytes_at :: "bytes \<Rightarrow> nat \<Rightarrow> nat \<Rightarrow> bytes" where
  "bytes_at f off n = map (\<lambda>i. byte_at f (off + i)) [0..<n]"

lemma length_bytes_at [simp]: "length (bytes_at f off n) = n" by (simp add: bytes_at_def)

lemma bytes_at_read: "take n (drop off f) @ replicate (n - length (take n (drop off f))) 0 = bytes_at f off n"
  by (rule nth_equalityI) (auto simp: bytes_at_def byte_at_def nth_append)

lemma byte_at_write: "byte_at (file_write f off d) i = (if off \<le> i \<and> i < off + length d then d ! (i - off) else byte_at f i)"
  by (cases "off \<le> length f") (auto simp: byte_at_def file_write_def Let_def nth_append min_def)

lemma bytes_at_write_other:
  "off' + n \<le> off \<or> off + length d \<le> off' \<Longrightarrow> bytes_at (file_write f off d) off' n = bytes_at f off' n"
  by (auto simp: bytes_at_def byte_at_write)

lemma bytes_at_write_same: "length d = n \<Longrightarrow> bytes_at (file_write f off d) off n = d"
  by (rule nth_equalityI) (auto simp: bytes_at_def byte_at_write)

lemma bytes_at_truncate:
  "off + n \<le> m \<Longrightarrow> bytes_at (take m f @ replicate (m - length f) 0) off n = bytes_at f off n"
  by (auto simp: bytes_at_def byte_at_def nth_append)

abbreviation page_off :: "nat \<Rightarrow> u32 \<Rightarrow> nat" where
  "page_off n p \<equiv> (unat p - 1) * n"

lemma pages_disjoint:
  fixes p q :: u32
  assumes "p \<noteq> q" "p \<noteq> 0" "q \<noteq> 0"
  shows "page_off n q + n \<le> page_off n p \<or> page_off n p + n \<le> page_off n q"
proof -
  have "unat p \<noteq> unat q" using assms(1) unsigned_word_eqI by blast
  moreover have "unat p \<noteq> 0" "unat q \<noteq> 0" using assms(2,3) by (simp_all add: unat_eq_0)
  ultimately consider "unat q \<le> unat p - 1" | "unat p \<le> unat q - 1" by linarith
  then show ?thesis
  proof cases
    case 1
    then have "Suc (unat q - 1) * n \<le> (unat p - 1) * n" using \<open>unat q \<noteq> 0\<close> by (intro mult_le_mono1) simp
    then show ?thesis by (simp add: add.commute)
  next
    case 2
    then have "Suc (unat p - 1) * n \<le> (unat q - 1) * n" using \<open>unat p \<noteq> 0\<close> by (intro mult_le_mono1) simp
    then show ?thesis by (simp add: add.commute)
  qed
qed

section \<open>What the steps leave alone\<close>

text \<open>The checkpoint works on a log that nobody changes.\<close>

definition same_log :: "ckpt_state \<Rightarrow> ckpt_state \<Rightarrow> bool" where
  "same_log st st' \<longleftrightarrow> pWal (cLog st') = pWal (cLog st) \<and> pWalFd (cLog st') = pWalFd (cLog st) \<and>
     shm (cLog st') = shm (cLog st) \<and> live (cLog st') = live (cLog st)"

text \<open>The locks and marks, and the synced part of the files.\<close>

definition same_locks :: "ckpt_state \<Rightarrow> ckpt_state \<Rightarrow> bool" where
  "same_locks st st' \<longleftrightarrow> pInfo (cLog st') = pInfo (cLog st) \<and> readers st' = readers st"

definition same_files :: "ckpt_state \<Rightarrow> ckpt_state \<Rightarrow> bool" where
  "same_files st st' \<longleftrightarrow> pDbFd st' = pDbFd st \<and> dbSynced st' = dbSynced st \<and> pSynced (cLog st') = pSynced (cLog st)"

lemma same_refl [simp]: "same_log st st" "same_locks st st" "same_files st st"
  by (simp_all add: same_log_def same_locks_def same_files_def)

lemma same_trans:
  "same_log a b \<Longrightarrow> same_log b c \<Longrightarrow> same_log a c" "same_locks a b \<Longrightarrow> same_locks b c \<Longrightarrow> same_locks a c"
  "same_files a b \<Longrightarrow> same_files b c \<Longrightarrow> same_files a c"
  by (simp_all add: same_log_def same_locks_def same_files_def)

text \<open>A reader that keeps its lock, also while the busy handler waits.\<close>

definition held :: "nat \<Rightarrow> ckpt_state \<Rightarrow> nat list list \<Rightarrow> bool" where
  "held i st xBusy \<longleftrightarrow> readers st ! i \<noteq> 0 \<and> (\<forall>r \<in> set xBusy. r ! i \<noteq> 0)"

lemma next_fault_ckpt:
  assumes "next_fault l = (x, l')"
  obtains f where "l' = l\<lparr>faults := f\<rparr>"
proof (cases "faults l")
  case Nil
  then have "l' = l\<lparr>faults := []\<rparr>" using assms by (simp add: next_fault_def)
  then show ?thesis by (rule that)
next
  case (Cons a r)
  then have "l' = l\<lparr>faults := r\<rparr>" using assms by (simp add: next_fault_def)
  then show ?thesis by (rule that)
qed

lemma lock_exclusive:
  assumes "walLockExclusive st j n = (st', rc)"
  shows "same_log st st' \<and> same_locks st st' \<and> same_files st st' \<and> (j \<le> i \<and> i < j + n \<and> readers st ! i \<noteq> 0 \<longrightarrow> rc = SQLITE_BUSY)"
proof (cases "list_ex (\<lambda>j. readers st ! j \<noteq> 0) [j..<j + n]")
  case True
  then show ?thesis using assms by (simp add: walLockExclusive_def)
next
  case False
  obtain x k l where n: "next_fault (cLog st) = ((x, k), l)" by (metis surj_pair)
  obtain f where l: "l = (cLog st)\<lparr>faults := f\<rparr>" by (rule next_fault_ckpt [OF n])
  have "st' = st\<lparr>cLog := l\<rparr>" using assms False n by (simp add: walLockExclusive_def)
  then have "same_log st st' \<and> same_locks st st' \<and> same_files st st'"
    by (simp add: same_log_def same_locks_def same_files_def l)
  then show ?thesis using False by (auto simp: list_ex_iff)
qed

lemma busy_lock:
  "walBusyLock st xb j n = (st', xb', rc) \<Longrightarrow>
     same_log st st' \<and> same_files st st' \<and> pInfo (cLog st') = pInfo (cLog st) \<and>
     (held i st xb \<longrightarrow> held i st' xb' \<and> (j \<le> i \<and> i < j + n \<longrightarrow> rc = SQLITE_BUSY))"
proof (induction st xb j n arbitrary: st' xb' rc rule: walBusyLock.induct)
  case (1 st j n)
  obtain s1 r1 where l: "walLockExclusive st j n = (s1, r1)" by fastforce
  then show ?case using 1 lock_exclusive [OF l, of i] by (auto simp: held_def same_locks_def)
next
  case (2 st r xb j n)
  obtain s1 r1 where l: "walLockExclusive st j n = (s1, r1)" by fastforce
  note k = lock_exclusive [OF l, of i]
  show ?case
  proof (cases "r1 = SQLITE_BUSY")
    case True
    have "walBusyLock (s1\<lparr>readers := r\<rparr>) xb j n = (st', xb', rc)" using 2(2) l True by simp
    note ih = 2(1) [OF l [symmetric] refl True this]
    have c: "cLog (s1\<lparr>readers := r\<rparr>) = cLog s1" "pDbFd (s1\<lparr>readers := r\<rparr>) = pDbFd s1" "dbSynced (s1\<lparr>readers := r\<rparr>) = dbSynced s1"
      by simp_all
    have "same_log st (s1\<lparr>readers := r\<rparr>)" "same_files st (s1\<lparr>readers := r\<rparr>)" "pInfo (cLog s1) = pInfo (cLog st)"
      using k by (simp_all add: same_log_def same_files_def same_locks_def)
    moreover have "held i st (r # xb) \<longrightarrow> held i (s1\<lparr>readers := r\<rparr>) xb" by (simp add: held_def)
    ultimately show ?thesis using ih same_trans by (metis c(1))
  next
    case False
    then have e: "st' = s1" "xb' = r # xb" "rc = r1" using 2(2) l by simp_all
    show ?thesis using k unfolding e by (auto simp: held_def same_locks_def)
  qed
qed

lemma marks:
  "ckpt_marks st xb is m rc0 = (st', xb', rc, m', out) \<Longrightarrow>
     same_log st st' \<and> same_files st st' \<and> nBackfill (pInfo (cLog st')) = nBackfill (pInfo (cLog st)) \<and> m' \<le> m \<and>
     (held i st xb \<longrightarrow> held i st' xb' \<and> aReadMark (pInfo (cLog st')) ! i = aReadMark (pInfo (cLog st)) ! i \<and>
        (\<not> out \<and> i \<in> set is \<longrightarrow> m' \<le> aReadMark (pInfo (cLog st)) ! i))"
proof (induction st xb "is" m rc0 arbitrary: st' xb' rc m' out rule: ckpt_marks.induct)
  case (1 st xb m rc)
  then show ?case by simp
next
  case (2 st xb j "is" m rc0)
  note ih1 = 2(1) and ih2 = 2(2) and ih3 = 2(3) and prem = 2(4)
  define y where "y = aReadMark (pInfo (cLog st)) ! j"
  show ?case
  proof (cases "m > y")
    case False
    then have "ckpt_marks st xb is m rc0 = (st', xb', rc, m', out)" using prem by (simp add: y_def)
    from ih3 [OF y_def False this] False show ?thesis by (auto simp: y_def)
  next
    case True
    obtain s1 xb1 rc1 where l: "walBusyLock st xb j 1 = (s1, xb1, rc1)" using prod_cases3 by blast
    note k = busy_lock [OF l, of i]
    consider "rc1 = SQLITE_OK" | "rc1 = SQLITE_BUSY" | "rc1 \<noteq> SQLITE_OK" "rc1 \<noteq> SQLITE_BUSY" by blast
    then show ?thesis
    proof cases
      case 1
      define s2 where "s2 = upd_pInfo (\<lambda>p. p\<lparr>aReadMark := (aReadMark p)[j := if j = 1 then m else 0xffffffff]\<rparr>) s1"
      have "ckpt_marks s2 xb1 is m rc1 = (st', xb', rc, m', out)"
        using prem l True 1 by (simp add: y_def [symmetric] s2_def)
      note ih = ih1 [OF y_def True l [symmetric] refl refl 1 refl s2_def this]
      have s2: "same_log s1 s2" "same_files s1 s2" "nBackfill (pInfo (cLog s2)) = nBackfill (pInfo (cLog s1))"
        "held i s1 xb1 \<longrightarrow> held i s2 xb1" "j \<noteq> i \<Longrightarrow> aReadMark (pInfo (cLog s2)) ! i = aReadMark (pInfo (cLog s1)) ! i"
        by (simp_all add: s2_def upd_pInfo_def same_log_def same_files_def held_def)
      have "held i st xb \<Longrightarrow> j \<noteq> i" using k 1 by auto
      then show ?thesis using ih k s2 same_trans(1,3) by (metis set_ConsD)
    next
      case 2
      have r: "ckpt_marks s1 [] is y rc1 = (st', xb', rc, m', out)"
        using prem l True 2 by (simp add: y_def [symmetric])
      have ok: "rc1 \<noteq> SQLITE_OK" using 2 by simp
      note ih = ih2 [OF y_def True l [symmetric] refl refl ok 2 r]
      have r: "held i st' xb' \<and> aReadMark (pInfo (cLog st')) ! i = aReadMark (pInfo (cLog st)) ! i \<and>
          (\<not> out \<and> i \<in> set (j # is) \<longrightarrow> m' \<le> aReadMark (pInfo (cLog st)) ! i)" if h: "held i st xb"
      proof -
        have h1: "held i s1 []" "pInfo (cLog s1) = pInfo (cLog st)" using h k by (simp_all add: held_def)
        have "m' \<le> aReadMark (pInfo (cLog st)) ! i" if "i = j" using ih that by (simp add: y_def)
        then show ?thesis using ih h1 by (metis set_ConsD)
      qed
      have "same_log st st'" "same_files st st'" using ih k same_trans(1,3) by blast+
      moreover have "m' \<le> m" "nBackfill (pInfo (cLog st')) = nBackfill (pInfo (cLog st))" using ih k True by simp_all
      ultimately show ?thesis using r by blast
    next
      case 3
      then have e: "st' = s1" "xb' = xb1" "m' = m" "out" using prem l True by (simp_all add: y_def [symmetric])
      show ?thesis using k e(4) unfolding e(1-3) by simp
    qed
  qed
qed

section \<open>Copying the pages\<close>

text \<open>The loop over the pages that the iterator returns.\<close>

fun copy_list :: "ckpt_state \<Rightarrow> (u32 \<times> nat) list \<Rightarrow> nat \<Rightarrow> nat \<Rightarrow> nat \<Rightarrow> u32 \<Rightarrow> bool \<Rightarrow> ckpt_state \<times> rc" where
  "copy_list st [] n b m x mf = (st, SQLITE_OK)"
| "copy_list st ((p, f) # l) n b m x mf =
     (let (isInterrupted, st) = (case interrupts st of [] \<Rightarrow> (False, st) | i # is \<Rightarrow> (i, st\<lparr>interrupts := is\<rparr>))
      in if isInterrupted then (st, if mf then SQLITE_NOMEM else SQLITE_INTERRUPT)
         else if f \<le> b \<or> f > m \<or> p > x then copy_list st l n b m x mf
         else (let (g, rc, zBuf) = sqlite3OsRead (cLog st) n (walFrameOffset f n + 24); st = st\<lparr>cLog := g\<rparr>
               in if rc \<noteq> SQLITE_OK then (st, rc)
                  else (let (st, rc) = on_db (\<lambda>l. sqlite3OsWrite l zBuf (page_off n p)) st
                        in if rc \<noteq> SQLITE_OK then (st, rc) else copy_list st l n b m x mf)))"

lemma copy_loop_list: "copy_loop st it n b m x mf = copy_list st (iterator_pages it) n b m x mf"
proof (induction it arbitrary: st rule: iterator_pages.induct)
  case (1 it)
  obtain it' o' where i: "walIteratorNext it = (it', o')" by fastforce
  show ?case
  proof (cases o')
    case None
    then show ?thesis using i by (simp add: copy_loop.simps [of st it] iterator_pages.simps [of it])
  next
    case (Some a)
    obtain p f where a: "a = (p, f)" by fastforce
    have "copy_loop s it' n b m x mf = copy_list s (iterator_pages it') n b m x mf" for s
      using 1 [OF i [symmetric] Some] by blast
    then show ?thesis
      unfolding copy_loop.simps [of st it] iterator_pages.simps [of it] i Some a prod.case option.case copy_list.simps
      by (simp only:)
  qed
qed

lemma read_bytes:
  assumes "sqlite3OsRead l n off = (l', rc, d)"
  obtains f where "l' = l\<lparr>faults := f\<rparr>" "d = bytes_at (pWalFd l) off n"
proof -
  obtain x k l1 where nf: "next_fault l = ((x, k), l1)" by (metis surj_pair)
  obtain f where f: "l1 = l\<lparr>faults := f\<rparr>" by (rule next_fault_ckpt [OF nf])
  have "l' = l\<lparr>faults := f\<rparr>" "d = bytes_at (pWalFd l) off n"
    using assms nf unfolding bytes_at_read [symmetric] by (simp_all add: sqlite3OsRead_def Let_def f)
  then show ?thesis by (rule that)
qed

text \<open>A write of the database file, complete or torn.\<close>

lemma db_write:
  assumes "on_db (\<lambda>l. sqlite3OsWrite l d off) st = (st', rc)"
  obtains f k where "st' = st\<lparr>cLog := (cLog st)\<lparr>faults := f\<rparr>, pDbFd := file_write (pDbFd st) off (take k d)\<rparr>"
    "rc = SQLITE_OK \<longrightarrow> length d \<le> k"
proof -
  obtain x k l1 where nf: "next_fault ((cLog st)\<lparr>pWalFd := pDbFd st, pSynced := dbSynced st\<rparr>) = ((x, k), l1)" by (metis surj_pair)
  obtain f where f: "l1 = (cLog st)\<lparr>pWalFd := pDbFd st, pSynced := dbSynced st\<rparr>\<lparr>faults := f\<rparr>" by (rule next_fault_ckpt [OF nf])
  have "rc = x" "st' = st\<lparr>cLog := (cLog st)\<lparr>faults := f\<rparr>, pDbFd := file_write (pDbFd st) off (if x = SQLITE_OK then d else take k d)\<rparr>"
    using assms nf by (auto simp: on_db_def sqlite3OsWrite_def f)
  then show ?thesis using that [where f = f and k = "if x = SQLITE_OK then length d else k"] by auto
qed

definition copied_pages :: "(u32 \<times> nat) list \<Rightarrow> nat \<Rightarrow> nat \<Rightarrow> u32 \<Rightarrow> (u32 \<times> nat) set" where
  "copied_pages l b m x = {(p, f). (p, f) \<in> set l \<and> b < f \<and> f \<le> m \<and> p \<le> x}"

lemma copy_list_spec:
  assumes "distinct (map fst l)" "0 \<notin> fst ` set l" "copy_list st l n b m x mf = (st', rc)"
  shows "same_log st st' \<and> same_locks st st' \<and> dbSynced st' = dbSynced st \<and> pSynced (cLog st') = pSynced (cLog st) \<and>
    (\<forall>q. q \<noteq> 0 \<and> q \<notin> fst ` copied_pages l b m x \<longrightarrow> bytes_at (pDbFd st') (page_off n q) n = bytes_at (pDbFd st) (page_off n q) n) \<and>
    (rc = SQLITE_OK \<longrightarrow> (\<forall>(p, f) \<in> copied_pages l b m x.
       bytes_at (pDbFd st') (page_off n p) n = bytes_at (pWalFd (cLog st)) (walFrameOffset f n + 24) n))"
  using assms
proof (induction l arbitrary: st)
  case Nil
  then show ?case by (auto simp: copied_pages_def)
next
  case (Cons a l)
  obtain p f where a: "a = (p, f)" by fastforce
  have d: "distinct (map fst l)" "0 \<notin> fst ` set l" "p \<notin> fst ` set l" "p \<noteq> 0" using Cons.prems(1,2) a by auto
  obtain isI s0 where s0: "(case interrupts st of [] \<Rightarrow> (False, st) | i # is \<Rightarrow> (i, st\<lparr>interrupts := is\<rparr>)) = (isI, s0)" by fastforce
  have e0: "cLog s0 = cLog st" "pDbFd s0 = pDbFd st" "dbSynced s0 = dbSynced st" "readers s0 = readers st"
    using s0 by (auto split: list.splits)
  note eq = Cons.prems(3) [unfolded a copy_list.simps s0 Let_def prod.case]
  have cp: "copied_pages (a # l) b m x = (if b < f \<and> f \<le> m \<and> p \<le> x then {(p, f)} else {}) \<union> copied_pages l b m x"
    by (auto simp: copied_pages_def a)
  have sub: "fst ` copied_pages l b m x \<subseteq> fst ` set l" by (auto simp: copied_pages_def)
  consider "isI" | "\<not> isI" "f \<le> b \<or> f > m \<or> p > x" | "\<not> isI" "\<not> (f \<le> b \<or> f > m \<or> p > x)" by blast
  then show ?case
  proof cases
    case 1
    then have "st' = s0" "rc \<noteq> SQLITE_OK" using eq by (auto split: if_splits)
    then show ?thesis using e0 by (simp add: same_log_def same_locks_def)
  next
    case 2
    then have r: "copy_list s0 l n b m x mf = (st', rc)" using eq by simp
    have "copied_pages (a # l) b m x = copied_pages l b m x" using 2(2) unfolding cp by auto
    then show ?thesis using Cons.IH [OF d(1,2) r] e0 by (simp add: same_log_def same_locks_def)
  next
    case 3
    obtain g rc1 zb where rd: "sqlite3OsRead (cLog s0) n (walFrameOffset f n + 24) = (g, rc1, zb)" using prod_cases3 by blast
    obtain fl where g: "g = (cLog s0)\<lparr>faults := fl\<rparr>" "zb = bytes_at (pWalFd (cLog s0)) (walFrameOffset f n + 24) n"
      by (rule read_bytes [OF rd])
    obtain s1 rc2 where w: "on_db (\<lambda>l. sqlite3OsWrite l zb (page_off n p)) (s0\<lparr>cLog := g\<rparr>) = (s1, rc2)" by fastforce
    obtain f2 k where s1: "s1 = (s0\<lparr>cLog := g\<rparr>)\<lparr>cLog := (cLog (s0\<lparr>cLog := g\<rparr>))\<lparr>faults := f2\<rparr>,
        pDbFd := file_write (pDbFd (s0\<lparr>cLog := g\<rparr>)) (page_off n p) (take k zb)\<rparr>"
      and k: "rc2 = SQLITE_OK \<longrightarrow> length zb \<le> k"
      by (rule db_write [OF w])
    have p: "p \<in> fst ` copied_pages (a # l) b m x" using 3 unfolding cp by auto
    have other: "bytes_at (pDbFd s1) (page_off n q) n = bytes_at (pDbFd st) (page_off n q) n" if "q \<noteq> 0" "q \<noteq> p" for q
    proof -
      have "length (take k zb) \<le> n" by (simp add: g(2))
      then have "page_off n q + n \<le> page_off n p \<or> page_off n p + length (take k zb) \<le> page_off n q"
        using pages_disjoint [of p q n] that d(4) by auto
      then show ?thesis by (simp add: s1 e0 bytes_at_write_other)
    qed
    have s1': "same_log st s1" "same_locks st s1" "dbSynced s1 = dbSynced st" "pSynced (cLog s1) = pSynced (cLog st)"
      using e0 by (simp_all add: s1 g(1) same_log_def same_locks_def)
    consider "rc1 \<noteq> SQLITE_OK" | "rc1 = SQLITE_OK" "rc2 \<noteq> SQLITE_OK" | "rc1 = SQLITE_OK" "rc2 = SQLITE_OK" by blast
    then show ?thesis
    proof cases
      case 1
      then have "st' = s0\<lparr>cLog := g\<rparr>" "rc \<noteq> SQLITE_OK" using eq 3 rd by simp_all
      then show ?thesis using e0 by (simp add: same_log_def same_locks_def g(1))
    next
      case 2
      then have e: "st' = s1" "rc \<noteq> SQLITE_OK" using eq 3 rd w by simp_all
      then show ?thesis using s1' other p by blast
    next
      case 3
      then have r: "copy_list s1 l n b m x mf = (st', rc)" using eq \<open>\<not> isI\<close> \<open>\<not> (f \<le> b \<or> f > m \<or> p > x)\<close> rd w by simp
      note ih = Cons.IH [OF d(1,2) r]
      have pp: "bytes_at (pDbFd s1) (page_off n p) n = bytes_at (pWalFd (cLog st)) (walFrameOffset f n + 24) n"
        using k 3(2) by (simp add: s1 g(2) e0 bytes_at_write_same)
      have "p \<notin> fst ` copied_pages l b m x" using sub d(3) by blast
      then have pp': "bytes_at (pDbFd st') (page_off n p) n = bytes_at (pDbFd s1) (page_off n p) n" using ih d(4) by blast
      have "bytes_at (pDbFd st') (page_off n q) n = bytes_at (pDbFd st) (page_off n q) n"
        if "q \<noteq> 0" "q \<notin> fst ` copied_pages (a # l) b m x" for q
      proof -
        have "q \<noteq> p" "q \<notin> fst ` copied_pages l b m x" using that(2) p unfolding cp by auto
        then show ?thesis using ih other that(1) by metis
      qed
      moreover have "\<forall>(q, g) \<in> copied_pages (a # l) b m x.
          bytes_at (pDbFd st') (page_off n q) n = bytes_at (pWalFd (cLog st)) (walFrameOffset g n + 24) n" if "rc = SQLITE_OK"
        using ih that pp pp' s1'(1) unfolding cp same_log_def by (auto split: if_splits)
      ultimately show ?thesis using ih s1' same_trans(1,2) by (metis (no_types, lifting))
    qed
  qed
qed

section \<open>Backfilling\<close>

lemma sync_any:
  assumes "sqlite3OsSync l fl = (l', rc)"
  obtains f s where "l' = l\<lparr>faults := f, pSynced := s\<rparr>" "rc = SQLITE_OK \<and> fl \<noteq> 0 \<longrightarrow> s = pWalFd l"
    "s = pSynced l \<or> s = pWalFd l"
proof (cases "fl = 0")
  case True
  then show ?thesis using assms that [where f = "faults l" and s = "pSynced l"] by (simp add: sqlite3OsSync_def)
next
  case False
  obtain x k l1 where nf: "next_fault l = ((x, k), l1)" by (metis surj_pair)
  obtain f where f: "l1 = l\<lparr>faults := f\<rparr>" by (rule next_fault_ckpt [OF nf])
  have "l' = l\<lparr>faults := f, pSynced := if x = SQLITE_OK then pWalFd l else pSynced l\<rparr>" "rc = x"
    using assms False nf by (cases "x = SQLITE_OK"; force simp: sqlite3OsSync_def f)+
  then show ?thesis using that by (simp split: if_splits)
qed

lemma truncate_any:
  assumes "sqlite3OsTruncate l m = (l', rc)"
  obtains f d where "l' = l\<lparr>faults := f, pWalFd := d\<rparr>"
    "d = pWalFd l \<or> d = take m (pWalFd l) @ replicate (m - length (pWalFd l)) 0"
    "rc = SQLITE_OK \<longrightarrow> d = take m (pWalFd l) @ replicate (m - length (pWalFd l)) 0"
proof -
  obtain x k l1 where nf: "next_fault l = ((x, k), l1)" by (metis surj_pair)
  obtain f where f: "l1 = l\<lparr>faults := f\<rparr>" by (rule next_fault_ckpt [OF nf])
  let ?d = "if x = SQLITE_OK then take m (pWalFd l) @ replicate (m - length (pWalFd l)) 0 else pWalFd l"
  have e: "l' = l\<lparr>faults := f, pWalFd := ?d\<rparr>" "rc = x"
    using assms nf by (cases "x = SQLITE_OK"; force simp: sqlite3OsTruncate_def f)+
  show ?thesis by (rule that [where d = ?d, OF e(1)]) (simp_all add: e(2))
qed

text \<open>What was synced stays so until all of the file is.\<close>

definition syncs :: "ckpt_state \<Rightarrow> ckpt_state \<Rightarrow> bool" where
  "syncs st st' \<longleftrightarrow> (pSynced (cLog st') = pSynced (cLog st) \<or> pSynced (cLog st') = pWalFd (cLog st)) \<and>
     (dbSynced st' = dbSynced st \<or> dbSynced st' = pDbFd st')"

lemma syncs_files: "same_files st st' \<Longrightarrow> syncs st st'"
  by (simp add: same_files_def syncs_def)

text \<open>The end of a complete backfill: the database file gets its size and is synced.\<close>

definition db_finish :: "ckpt_state \<Rightarrow> nat \<Rightarrow> nat \<Rightarrow> ckpt_state \<times> rc" where
  "db_finish st szDb fl =
     (let (st, rc) = on_db (\<lambda>l. sqlite3OsTruncate l szDb) st
      in if rc = SQLITE_OK then on_db (\<lambda>l. sqlite3OsSync l fl) st else (st, rc))"

lemma db_finish_spec:
  assumes "db_finish st szDb fl = (st', rc)"
  shows "same_log st st' \<and> same_locks st st' \<and> pSynced (cLog st') = pSynced (cLog st) \<and>
    (\<forall>off. off + n \<le> szDb \<longrightarrow> bytes_at (pDbFd st') off n = bytes_at (pDbFd st) off n) \<and>
    (rc = SQLITE_OK \<longrightarrow> length (pDbFd st') = szDb \<and> (fl \<noteq> 0 \<longrightarrow> dbSynced st' = pDbFd st')) \<and> syncs st st'"
proof -
  obtain s1 rc1 where t: "on_db (\<lambda>l. sqlite3OsTruncate l szDb) st = (s1, rc1)" by fastforce
  obtain l1 r1 where t': "sqlite3OsTruncate ((cLog st)\<lparr>pWalFd := pDbFd st, pSynced := dbSynced st\<rparr>) szDb = (l1, r1)" by fastforce
  obtain f d where l1: "l1 = (cLog st)\<lparr>pWalFd := pDbFd st, pSynced := dbSynced st\<rparr>\<lparr>faults := f, pWalFd := d\<rparr>"
    and d: "d = pDbFd st \<or> d = take szDb (pDbFd st) @ replicate (szDb - length (pDbFd st)) 0"
      "r1 = SQLITE_OK \<longrightarrow> d = take szDb (pDbFd st) @ replicate (szDb - length (pDbFd st)) 0"
    by (rule truncate_any [OF t']) simp
  have s1: "s1 = st\<lparr>cLog := (cLog st)\<lparr>faults := f\<rparr>, pDbFd := d\<rparr>" "rc1 = r1" using t t' by (simp_all add: on_db_def l1)
  have b: "bytes_at d off n = bytes_at (pDbFd st) off n" if "off + n \<le> szDb" for off
    using d(1) bytes_at_truncate [OF that] by auto
  show ?thesis
  proof (cases "rc1 = SQLITE_OK")
    case False
    then have "st' = s1" "rc \<noteq> SQLITE_OK" using assms t by (simp_all add: db_finish_def)
    then show ?thesis using b s1 by (simp add: same_log_def same_locks_def syncs_def)
  next
    case True
    then have y: "on_db (\<lambda>l. sqlite3OsSync l fl) s1 = (st', rc)" using assms t by (simp add: db_finish_def)
    obtain l2 r2 where y': "sqlite3OsSync ((cLog s1)\<lparr>pWalFd := pDbFd s1, pSynced := dbSynced s1\<rparr>) fl = (l2, r2)" by fastforce
    obtain g s where l2: "l2 = (cLog s1)\<lparr>pWalFd := pDbFd s1, pSynced := dbSynced s1\<rparr>\<lparr>faults := g, pSynced := s\<rparr>"
      "r2 = SQLITE_OK \<and> fl \<noteq> 0 \<longrightarrow> s = pDbFd s1" "s = dbSynced s1 \<or> s = pDbFd s1"
      by (rule sync_any [OF y']) simp
    have e: "st' = s1\<lparr>cLog := (cLog s1)\<lparr>faults := g\<rparr>, dbSynced := s\<rparr>" "rc = r2" using y y' by (simp_all add: on_db_def l2(1))
    have "length d = szDb" using d(2) True s1(2) by simp
    then show ?thesis using b l2(2,3) unfolding e s1(1) by (simp add: same_log_def same_locks_def syncs_def)
  qed
qed

lemma size_spec:
  assumes "ckpt_size st n x = (st', rc)"
  shows "same_log st st' \<and> same_locks st st' \<and> same_files st st'"
proof -
  obtain y k l where nf: "next_fault (cLog st) = ((y, k), l)" by (metis surj_pair)
  obtain f where f: "l = (cLog st)\<lparr>faults := f\<rparr>" by (rule next_fault_ckpt [OF nf])
  have "st' = st\<lparr>cLog := l\<rparr>" using assms nf by (simp add: ckpt_size_def Let_def)
  then show ?thesis by (simp add: same_log_def same_locks_def same_files_def f)
qed

lemma backfill_spec:
  assumes "distinct (map fst (iterator_pages it))" "0 \<notin> fst ` set (iterator_pages it)"
    and "ckpt_backfill st it n m x fl mf = (st', rc)" "x = nPage (hdr (pWal (cLog st)))"
    and "b = nBackfill (pInfo (cLog st))" "S = copied_pages (iterator_pages it) b m x"
  shows "same_log st st' \<and> readers st' = readers st \<and> aReadMark (pInfo (cLog st')) = aReadMark (pInfo (cLog st)) \<and>
    (nBackfill (pInfo (cLog st')) = b \<or> nBackfill (pInfo (cLog st')) = m) \<and>
    (\<forall>q. q \<noteq> 0 \<and> q \<notin> fst ` S \<and> (m = mxFrame (live (cLog st)) \<longrightarrow> q \<le> x) \<longrightarrow>
       bytes_at (pDbFd st') (page_off n q) n = bytes_at (pDbFd st) (page_off n q) n) \<and>
    (nBackfill (pInfo (cLog st')) \<noteq> b \<longrightarrow>
       (\<forall>(p, f) \<in> S. bytes_at (pDbFd st') (page_off n p) n = bytes_at (pWalFd (cLog st)) (walFrameOffset f n + 24) n) \<and>
       (CKPT_SYNC_FLAGS fl \<noteq> 0 \<and> m = mxFrame (live (cLog st)) \<longrightarrow> dbSynced st' = pDbFd st')) \<and>
    (CKPT_SYNC_FLAGS fl \<noteq> 0 \<and> pDbFd st' \<noteq> pDbFd st \<longrightarrow> pSynced (cLog st') = pWalFd (cLog st)) \<and> syncs st st'"
proof (cases "aSalt (live (cLog st)) \<noteq> aSalt (hdr (pWal (cLog st)))")
  case True
  then have "st' = st" using assms(3) by (simp add: ckpt_backfill_def)
  then show ?thesis using assms(5) by (simp add: syncs_def)
next
  case False
  define s0 where "s0 = upd_pInfo (\<lambda>p. p\<lparr>nBackfillAttempted := m\<rparr>) st"
  obtain l rc1 where y: "sqlite3OsSync (cLog s0) (CKPT_SYNC_FLAGS fl) = (l, rc1)" by fastforce
  obtain f s where l: "l = (cLog s0)\<lparr>faults := f, pSynced := s\<rparr>" "rc1 = SQLITE_OK \<and> CKPT_SYNC_FLAGS fl \<noteq> 0 \<longrightarrow> s = pWalFd (cLog s0)" "s = pSynced (cLog s0) \<or> s = pWalFd (cLog s0)"
    by (rule sync_any [OF y])
  define s1 where "s1 = s0\<lparr>cLog := l\<rparr>"
  obtain s2 rc2 where z: "(if rc1 = SQLITE_OK then ckpt_size s1 n x else (s1, rc1)) = (s2, rc2)" by fastforce
  obtain s3 rc3 where c: "(if rc2 = SQLITE_OK then copy_list s2 (iterator_pages it) n b m x mf else (s2, rc2)) = (s3, rc3)" by fastforce
  obtain s4 rc4 where t: "(if m = mxFrame (live (cLog s3)) then db_finish s3 (unat (nPage (hdr (pWal (cLog s3)))) * n) (CKPT_SYNC_FLAGS fl)
      else (s3, SQLITE_OK)) = (s4, rc4)" by fastforce
  have e: "(st', rc) = (if rc3 \<noteq> SQLITE_OK then (s3, rc3)
      else if rc4 = SQLITE_OK then (upd_pInfo (\<lambda>p. p\<lparr>nBackfill := m\<rparr>) s4, rc4) else (s4, rc4))"
    using assms(3) False unfolding ckpt_backfill_def Let_def s0_def [symmetric] y prod.case s1_def [symmetric] z copy_loop_list
      assms(5) [symmetric] c db_finish_def [unfolded Let_def, symmetric] t by simp
  have 1: "same_log st s1" "readers s1 = readers st" "aReadMark (pInfo (cLog s1)) = aReadMark (pInfo (cLog st))"
    "nBackfill (pInfo (cLog s1)) = b" "pDbFd s1 = pDbFd st" "dbSynced s1 = dbSynced st" "pSynced (cLog s1) = s"
    by (simp_all add: s1_def s0_def l(1) upd_pInfo_def same_log_def assms(5))
  have 2: "same_log s1 s2" "same_locks s1 s2" "same_files s1 s2" "rc1 \<noteq> SQLITE_OK \<longrightarrow> rc2 = rc1"
    using z size_spec by (auto split: if_splits)
  have 3: "same_log s2 s3 \<and> same_locks s2 s3 \<and> dbSynced s3 = dbSynced s2 \<and> pSynced (cLog s3) = pSynced (cLog s2) \<and>
      (\<forall>q. q \<noteq> 0 \<and> q \<notin> fst ` S \<longrightarrow> bytes_at (pDbFd s3) (page_off n q) n = bytes_at (pDbFd s2) (page_off n q) n) \<and>
      (rc3 = SQLITE_OK \<longrightarrow> (\<forall>(p, f) \<in> S. bytes_at (pDbFd s3) (page_off n p) n = bytes_at (pWalFd (cLog s2)) (walFrameOffset f n + 24) n)) \<and>
      (rc2 \<noteq> SQLITE_OK \<longrightarrow> rc3 = rc2 \<and> pDbFd s3 = pDbFd s2)"
  proof (cases "rc2 = SQLITE_OK")
    case True
    then have "copy_list s2 (iterator_pages it) n b m x mf = (s3, rc3)" using c by simp
    from copy_list_spec [OF assms(1,2) this] True show ?thesis by (simp add: assms(6))
  next
    case False
    then show ?thesis using c by simp
  qed
  have 4: "same_log s3 s4 \<and> same_locks s3 s4 \<and> pSynced (cLog s4) = pSynced (cLog s3) \<and>
      (\<forall>q. m = mxFrame (live (cLog st)) \<longrightarrow> q \<le> x \<longrightarrow> q \<noteq> 0 \<longrightarrow> bytes_at (pDbFd s4) (page_off n q) n = bytes_at (pDbFd s3) (page_off n q) n) \<and>
      (m \<noteq> mxFrame (live (cLog st)) \<longrightarrow> pDbFd s4 = pDbFd s3) \<and>
      (rc4 = SQLITE_OK \<and> CKPT_SYNC_FLAGS fl \<noteq> 0 \<and> m = mxFrame (live (cLog st)) \<longrightarrow> dbSynced s4 = pDbFd s4) \<and>
      (dbSynced s4 = dbSynced s3 \<or> dbSynced s4 = pDbFd s4)"
  proof (cases "m = mxFrame (live (cLog st))")
    case True
    have lv: "live (cLog s3) = live (cLog st)" "pWal (cLog s3) = pWal (cLog st)" using 1 2 3 by (simp_all add: same_log_def)
    have f: "db_finish s3 (unat x * n) (CKPT_SYNC_FLAGS fl) = (s4, rc4)" using t True by (simp add: lv assms(4))
    note d = db_finish_spec [OF f, of n]
    have B: "page_off n q + n \<le> unat x * n" if "q \<le> x" "q \<noteq> 0" for q
    proof -
      have "unat q \<noteq> 0" "unat q \<le> unat x" using that by (simp_all add: word_le_nat_alt unat_eq_0)
      then have "Suc (unat q - 1) * n \<le> unat x * n" by (intro mult_le_mono1) simp
      then show ?thesis by (simp add: add.commute)
    qed
    have "bytes_at (pDbFd s4) (page_off n q) n = bytes_at (pDbFd s3) (page_off n q) n" if "q \<le> x" "q \<noteq> 0" for q
      using d B [OF that] by simp
    then show ?thesis using d True by (simp add: syncs_def)
  next
    case False
    have "live (cLog s3) = live (cLog st)" using 1 2 3 by (simp add: same_log_def)
    then show ?thesis using t False by simp
  qed
  have k3: "same_log s2 s3" "same_locks s2 s3" and k4: "same_log s3 s4" "same_locks s3 s4" using 3 4 by simp_all
  have lg: "same_log st s3" "same_log st s4"
    using same_trans(1) [OF same_trans(1) [OF 1(1) 2(1)] k3(1)] same_trans(1) [OF _ k4(1)] by simp_all
  have lk: "same_locks s1 s3" "same_locks s1 s4"
    using same_trans(2) [OF 2(2) k3(2)] same_trans(2) [OF _ k4(2)] by simp_all
  have db2: "pDbFd s2 = pDbFd st" using 1(5) 2(3) by (simp add: same_files_def)
  have wf2: "pWalFd (cLog s2) = pWalFd (cLog st)" using 1(1) 2(1) by (simp add: same_log_def)
  have ps: "pSynced (cLog s3) = s" "pSynced (cLog s4) = s" using 1(7) 2(3) 3 4 by (simp_all add: same_files_def)
  have sn: "s = pSynced (cLog st) \<or> s = pWalFd (cLog st)" using l(3) by (simp add: s0_def upd_pInfo_def)
  have db3: "dbSynced s3 = dbSynced st" using 1(6) 2(3) 3 by (simp add: same_files_def)
  have syn: "syncs st s3" "syncs st s4" using sn ps db3 4 by (auto simp: syncs_def)
  have sy: "s = pWalFd (cLog st)" if "CKPT_SYNC_FLAGS fl \<noteq> 0" "rc2 = SQLITE_OK"
    using l(2) 2(4) that by (simp add: s0_def upd_pInfo_def)
  have q3: "bytes_at (pDbFd s3) (page_off n q) n = bytes_at (pDbFd st) (page_off n q) n" if "q \<noteq> 0" "q \<notin> fst ` S" for q
    using 3 db2 that by simp
  have q4: "bytes_at (pDbFd s4) (page_off n q) n = bytes_at (pDbFd s3) (page_off n q) n"
    if "q \<noteq> 0" "m = mxFrame (live (cLog st)) \<longrightarrow> q \<le> x" for q
    using 4 that by (cases "m = mxFrame (live (cLog st))") simp_all
  have i: "readers s1 = readers st" "nBackfill (pInfo (cLog s1)) = b" "aReadMark (pInfo (cLog s1)) = aReadMark (pInfo (cLog st))"
    by (rule 1)+
  have r2: "rc2 = SQLITE_OK" if "rc3 = SQLITE_OK" using 3 that by auto
  have cS: "\<forall>(p, f) \<in> S. bytes_at (pDbFd s3) (page_off n p) n = bytes_at (pWalFd (cLog st)) (walFrameOffset f n + 24) n" if "rc3 = SQLITE_OK"
    using 3 that wf2 by simp
  have d4: "rc4 = SQLITE_OK \<and> CKPT_SYNC_FLAGS fl \<noteq> 0 \<and> m = mxFrame (live (cLog st)) \<longrightarrow> dbSynced s4 = pDbFd s4" using 4 by blast
  have d3: "pDbFd s3 = pDbFd st" if "rc2 \<noteq> SQLITE_OK" using 3 db2 that by simp
  consider "rc3 \<noteq> SQLITE_OK" "st' = s3" | "rc3 = SQLITE_OK" "rc4 \<noteq> SQLITE_OK" "st' = s4"
    | "rc3 = SQLITE_OK" "rc4 = SQLITE_OK" "st' = upd_pInfo (\<lambda>p. p\<lparr>nBackfill := m\<rparr>) s4"
    using e by (auto split: if_splits)
  then show ?thesis
  proof cases
    case 1
    have "s = pWalFd (cLog st)" if "CKPT_SYNC_FLAGS fl \<noteq> 0" "pDbFd s3 \<noteq> pDbFd st"
      using sy d3 that by blast
    then show ?thesis using lg(1) lk(1) ps(1) q3 i syn(1) unfolding 1(2) by (simp add: same_locks_def)
  next
    case 2
    show ?thesis using lg(2) lk(2) ps(2) q3 q4 sy r2 [OF 2(1)] i syn(2) unfolding 2(3) by (simp add: same_locks_def)
  next
    case 3
    have p: "bytes_at (pDbFd s4) (page_off n p) n = bytes_at (pWalFd (cLog st)) (walFrameOffset f n + 24) n" if "(p, f) \<in> S" for p f
    proof -
      have "p \<le> x" "p \<noteq> 0" using that assms(2) unfolding assms(6) copied_pages_def by force+
      then have "bytes_at (pDbFd s4) (page_off n p) n = bytes_at (pDbFd s3) (page_off n p) n" by (intro q4) simp_all
      then show ?thesis using cS [OF 3(1)] that by fastforce
    qed
    have st': "pDbFd st' = pDbFd s4" "dbSynced st' = dbSynced s4" "readers st' = readers s4" "same_log st st'"
      "aReadMark (pInfo (cLog st')) = aReadMark (pInfo (cLog s4))" "nBackfill (pInfo (cLog st')) = m"
      "pSynced (cLog st') = pSynced (cLog s4)"
      using lg(2) by (simp_all add: 3(3) upd_pInfo_def same_log_def)
    have "syncs st st'" using syn(2) by (simp add: syncs_def st'(1,2,7))
    moreover have "\<forall>(p, f) \<in> S. bytes_at (pDbFd s4) (page_off n p) n = bytes_at (pWalFd (cLog st)) (walFrameOffset f n + 24) n"
      using p by blast
    ultimately show ?thesis using st'(4) lk(2) ps(2) q3 q4 sy r2 [OF 3(1)] i(1,3) d4 3(2) unfolding st'(1-3,5-7)
      by (simp add: same_locks_def)
  qed
qed

section \<open>The effect of the copying part\<close>

text \<open>The frames that are due: the newest ones of their pages, not copied yet and safe to copy.\<close>

definition due :: "u32 list \<Rightarrow> nat \<Rightarrow> nat \<Rightarrow> nat \<Rightarrow> u32 \<Rightarrow> (u32 \<times> nat) set" where
  "due ps M b m x = {(p, f). b < f \<and> f \<le> m \<and> f \<le> M \<and> p \<le> x \<and> ps ! (f - 1) = p \<and> (\<forall>g. f < g \<and> g \<le> M \<longrightarrow> ps ! (g - 1) \<noteq> p)}"

lemma iterator_due:
  assumes "index_ok wi k ps" "1 \<le> M" "M \<le> length ps" "0xFFFFFFFF \<notin> set ps" "0 \<notin> set ps"
    and "walIteratorInit True wi M b = Inr it"
  shows "distinct (map fst (iterator_pages it))" "0 \<notin> fst ` set (iterator_pages it)"
    "copied_pages (iterator_pages it) b m x = due ps M b m x"
proof -
  have it: "iterator_pages it = map (\<lambda>p. (p, newest (\<lambda>f. ps ! (f - 1) = p) M)) (sorted_list_of_set (log_pages ps M (walFramePage (b + 1))))"
    using iterator_all [OF assms(1-5), of b] assms(6) by auto
  show "distinct (map fst (iterator_pages it))" unfolding it by (simp add: comp_def)
  have "log_pages ps M (walFramePage (b + 1)) \<subseteq> set ps" using assms(3) by (auto simp: log_pages_def)
  then show "0 \<notin> fst ` set (iterator_pages it)" unfolding it using assms(5) by (auto simp: image_iff)
  have "iZero (walFramePage (b + 1)) \<le> b" using walFramePage_range [of "b + 1"] by simp
  then show "copied_pages (iterator_pages it) b m x = due ps M b m x"
    unfolding copied_pages_def due_def it iterator_frames [OF assms(2)] by auto
qed

definition ckpt_effect :: "u32 list \<Rightarrow> nat \<Rightarrow> nat \<Rightarrow> nat \<Rightarrow> ckpt_state \<Rightarrow> ckpt_state \<Rightarrow> bool" where
  "ckpt_effect ps n fl m st st' \<longleftrightarrow>
     (let h = hdr (pWal (cLog st)); b = nBackfill (pInfo (cLog st)); b' = nBackfill (pInfo (cLog st'));
          S = due ps (mxFrame h) b m (nPage h)
      in same_log st st' \<and> m \<le> mxFrame h \<and> (b' = b \<or> b < m \<and> b' = m) \<and>
         (\<forall>q. q \<noteq> 0 \<and> q \<notin> fst ` S \<and> (m = mxFrame (live (cLog st)) \<longrightarrow> q \<le> nPage h) \<longrightarrow>
            bytes_at (pDbFd st') (page_off n q) n = bytes_at (pDbFd st) (page_off n q) n) \<and>
         (b' \<noteq> b \<longrightarrow>
            (\<forall>(p, f) \<in> S. bytes_at (pDbFd st') (page_off n p) n = bytes_at (pWalFd (cLog st)) (walFrameOffset f n + 24) n) \<and>
            (CKPT_SYNC_FLAGS fl \<noteq> 0 \<and> m = mxFrame (live (cLog st)) \<longrightarrow> dbSynced st' = pDbFd st')) \<and>
         (CKPT_SYNC_FLAGS fl \<noteq> 0 \<and> pDbFd st' \<noteq> pDbFd st \<longrightarrow> pSynced (cLog st') = pWalFd (cLog st)) \<and> syncs st st')"

lemma effect_none:
  assumes "same_log st st'" "same_files st st'" "nBackfill (pInfo (cLog st')) = nBackfill (pInfo (cLog st))" "m \<le> mxFrame (hdr (pWal (cLog st)))"
  shows "ckpt_effect ps n fl m st st'"
  using assms by (simp add: ckpt_effect_def same_files_def syncs_def Let_def)

lemma effect_start:
  assumes "ckpt_effect ps n fl m s1 st'" "same_log st s1" "same_files st s1" "nBackfill (pInfo (cLog s1)) = nBackfill (pInfo (cLog st))"
  shows "ckpt_effect ps n fl m st st'"
proof -
  have e: "pWal (cLog s1) = pWal (cLog st)" "live (cLog s1) = live (cLog st)" "pWalFd (cLog s1) = pWalFd (cLog st)" "pDbFd s1 = pDbFd st"
    "syncs s1 st' \<longleftrightarrow> syncs st st'"
    using assms(2,3) by (simp_all add: same_log_def same_files_def syncs_def)
  have "same_log st st'" using assms(1,2) same_trans(1) by (auto simp: ckpt_effect_def Let_def)
  then show ?thesis using assms(1) unfolding ckpt_effect_def Let_def e assms(4) by simp
qed

lemma copy_effect:
  assumes "index_ok (shm (cLog st)) k ps" "mxFrame (hdr (pWal (cLog st))) \<le> length ps" "0xFFFFFFFF \<notin> set ps" "0 \<notin> set ps"
    and "nBackfill (pInfo (cLog st)) < mxFrame (hdr (pWal (cLog st)))" "walPagesize (pWal (cLog st)) = n"
    and "ckpt_copy st xb fl mf = (st', xb', rc, out)"
  shows "\<exists>m. ckpt_effect ps n fl m st st' \<and>
    (held i st xb \<longrightarrow> held i st' xb' \<and> (i \<in> {1..<5} \<and> \<not> out \<longrightarrow> m \<le> aReadMark (pInfo (cLog st)) ! i) \<and>
       (out \<longrightarrow> same_files st st') \<and> (i = 0 \<longrightarrow> pDbFd st' = pDbFd st))"
proof -
  let ?h = "hdr (pWal (cLog st))"
  obtain s1 xb1 rc1 m out1 where mk: "ckpt_marks st xb [1..<5] (mxFrame ?h) SQLITE_OK = (s1, xb1, rc1, m, out1)"
    by (metis surj_pair)
  note mk' = marks [OF mk, of i]
  show ?thesis
  proof (cases out1)
    case True
    then have e: "st' = s1" "xb' = xb1" "out" using assms(7) mk by (simp_all add: ckpt_copy_def Let_def)
    have "ckpt_effect ps n fl m st st'" unfolding e(1) using mk' by (intro effect_none) simp_all
    then show ?thesis using mk' e by (auto simp: same_files_def)
  next
    case False
    obtain s2 pIter rc2 where it: "(if nBackfill (pInfo (cLog s1)) < m
                      then (let ((mrc, _), l) = next_fault (cLog s1)
                            in case walIteratorInit (mrc = SQLITE_OK) (shm l) (mxFrame ?h) (nBackfill (pInfo l)) of
                                 Inl e \<Rightarrow> (s1\<lparr>cLog := l\<rparr>, None, e) | Inr it \<Rightarrow> (s1\<lparr>cLog := l\<rparr>, Some it, SQLITE_OK))
                      else (s1, None, rc1)) = (s2, pIter, rc2)" using prod_cases3 by blast
    have 2: "same_log s1 s2 \<and> same_locks s1 s2 \<and> same_files s1 s2 \<and>
      (\<forall>it. pIter = Some it \<longrightarrow> nBackfill (pInfo (cLog s1)) < m \<and> walIteratorInit True (shm (cLog s1)) (mxFrame ?h) (nBackfill (pInfo (cLog s1))) = Inr it)"
    proof (cases "nBackfill (pInfo (cLog s1)) < m")
      case False
      then show ?thesis using it by auto
    next
      case True
      obtain mrc k l where nf: "next_fault (cLog s1) = ((mrc, k), l)" by (metis surj_pair)
      obtain f where l: "l = (cLog s1)\<lparr>faults := f\<rparr>" by (rule next_fault_ckpt [OF nf])
      have s: "s2 = s1\<lparr>cLog := l\<rparr>" using it True nf by (auto split: sum.splits)
      have p: "pIter = Some i \<Longrightarrow> walIteratorInit True (shm (cLog s1)) (mxFrame ?h) (nBackfill (pInfo (cLog s1))) = Inr i" for i
        using it True nf by (cases "mrc = SQLITE_OK") (auto simp: l walIteratorInit_def [of False] split: sum.splits)
      show ?thesis using p True by (auto simp: s l same_log_def same_locks_def same_files_def)
    qed
    have t: "same_log s1 s2" "same_locks s1 s2" "same_files s1 s2" using 2 by blast+
    have u: "same_log st s1" "same_files st s1" "nBackfill (pInfo (cLog s1)) = nBackfill (pInfo (cLog st))" "held i st xb \<Longrightarrow> held i s1 xb1"
      using mk' by blast+
    have h2: "same_log st s2" "same_files st s2" "nBackfill (pInfo (cLog s2)) = nBackfill (pInfo (cLog st))" "held i st xb \<longrightarrow> held i s2 xb1"
    proof -
      show "same_log st s2" by (rule same_trans(1) [OF u(1) t(1)])
      show "same_files st s2" by (rule same_trans(3) [OF u(2) t(3)])
      show "nBackfill (pInfo (cLog s2)) = nBackfill (pInfo (cLog st))" using t(2) u(3) unfolding same_locks_def by argo
      have "held i s2 xb1 = held i s1 xb1" using t(2) unfolding held_def same_locks_def by presburger
      then show "held i st xb \<longrightarrow> held i s2 xb1" using u(4) by blast
    qed
    have mm: "held i st xb \<longrightarrow> i \<in> {1..<5} \<longrightarrow> m \<le> aReadMark (pInfo (cLog st)) ! i" "m \<le> mxFrame ?h"
      using mk' False by simp_all
    show ?thesis
    proof (cases pIter)
      case None
      then have e: "st' = s2" "xb' = xb1" "\<not> out" using assms(7) mk False it by (simp_all add: ckpt_copy_def Let_def)
      have "ckpt_effect ps n fl m st st'" unfolding e(1) using h2 mm by (intro effect_none) simp_all
      then show ?thesis using h2 mm e by (auto simp: same_files_def)
    next
      case (Some itr)
      obtain s3 xb3 rc3 where bl: "walBusyLock s2 xb1 0 1 = (s3, xb3, rc3)" using prod_cases3 by blast
      note k = busy_lock [OF bl, of i]
      have h3: "same_log st s3" "same_files st s3" "nBackfill (pInfo (cLog s3)) = nBackfill (pInfo (cLog st))" "held i st xb \<longrightarrow> held i s3 xb3"
        subgoal using same_trans(1) [of st s2 s3] k h2 by simp
        subgoal using same_trans(3) [of st s2 s3] k h2 by simp
        subgoal using k h2 by simp
        subgoal using k h2 by simp
        done
      show ?thesis
      proof (cases "rc3 = SQLITE_OK")
        case False
        then have e: "st' = s3" "xb' = xb3" "\<not> out" using assms(7) mk \<open>\<not> out1\<close> it Some bl by (simp_all add: ckpt_copy_def Let_def)
        have "ckpt_effect ps n fl m st st'" unfolding e(1) using h3 mm by (intro effect_none) simp_all
        then show ?thesis using h3 mm e by (auto simp: same_files_def)
      next
        case True
        obtain s4 rc4 where bf: "ckpt_backfill s3 itr n m (nPage ?h) fl mf = (s4, rc4)" by fastforce
        have e: "st' = s4" "xb' = xb3" "\<not> out"
          using assms(6,7) mk \<open>\<not> out1\<close> it Some bl True bf by (simp_all add: ckpt_copy_def Let_def)
        have w3: "pWal (cLog s3) = pWal (cLog st)" "live (cLog s3) = live (cLog st)" "pWalFd (cLog s3) = pWalFd (cLog st)"
          using h3(1) by (simp_all add: same_log_def)
        have M: "1 \<le> mxFrame ?h" using assms(5) by simp
        have ini: "walIteratorInit True (shm (cLog st)) (mxFrame ?h) (nBackfill (pInfo (cLog st))) = Inr itr" "nBackfill (pInfo (cLog st)) < m"
          using 2 Some mk' by (auto simp: same_log_def)
        note id = iterator_due [OF assms(1) M assms(2-4) ini(1)]
        have x: "nPage ?h = nPage (hdr (pWal (cLog s3)))" by (simp add: w3)
        note B = backfill_spec [OF id(1,2) bf x refl refl]
        have "same_log s3 s4" using B by blast
        then have "ckpt_effect ps n fl m s3 s4"
          using B mm(2) ini(2) unfolding ckpt_effect_def Let_def w3 id(3) h3(3) by simp
        then have eff: "ckpt_effect ps n fl m st s4" by (rule effect_start [OF _ h3(1-3)])
        have "held i st xb \<Longrightarrow> held i s4 xb3" using h3(4) B by (simp add: held_def)
        moreover have "\<not> (i = 0 \<and> held i st xb)" using k h2(4) True by auto
        ultimately show ?thesis using eff mm e by blast
      qed
    qed
  qed
qed

section \<open>The effect of a restart\<close>

definition restarted_log :: "bytes \<Rightarrow> ckpt_state \<Rightarrow> ckpt_state \<Rightarrow> bool" where
  "restarted_log salt1 st st' \<longleftrightarrow> mxFrame (hdr (pWal (cLog st))) \<le> nBackfill (pInfo (cLog st)) \<and>
     mxFrame (hdr (pWal (cLog st'))) = 0 \<and> nBackfill (pInfo (cLog st')) = 0 \<and>
     shm (cLog st') = shm (cLog st) \<and> nPage (hdr (pWal (cLog st'))) = nPage (hdr (pWal (cLog st))) \<and>
     walPagesize (pWal (cLog st')) = walPagesize (pWal (cLog st)) \<and>
     live (cLog st') = hdr (pWal (cLog st')) \<and> iReCksum (pWal (cLog st')) = iReCksum (pWal (cLog st)) \<and>
     (pWalFd (cLog st') = pWalFd (cLog st) \<or> pWalFd (cLog st') = []) \<and>
     aSalt (hdr (pWal (cLog st'))) = sqlite3Put4byte (1 + the (sqlite3Get4byte (aSalt (hdr (pWal (cLog st)))))) @ salt1"

lemma restart_spec:
  assumes "ckpt_restart st xb eMode salt1 = (st', rc)"
  shows "pDbFd st' = pDbFd st \<and> dbSynced st' = dbSynced st \<and> pSynced (cLog st') = pSynced (cLog st) \<and>
    (same_log st st' \<and> nBackfill (pInfo (cLog st')) = nBackfill (pInfo (cLog st)) \<or> restarted_log salt1 st st') \<and>
    (held i st xb \<and> 1 \<le> i \<and> i < 5 \<longrightarrow> same_log st st')"
proof (cases "\<not> nBackfill (pInfo (cLog st)) < mxFrame (hdr (pWal (cLog st))) \<and> eMode \<ge> 2")
  case False
  then have "st' = st" using assms unfolding ckpt_restart_def by (simp split: if_splits)
  then show ?thesis by simp
next
  case True
  obtain s1 xb1 rc1 where bl: "walBusyLock st xb 1 4 = (s1, xb1, rc1)" using prod_cases3 by blast
  note k = busy_lock [OF bl, of i]
  show ?thesis
  proof (cases "rc1 = SQLITE_OK \<and> eMode = 3")
    case False
    then have "st' = s1" using assms True bl unfolding ckpt_restart_def by (simp split: if_splits)
    then show ?thesis using k by (simp add: same_files_def)
  next
    case t: True
    obtain l rc2 where tr: "sqlite3OsTruncate (walRestartHdr (cLog s1) salt1) 0 = (l, rc2)" by fastforce
    obtain f d where l: "l = (walRestartHdr (cLog s1) salt1)\<lparr>faults := f, pWalFd := d\<rparr>" and d: "d = pWalFd (cLog s1) \<or> d = []"
      by (rule truncate_any [OF tr]) (auto simp: walRestartHdr_def Let_def walIndexWriteHdr_def)
    have e: "st' = s1\<lparr>cLog := l\<rparr>" using assms True bl t tr by (simp add: ckpt_restart_def)
    have k1: "same_log st s1" "same_files st s1" "pInfo (cLog s1) = pInfo (cLog st)" using k by simp_all
    have "restarted_log salt1 st st'" using k1(1,3) True d
      by (simp add: restarted_log_def e l walRestartHdr_def Let_def walIndexWriteHdr_def same_log_def walPagesize_def)
    moreover have "pDbFd st' = pDbFd st \<and> dbSynced st' = dbSynced st \<and> pSynced (cLog st') = pSynced (cLog st)" using k1(2)
      by (simp add: e l walRestartHdr_def Let_def walIndexWriteHdr_def same_files_def)
    moreover have "\<not> (held i st xb \<and> 1 \<le> i \<and> i < 5)" using k t by auto
    ultimately show ?thesis by blast
  qed
qed

section \<open>Readers\<close>

text \<open>A connection \<open>w\<close> that reads the files and the wal-index of \<open>st\<close>.\<close>

definition reader :: "wal \<Rightarrow> ckpt_state \<Rightarrow> ckpt_state" where
  "reader w st = st\<lparr>cLog := (cLog st)\<lparr>pWal := w, faults := []\<rparr>\<rparr>"

lemma read_page:
  assumes "index_ok (shm (cLog st)) k ps" "mxFrame (hdr w) \<le> length ps" "1 \<le> minFrame w" "walPagesize w = n"
    and "f = (if noWal then 0 else newest (\<lambda>f. minFrame w \<le> f \<and> ps ! (f - 1) = p) (mxFrame (hdr w)))"
  shows "snd (readDbPage (reader w st) noWal n p) =
    (if f \<noteq> 0 then (if length (pWalFd (cLog st)) < walFrameOffset f n + 24 + n \<and> 0 < n then SQLITE_IOERR else SQLITE_OK,
                    bytes_at (pWalFd (cLog st)) (walFrameOffset f n + 24) n)
     else (SQLITE_OK, bytes_at (pDbFd st) (page_off n p) n))"
proof -
  have f: "walFindFrame (shm (cLog st)) noWal (mxFrame (hdr w)) (minFrame w) p = Inr f"
    using find_frame [OF assms(1-3), of noWal p] assms(5) by (cases noWal) (simp_all add: walFindFrame_def)
  show ?thesis
    unfolding readDbPage_def reader_def bytes_at_read [symmetric]
    by (auto simp: f sqlite3WalReadFrame_def assms(4) sqlite3OsRead_def next_fault_def Let_def split: if_splits)
qed

section \<open>A checkpoint and its readers\<close>

lemma newest_zero: "newest P n = 0 \<Longrightarrow> 1 \<le> i \<Longrightarrow> i \<le> n \<Longrightarrow> \<not> P i"
  by (rule newest_cases [of P n]) auto

lemma newest_le: "newest P n \<le> n"
  by (induction n) auto

lemma newest_from:
  assumes "1 \<le> a"
  shows "newest (\<lambda>f. a \<le> f \<and> P f) n = (if a \<le> newest P n then newest P n else 0)"
  using assms by (induction n) (auto dest: order_trans [OF _ newest_le])

lemma checkpoint_parts:
  assumes "walCheckpoint st eMode xb fl salt1 mf = (st', rc)" "walPagesize (pWal (cLog st)) = n"
    and "index_ok (shm (cLog st)) k ps" "mxFrame (hdr (pWal (cLog st))) \<le> length ps" "0xFFFFFFFF \<notin> set ps" "0 \<notin> set ps"
  obtains s1 xb1 m where "ckpt_effect ps n fl m st s1"
    "pDbFd st' = pDbFd s1" "dbSynced st' = dbSynced s1" "pSynced (cLog st') = pSynced (cLog s1)"
    "same_log s1 st' \<and> nBackfill (pInfo (cLog st')) = nBackfill (pInfo (cLog s1)) \<or> restarted_log salt1 s1 st'"
    "held i st xb \<longrightarrow> (1 \<le> i \<and> i < 5 \<longrightarrow> same_log s1 st' \<and> (same_files st s1 \<or> m \<le> aReadMark (pInfo (cLog st)) ! i)) \<and>
       (i = 0 \<longrightarrow> pDbFd s1 = pDbFd st)"
proof -
  obtain s1 xb1 rc1 out where c: "(if nBackfill (pInfo (cLog st)) < mxFrame (hdr (pWal (cLog st)))
             then ckpt_copy st xb fl mf else (st, xb, SQLITE_OK, False)) = (s1, xb1, rc1, out)" by (metis surj_pair)
  have e: "\<exists>m. ckpt_effect ps n fl m st s1 \<and> (held i st xb \<longrightarrow> held i s1 xb1 \<and>
      (i \<in> {1..<5} \<longrightarrow> same_files st s1 \<or> m \<le> aReadMark (pInfo (cLog st)) ! i) \<and> (i = 0 \<longrightarrow> pDbFd s1 = pDbFd st))"
  proof (cases "nBackfill (pInfo (cLog st)) < mxFrame (hdr (pWal (cLog st)))")
    case True
    then have "ckpt_copy st xb fl mf = (s1, xb1, rc1, out)" using c by simp
    from copy_effect [OF assms(3-6) True assms(2) this, of i] show ?thesis by blast
  next
    case False
    then have s: "s1 = st" "xb1 = xb" using c by simp_all
    have "ckpt_effect ps n fl 0 st st" by (rule effect_none) simp_all
    then show ?thesis unfolding s by (intro exI [of _ 0]) simp
  qed
  then obtain m where m: "ckpt_effect ps n fl m st s1" "held i st xb \<longrightarrow> held i s1 xb1 \<and>
      (i \<in> {1..<5} \<longrightarrow> same_files st s1 \<or> m \<le> aReadMark (pInfo (cLog st)) ! i) \<and> (i = 0 \<longrightarrow> pDbFd s1 = pDbFd st)" by blast
  show ?thesis
  proof (cases "\<not> out \<and> rc1 = SQLITE_OK \<and> eMode \<noteq> 0")
    case True
    then have r: "ckpt_restart s1 xb1 eMode salt1 = (st', rc)" using assms(1) c by (simp add: walCheckpoint_def)
    note R = restart_spec [OF r, of i]
    show ?thesis by (rule that [OF m(1)]) (use R m(2) in auto)
  next
    case False
    then have "st' = s1" using assms(1) c by (auto simp: walCheckpoint_def split: if_splits)
    then show ?thesis using that [OF m(1)] m(2) by auto
  qed
qed

text \<open>A log of one frame over a wal-index \<open>wi\<close>, for the witnesses.\<close>

definition small_ckpt :: "wal_index \<Rightarrow> nat list \<Rightarrow> ckpt_state" where
  "small_ckpt wi locks =
     (let w = \<lparr>hdr = \<lparr>iChange = 1, bigEndCksum = 0, hszPage = 512, mxFrame = 1, nPage = 1, aFrameCksum = (0, 0),
                aSalt = replicate 8 0\<rparr>, szPage = 512, nCkpt = 1, iReCksum = 0, minFrame = 1\<rparr>
      in \<lparr>cLog = \<lparr>pWal = w, pWalFd = replicate 600 7, pSynced = [], faults = [], shm = wi, live = hdr w,
            pInfo = \<lparr>nBackfill = 0, aReadMark = [0, 1, 0, 0, 0], nBackfillAttempted = 0\<rparr>, mxWalSize = -1,
            truncateOnCommit = False, syncHeader = True, padToSectorBoundary = False, sectorSize = 512, iCallback = 0\<rparr>,
          pDbFd = [], dbSynced = [], readers = locks, interrupts = []\<rparr>)"

lemma small_ckpt_simps:
  "hdr (pWal (cLog (small_ckpt wi locks))) = live (cLog (small_ckpt wi locks))"
  "mxFrame (live (cLog (small_ckpt wi locks))) = 1" "nPage (live (cLog (small_ckpt wi locks))) = 1"
  "shm (cLog (small_ckpt wi locks)) = wi" "walPagesize (pWal (cLog (small_ckpt wi locks))) = 512"
  "minFrame (pWal (cLog (small_ckpt wi locks))) = 1" "nBackfill (pInfo (cLog (small_ckpt wi locks))) = 0"
  "length (pWalFd (cLog (small_ckpt wi locks))) = 600" "readers (small_ckpt wi locks) = locks"
  "aReadMark (pInfo (cLog (small_ckpt wi locks))) = [0, 1, 0, 0, 0]"
  by (simp_all add: small_ckpt_def walPagesize_def)

lemma small_index: "\<exists>wi. index_ok wi 0 [1]"
  using stale_run [of "[1]"] run_index_ok by auto

text \<open>
  C4. Whatever calls of the file system fail, however the checkpoint is interrupted and whatever the
  other readers do, a reader that holds its read lock reads every page of its snapshot as before:
  a checkpoint never overwrites, truncates or restarts what the reader still needs.
\<close>

theorem checkpoint_reader_undisturbed:
  assumes "walCheckpoint st eMode xBusy sync_flags salt1 mallocFailed = (st', rc)"
    and "index_ok (shm (cLog st)) m ps" "mxFrame (hdr (pWal (cLog st))) \<le> length ps" "0xFFFFFFFF \<notin> set ps" "0 \<notin> set ps"
    and "i < 5" "held i st xBusy" "i \<noteq> 0 \<Longrightarrow> aReadMark (pInfo (cLog st)) ! i \<le> mxFrame (hdr w)"
    and "1 \<le> minFrame w" "minFrame w \<le> nBackfill (pInfo (cLog st)) + 1" "mxFrame (hdr w) \<le> mxFrame (live (cLog st))"
    and "mxFrame (live (cLog st)) \<le> length ps" "walPagesize w = n" "walPagesize (pWal (cLog st)) = n"
    and "pgno \<noteq> 0" "mxFrame (hdr w) = mxFrame (live (cLog st)) \<Longrightarrow> pgno \<le> nPage (hdr (pWal (cLog st)))"
  shows "snd (readDbPage (reader w st') (i = 0) n pgno) = snd (readDbPage (reader w st) (i = 0) n pgno)"
proof -
  obtain s1 xb1 m where E: "ckpt_effect ps n sync_flags m st s1" "pDbFd st' = pDbFd s1"
    "same_log s1 st' \<and> nBackfill (pInfo (cLog st')) = nBackfill (pInfo (cLog s1)) \<or> restarted_log salt1 s1 st'"
    "held i st xBusy \<longrightarrow> (1 \<le> i \<and> i < 5 \<longrightarrow> same_log s1 st' \<and> (same_files st s1 \<or> m \<le> aReadMark (pInfo (cLog st)) ! i)) \<and>
       (i = 0 \<longrightarrow> pDbFd s1 = pDbFd st)"
    by (rule checkpoint_parts [OF assms(1,14,2-5), of i]) blast
  have wl: "mxFrame (hdr w) \<le> length ps" using assms(11,12) by simp
  define f where "f = (if i = 0 then 0 else newest (\<lambda>f. minFrame w \<le> f \<and> ps ! (f - 1) = pgno) (mxFrame (hdr w)))"
  have l1: "same_log st s1" using E(1) by (simp add: ckpt_effect_def Let_def)
  have sh: "shm (cLog st') = shm (cLog st)" using l1 E(3) by (auto simp: same_log_def restarted_log_def)
  note rd = read_page [OF assms(2) wl assms(9,13) f_def]
  note rd' = read_page [of st', unfolded sh, OF assms(2) wl assms(9,13) f_def]
  show ?thesis
  proof (cases "i = 0")
    case True
    then show ?thesis using rd rd' E(2,4) assms(7) by (simp add: f_def)
  next
    case False
    then have h: "same_log s1 st'" "same_files st s1 \<or> m \<le> aReadMark (pInfo (cLog st)) ! i" using E(4) assms(6,7) by simp_all
    have wf: "pWalFd (cLog st') = pWalFd (cLog st)" using l1 h(1) by (simp add: same_log_def)
    have "bytes_at (pDbFd st') (page_off n pgno) n = bytes_at (pDbFd st) (page_off n pgno) n" if f0: "f = 0"
    proof (cases "same_files st s1")
      case True
      then show ?thesis using E(2) by (simp add: same_files_def)
    next
      case nf: False
      then have mk: "m \<le> mxFrame (hdr w)" using h(2) assms(8) False by simp
      have "pgno \<notin> fst ` due ps (mxFrame (hdr (pWal (cLog st)))) (nBackfill (pInfo (cLog st))) m (nPage (hdr (pWal (cLog st))))"
      proof
        assume "pgno \<in> fst ` due ps (mxFrame (hdr (pWal (cLog st)))) (nBackfill (pInfo (cLog st))) m (nPage (hdr (pWal (cLog st))))"
        then obtain g where g: "nBackfill (pInfo (cLog st)) < g" "g \<le> m" "ps ! (g - 1) = pgno" by (auto simp: due_def)
        have "newest (\<lambda>f. minFrame w \<le> f \<and> ps ! (f - 1) = pgno) (mxFrame (hdr w)) = 0" using f0 False by (simp add: f_def)
        from newest_zero [OF this, of g] show False using g mk assms(10) by simp
      qed
      moreover have "m = mxFrame (live (cLog st)) \<longrightarrow> pgno \<le> nPage (hdr (pWal (cLog st)))"
        using mk assms(11,16) by auto
      ultimately show ?thesis using E(1,2) assms(15) by (simp add: ckpt_effect_def Let_def)
    qed
    then show ?thesis using rd rd' wf False by simp
  qed
qed

theorem checkpoint_reader_undisturbed_witness:
  "\<exists>wi st' rc. walCheckpoint (small_ckpt wi [0, 1, 0, 0, 0]) 0 [] 8 [] False = (st', rc) \<and>
     snd (readDbPage (reader (pWal (cLog (small_ckpt wi [0, 1, 0, 0, 0]))) st') False 512 1) =
     snd (readDbPage (reader (pWal (cLog (small_ckpt wi [0, 1, 0, 0, 0]))) (small_ckpt wi [0, 1, 0, 0, 0])) False 512 1)"
proof -
  obtain wi where wi: "index_ok wi 0 [1]" using small_index by blast
  let ?st = "small_ckpt wi [0, 1, 0, 0, 0]"
  have i: "index_ok (shm (cLog ?st)) 0 [1]" using wi by (simp add: small_ckpt_simps)
  obtain st' rc where c: "walCheckpoint ?st 0 [] 8 [] False = (st', rc)" by fastforce
  have "snd (readDbPage (reader (pWal (cLog ?st)) st') (1 = (0 :: nat)) 512 1) = snd (readDbPage (reader (pWal (cLog ?st)) ?st) (1 = (0 :: nat)) 512 1)"
    by (rule checkpoint_reader_undisturbed [OF c i]) (simp_all add: small_ckpt_simps held_def)
  then show ?thesis using c by auto
qed

text \<open>A connection that starts to read now: it looks for frames after \<open>nBackfill\<close> only.\<close>

definition fresh_reader :: "ckpt_state \<Rightarrow> ckpt_state" where
  "fresh_reader st = reader ((pWal (cLog st))\<lparr>minFrame := nBackfill (pInfo (cLog st)) + 1\<rparr>) st"

lemma read_fresh:
  assumes "index_ok (shm (cLog st)) k ps" "mxFrame (hdr (pWal (cLog st))) \<le> length ps" "walPagesize (pWal (cLog st)) = n"
    and "f = newest (\<lambda>f. ps ! (f - 1) = p) (mxFrame (hdr (pWal (cLog st))))"
  shows "snd (readDbPage (fresh_reader st) False n p) =
    (if nBackfill (pInfo (cLog st)) < f
     then (if length (pWalFd (cLog st)) < walFrameOffset f n + 24 + n \<and> 0 < n then SQLITE_IOERR else SQLITE_OK,
           bytes_at (pWalFd (cLog st)) (walFrameOffset f n + 24) n)
     else (SQLITE_OK, bytes_at (pDbFd st) (page_off n p) n))"
proof -
  let ?w = "(pWal (cLog st))\<lparr>minFrame := nBackfill (pInfo (cLog st)) + 1\<rparr>"
  have n: "walPagesize ?w = n" using assms(3) by (simp add: walPagesize_def)
  have h: "mxFrame (hdr ?w) \<le> length ps" "1 \<le> minFrame ?w" using assms(2) by simp_all
  have "(if False then 0 else newest (\<lambda>f. minFrame ?w \<le> f \<and> ps ! (f - 1) = p) (mxFrame (hdr ?w))) =
      (if nBackfill (pInfo (cLog st)) < f then f else 0)"
    using newest_from [of "nBackfill (pInfo (cLog st)) + 1" "\<lambda>f. ps ! (f - 1) = p" "mxFrame (hdr (pWal (cLog st)))"]
    by (simp add: assms(4) Suc_le_eq)
  from read_page [OF assms(1) h n this [symmetric]] show ?thesis unfolding fresh_reader_def by simp
qed

lemma newest_due_frame:
  assumes "f = newest (\<lambda>f. ps ! (f - 1) = p) M"
  shows "(p, g) \<in> due ps M b m x \<longleftrightarrow> g = f \<and> b < f \<and> f \<le> m \<and> p \<le> x"
proof
  assume d: "(p, g) \<in> due ps M b m x"
  then have "newest (\<lambda>f. ps ! (f - 1) = p) M = g" by (intro newest_unique) (auto simp: due_def)
  then show "g = f \<and> b < f \<and> f \<le> m \<and> p \<le> x" using d assms by (auto simp: due_def)
next
  assume a: "g = f \<and> b < f \<and> f \<le> m \<and> p \<le> x"
  show "(p, g) \<in> due ps M b m x"
  proof (rule newest_cases [of "\<lambda>f. ps ! (f - 1) = p" M])
    assume "newest (\<lambda>f. ps ! (f - 1) = p) M = 0"
    then show ?thesis using a assms by simp
  next
    assume "newest (\<lambda>f. ps ! (f - 1) = p) M \<le> M" "ps ! (newest (\<lambda>f. ps ! (f - 1) = p) M - 1) = p"
      "\<And>i. newest (\<lambda>f. ps ! (f - 1) = p) M < i \<Longrightarrow> i \<le> M \<Longrightarrow> ps ! (i - 1) \<noteq> p"
    then show ?thesis using a assms by (simp add: due_def)
  qed
qed

lemma newest_due:
  assumes "f = newest (\<lambda>f. ps ! (f - 1) = p) M"
  shows "p \<in> fst ` due ps M b m x \<longleftrightarrow> b < f \<and> f \<le> m \<and> p \<le> x"
proof
  assume "p \<in> fst ` due ps M b m x"
  then obtain g where "(p, g) \<in> due ps M b m x" by force
  then show "b < f \<and> f \<le> m \<and> p \<le> x" unfolding newest_due_frame [OF assms] by simp
next
  assume "b < f \<and> f \<le> m \<and> p \<le> x"
  then have "(p, f) \<in> due ps M b m x" unfolding newest_due_frame [OF assms] by simp
  then show "p \<in> fst ` due ps M b m x" by force
qed

lemma checkpoint_view:
  assumes "walCheckpoint st eMode xBusy sync_flags salt1 mallocFailed = (st', rc)"
    and "index_ok (shm (cLog st)) m ps" "mxFrame (hdr (pWal (cLog st))) \<le> length ps" "0xFFFFFFFF \<notin> set ps" "0 \<notin> set ps"
    and "walPagesize (pWal (cLog st)) = n" "walFrameOffset (mxFrame (hdr (pWal (cLog st))) + 1) n \<le> length (pWalFd (cLog st))"
    and "pgno \<noteq> 0" "pgno \<le> nPage (hdr (pWal (cLog st)))"
  shows "snd (readDbPage (fresh_reader st') False n pgno) = snd (readDbPage (fresh_reader st) False n pgno) \<and>
    (mxFrame (hdr (pWal (cLog st'))) = 0 \<or> nBackfill (pInfo (cLog st)) \<le> nBackfill (pInfo (cLog st'))) \<and>
    (pDbFd st' \<noteq> pDbFd st \<and> CKPT_SYNC_FLAGS sync_flags \<noteq> 0 \<longrightarrow> pSynced (cLog st') = pWalFd (cLog st))"
proof -
  obtain s1 xb1 k where E: "ckpt_effect ps n sync_flags k st s1" "pDbFd st' = pDbFd s1" "pSynced (cLog st') = pSynced (cLog s1)"
    "same_log s1 st' \<and> nBackfill (pInfo (cLog st')) = nBackfill (pInfo (cLog s1)) \<or> restarted_log salt1 s1 st'"
    by (rule checkpoint_parts [OF assms(1,6,2-5)]) blast
  let ?M = "mxFrame (hdr (pWal (cLog st)))" and ?b = "nBackfill (pInfo (cLog st))" and ?b1 = "nBackfill (pInfo (cLog s1))"
  define f where "f = newest (\<lambda>f. ps ! (f - 1) = pgno) ?M"
  have l1: "pWal (cLog s1) = pWal (cLog st)" "pWalFd (cLog s1) = pWalFd (cLog st)" "shm (cLog s1) = shm (cLog st)"
    using E(1) by (simp_all add: ckpt_effect_def Let_def same_log_def)
  have fM: "f \<le> ?M" unfolding f_def by (rule newest_cases [of "\<lambda>f. ps ! (f - 1) = pgno" ?M]) simp_all
  have due: "pgno \<in> fst ` due ps ?M ?b k (nPage (hdr (pWal (cLog st)))) \<longleftrightarrow> ?b < f \<and> f \<le> k"
    using newest_due [OF f_def] assms(9) by simp
  note rd = read_fresh [OF assms(2,3,6) f_def]
  note rd1 = read_fresh [of s1, unfolded l1, OF assms(2,3,6) f_def]
  have one: "snd (readDbPage (fresh_reader s1) False n pgno) = snd (readDbPage (fresh_reader st) False n pgno)"
  proof (cases "?b < f \<and> f \<le> k \<and> ?b1 \<noteq> ?b")
    case True
    then have b1: "?b1 = k" using E(1) by (auto simp: ckpt_effect_def Let_def)
    have "(pgno, f) \<in> due ps ?M ?b k (nPage (hdr (pWal (cLog st))))"
      using True newest_due_frame [OF f_def] assms(9) by simp
    then have "bytes_at (pDbFd s1) (page_off n pgno) n = bytes_at (pWalFd (cLog st)) (walFrameOffset f n + 24) n"
      using E(1) True by (auto simp: ckpt_effect_def Let_def)
    moreover have "walFrameOffset f n + 24 + n \<le> length (pWalFd (cLog st))"
    proof -
      have "f - 1 + 1 \<le> ?M" using True fM by simp
      then have "(f - 1 + 1) * (n + 24) \<le> ?M * (n + 24)" by (rule mult_le_mono1)
      then have "(f - 1) * (n + 24) + (n + 24) \<le> ?M * (n + 24)" by (simp only: distrib_right mult_1)
      then show ?thesis using assms(7) by (simp add: walFrameOffset_def)
    qed
    ultimately show ?thesis using rd rd1 True b1 by simp
  next
    case False
    have "bytes_at (pDbFd s1) (page_off n pgno) n = bytes_at (pDbFd st) (page_off n pgno) n" if "\<not> ?b < f"
      using E(1) due that assms(8,9) by (simp add: ckpt_effect_def Let_def)
    moreover have "?b1 < f \<longleftrightarrow> ?b < f" using E(1) False by (auto simp: ckpt_effect_def Let_def)
    ultimately show ?thesis using rd rd1 by simp
  qed
  have two: "snd (readDbPage (fresh_reader st') False n pgno) = snd (readDbPage (fresh_reader s1) False n pgno)"
    using E(4)
  proof
    assume a: "same_log s1 st' \<and> nBackfill (pInfo (cLog st')) = ?b1"
    then have l: "pWal (cLog st') = pWal (cLog st)" "pWalFd (cLog st') = pWalFd (cLog st)" "shm (cLog st') = shm (cLog st)"
      using l1 by (simp_all add: same_log_def)
    from read_fresh [of st', unfolded l, OF assms(2,3,6) f_def] rd1 show ?thesis using a E(2) by simp
  next
    assume a: "restarted_log salt1 s1 st'"
    have "index_ok (shm (cLog st')) m ps" "mxFrame (hdr (pWal (cLog st'))) \<le> length ps" "walPagesize (pWal (cLog st')) = n"
      using a l1 assms(2,6) by (simp_all add: restarted_log_def)
    from read_fresh [OF this refl] have "snd (readDbPage (fresh_reader st') False n pgno) = (SQLITE_OK, bytes_at (pDbFd st') (page_off n pgno) n)"
      using a by (simp add: restarted_log_def)
    moreover have "\<not> ?b1 < f" using a l1 fM by (simp add: restarted_log_def)
    ultimately show ?thesis using rd1 E(2) by simp
  qed
  have "mxFrame (hdr (pWal (cLog st'))) = 0 \<or> ?b \<le> nBackfill (pInfo (cLog st'))"
    using E(1,4) by (auto simp: ckpt_effect_def Let_def restarted_log_def)
  moreover have "pDbFd st' \<noteq> pDbFd st \<and> CKPT_SYNC_FLAGS sync_flags \<noteq> 0 \<longrightarrow> pSynced (cLog st') = pWalFd (cLog st)"
    using E(1-3) by (simp add: ckpt_effect_def Let_def)
  ultimately show ?thesis using one two by simp
qed

text \<open>
  C3. A checkpoint, complete, partial or failed, does not change what the database contains: a
  reader that starts afterwards reads every page as one that started before. The number of frames
  copied never decreases except by a restart, and the database file is written only after the log
  has been synced, so that a crash in between loses nothing.
\<close>

theorem checkpoint_keeps_database:
  assumes "walCheckpoint st eMode xBusy sync_flags salt1 mallocFailed = (st', rc)"
    and "index_ok (shm (cLog st)) m ps" "mxFrame (hdr (pWal (cLog st))) \<le> length ps" "0xFFFFFFFF \<notin> set ps" "0 \<notin> set ps"
    and "walPagesize (pWal (cLog st)) = n" "walFrameOffset (mxFrame (hdr (pWal (cLog st))) + 1) n \<le> length (pWalFd (cLog st))"
    and "pgno \<noteq> 0" "pgno \<le> nPage (hdr (pWal (cLog st)))"
  shows "snd (readDbPage (fresh_reader st') False n pgno) = snd (readDbPage (fresh_reader st) False n pgno) \<and>
    (mxFrame (hdr (pWal (cLog st'))) = 0 \<or> nBackfill (pInfo (cLog st)) \<le> nBackfill (pInfo (cLog st'))) \<and>
    (pDbFd st' \<noteq> pDbFd st \<and> CKPT_SYNC_FLAGS sync_flags \<noteq> 0 \<longrightarrow> pSynced (cLog st') = pWalFd (cLog st))"
  by (rule checkpoint_view [OF assms])

theorem checkpoint_keeps_database_witness:
  "\<exists>wi st' rc. walCheckpoint (small_ckpt wi [0, 0, 0, 0, 0]) 3 [] 8 [1, 2, 3, 4] False = (st', rc) \<and>
     snd (readDbPage (fresh_reader st') False 512 1) = snd (readDbPage (fresh_reader (small_ckpt wi [0, 0, 0, 0, 0])) False 512 1)"
proof -
  obtain wi where wi: "index_ok wi 0 [1]" using small_index by blast
  let ?st = "small_ckpt wi [0, 0, 0, 0, 0]"
  have i: "index_ok (shm (cLog ?st)) 0 [1]" using wi by (simp add: small_ckpt_simps)
  obtain st' rc where c: "walCheckpoint ?st 3 [] 8 [1, 2, 3, 4] False = (st', rc)" by fastforce
  have "snd (readDbPage (fresh_reader st') False 512 1) = snd (readDbPage (fresh_reader ?st) False 512 1)"
    by (rule checkpoint_keeps_database [OF c i, THEN conjunct1]) (simp_all add: small_ckpt_simps walFrameOffset_def)
  then show ?thesis using c by blast
qed

section \<open>A checkpoint that nothing hinders\<close>

definition free :: "ckpt_state \<Rightarrow> bool" where
  "free st \<longleftrightarrow> faults (cLog st) = [] \<and> interrupts st = [] \<and> (\<forall>j < 5. readers st ! j = 0)"

lemma next_fault_free [simp]: "faults l = [] \<Longrightarrow> next_fault l = ((SQLITE_OK, 0), l)"
  by (simp add: next_fault_def)

lemma lock_free: "free st \<Longrightarrow> j + n \<le> 5 \<Longrightarrow> walBusyLock st xb j n = (st, xb, SQLITE_OK)"
  by (cases xb) (auto simp: walLockExclusive_def free_def list_ex_iff)

lemma marks_free:
  "free st \<Longrightarrow> \<forall>i \<in> set is. i < 5 \<Longrightarrow> \<exists>st'. ckpt_marks st xb is m SQLITE_OK = (st', xb, SQLITE_OK, m, False) \<and> free st'"
proof (induction "is" arbitrary: st)
  case (Cons i "is")
  show ?case
  proof (cases "aReadMark (pInfo (cLog st)) ! i < m")
    case True
    let ?s = "upd_pInfo (\<lambda>p. p\<lparr>aReadMark := (aReadMark p)[i := if i = 1 then m else 0xffffffff]\<rparr>) st"
    have "free ?s" using Cons.prems(1) by (simp add: free_def upd_pInfo_def)
    from Cons.IH [OF this] Cons.prems lock_free [of st i 1 xb] True show ?thesis by simp
  next
    case False
    then show ?thesis using Cons by simp
  qed
qed simp

lemma read_free:
  assumes "faults l = []" "off + n \<le> length (pWalFd l)"
  shows "sqlite3OsRead l n off = (l, SQLITE_OK, bytes_at (pWalFd l) off n)"
  using assms unfolding sqlite3OsRead_def bytes_at_read [symmetric] by (simp add: Let_def)

lemma copy_list_free:
  "free st \<Longrightarrow> \<forall>(p, f) \<in> set l. b < f \<and> f \<le> m \<longrightarrow> walFrameOffset f n + 24 + n \<le> length (pWalFd (cLog st)) \<Longrightarrow>
   \<exists>st'. copy_list st l n b m x mf = (st', SQLITE_OK) \<and> free st'"
proof (induction l arbitrary: st)
  case (Cons a l)
  obtain p f where a: "a = (p, f)" by fastforce
  have i: "interrupts st = []" "faults (cLog st) = []" using Cons.prems(1) by (simp_all add: free_def)
  have l: "\<forall>(p, f) \<in> set l. b < f \<and> f \<le> m \<longrightarrow> walFrameOffset f n + 24 + n \<le> length (pWalFd (cLog st))" using Cons.prems(2) by simp
  show ?case
  proof (cases "f \<le> b \<or> f > m \<or> p > x")
    case True
    then show ?thesis using Cons.IH [OF Cons.prems(1) l] by (simp add: a i)
  next
    case False
    let ?z = "bytes_at (pWalFd (cLog st)) (walFrameOffset f n + 24) n"
    have "walFrameOffset f n + 24 + n \<le> length (pWalFd (cLog st))" using Cons.prems(2) a False by simp
    note r = read_free [OF i(2) this]
    let ?s = "st\<lparr>cLog := cLog st\<lparr>faults := []\<rparr>, pDbFd := file_write (pDbFd st) (page_off n p) ?z\<rparr>"
    have w: "on_db (\<lambda>l. sqlite3OsWrite l ?z (page_off n p)) (st\<lparr>cLog := cLog st\<rparr>) = (?s, SQLITE_OK)"
      using i(2) by (simp add: on_db_def sqlite3OsWrite_def)
    have "free ?s" "pWalFd (cLog ?s) = pWalFd (cLog st)" using Cons.prems(1) by (simp_all add: free_def)
    then show ?thesis using Cons.IH [of ?s] l False r w by (simp add: a i)
  qed
qed simp

lemma on_db_free:
  assumes "free st"
  shows "\<exists>s'. on_db (\<lambda>l. sqlite3OsTruncate l k) st = (s', SQLITE_OK) \<and> free s'"
    "\<exists>s'. on_db (\<lambda>l. sqlite3OsSync l fl) st = (s', SQLITE_OK) \<and> free s'"
  using assms by (simp_all add: on_db_def sqlite3OsTruncate_def sqlite3OsSync_def free_def)

lemma sync_free: "faults l = [] \<Longrightarrow> \<exists>s. sqlite3OsSync l fl = (l\<lparr>pSynced := s\<rparr>, SQLITE_OK)"
  by (cases "fl = 0") (auto simp: sqlite3OsSync_def intro: exI [of _ "pSynced l"])

lemma backfill_free:
  assumes "free st" "aSalt (live (cLog st)) = aSalt (hdr (pWal (cLog st)))"
    and "unat x * n \<le> length (pDbFd st) + 65536 + mxFrame (hdr (pWal (cLog st))) * n"
    and "\<forall>(p, f) \<in> set (iterator_pages it). nBackfill (pInfo (cLog st)) < f \<and> f \<le> m \<longrightarrow> walFrameOffset f n + 24 + n \<le> length (pWalFd (cLog st))"
  shows "\<exists>st'. ckpt_backfill st it n m x fl mf = (st', SQLITE_OK) \<and> free st' \<and> nBackfill (pInfo (cLog st')) = m"
proof -
  define s0 where "s0 = upd_pInfo (\<lambda>p. p\<lparr>nBackfillAttempted := m\<rparr>) st"
  have f0: "faults (cLog s0) = []" using assms(1) by (simp add: s0_def upd_pInfo_def free_def)
  obtain s where y: "sqlite3OsSync (cLog s0) (CKPT_SYNC_FLAGS fl) = ((cLog s0)\<lparr>pSynced := s\<rparr>, SQLITE_OK)" using sync_free [OF f0] by blast
  define s1 where "s1 = s0\<lparr>cLog := (cLog s0)\<lparr>pSynced := s\<rparr>\<rparr>"
  have s1: "free s1" "pWalFd (cLog s1) = pWalFd (cLog st)" "pDbFd s1 = pDbFd st" "pWal (cLog s1) = pWal (cLog st)"
    using assms(1) by (simp_all add: s1_def s0_def upd_pInfo_def free_def)
  have z: "ckpt_size s1 n x = (s1, SQLITE_OK)"
    using s1 assms(3) by (simp add: ckpt_size_def free_def Let_def)
  obtain s2 where c: "copy_list s1 (iterator_pages it) n (nBackfill (pInfo (cLog st))) m x mf = (s2, SQLITE_OK)" "free s2"
    using copy_list_free [OF s1(1), of "iterator_pages it" "nBackfill (pInfo (cLog st))" m n x mf] assms(4) s1(2) by auto
  have d: "\<exists>s3. db_finish s2 k g = (s3, SQLITE_OK) \<and> free s3" for k g
  proof -
    obtain a where a: "on_db (\<lambda>l. sqlite3OsTruncate l k) s2 = (a, SQLITE_OK)" "free a" using on_db_free(1) [OF c(2)] by blast
    obtain b where "on_db (\<lambda>l. sqlite3OsSync l g) a = (b, SQLITE_OK)" "free b" using on_db_free(2) [OF a(2)] by blast
    then show ?thesis using a(1) by (simp add: db_finish_def)
  qed
  obtain s3 where t: "(if m = mxFrame (live (cLog s2)) then db_finish s2 (unat (nPage (hdr (pWal (cLog s2)))) * n) (CKPT_SYNC_FLAGS fl)
      else (s2, SQLITE_OK)) = (s3, SQLITE_OK)" "free s3"
    using d [of "unat (nPage (hdr (pWal (cLog s2)))) * n" "CKPT_SYNC_FLAGS fl"] c(2)
    by (cases "m = mxFrame (live (cLog s2))") (simp_all, blast)
  have "ckpt_backfill st it n m x fl mf = (upd_pInfo (\<lambda>p. p\<lparr>nBackfill := m\<rparr>) s3, SQLITE_OK)"
    using assms(2) unfolding ckpt_backfill_def Let_def s0_def [symmetric] y prod.case s1_def [symmetric] copy_loop_list
      db_finish_def [unfolded Let_def, symmetric] by (simp add: z c t)
  then show ?thesis using t(2) by (simp add: free_def upd_pInfo_def)
qed

lemma iterator_frame_le:
  assumes "index_ok wi k ps" "1 \<le> M" "M \<le> length ps" "0xFFFFFFFF \<notin> set ps" "0 \<notin> set ps" "walIteratorInit True wi M b = Inr it"
    and "(p, f) \<in> set (iterator_pages it)"
  shows "1 \<le> f \<and> f \<le> M"
  using iterator_all [OF assms(1-5), of b] assms(6,7) iterator_frames [OF assms(2), of p f ps "walFramePage (b + 1)"] by auto

lemma frame_in_file:
  assumes "1 \<le> f" "f \<le> M" "walFrameOffset (M + 1) n \<le> (k :: nat)"
  shows "walFrameOffset f n + 24 + n \<le> k"
proof -
  have "f - 1 + 1 \<le> M" using assms(1,2) by simp
  then have "(f - 1 + 1) * (n + 24) \<le> M * (n + 24)" by (rule mult_le_mono1)
  then have "(f - 1) * (n + 24) + (n + 24) \<le> M * (n + 24)" by (simp only: distrib_right mult_1)
  then show ?thesis using assms(3) by (simp add: walFrameOffset_def)
qed

lemma copy_free:
  assumes "index_ok (shm (cLog st)) k ps" "mxFrame (hdr (pWal (cLog st))) \<le> length ps" "0xFFFFFFFF \<notin> set ps" "0 \<notin> set ps"
    and "nBackfill (pInfo (cLog st)) < mxFrame (hdr (pWal (cLog st)))" "walPagesize (pWal (cLog st)) = n" "free st"
    and "aSalt (live (cLog st)) = aSalt (hdr (pWal (cLog st)))"
    and "unat (nPage (hdr (pWal (cLog st)))) * n \<le> length (pDbFd st) + 65536 + mxFrame (hdr (pWal (cLog st))) * n"
    and "walFrameOffset (mxFrame (hdr (pWal (cLog st))) + 1) n \<le> length (pWalFd (cLog st))"
  shows "\<exists>st'. ckpt_copy st xb fl mf = (st', xb, SQLITE_OK, False) \<and> free st' \<and>
    nBackfill (pInfo (cLog st')) = mxFrame (hdr (pWal (cLog st)))"
proof -
  let ?h = "hdr (pWal (cLog st))"
  obtain s1 where m: "ckpt_marks st xb [1..<5] (mxFrame ?h) SQLITE_OK = (s1, xb, SQLITE_OK, mxFrame ?h, False)" "free s1"
    using marks_free [OF assms(7), of "[1..<5]"] by auto
  note mk = marks [OF m(1)]
  have s1: "pWal (cLog s1) = pWal (cLog st)" "pWalFd (cLog s1) = pWalFd (cLog st)" "live (cLog s1) = live (cLog st)"
    "shm (cLog s1) = shm (cLog st)" "pDbFd s1 = pDbFd st" "nBackfill (pInfo (cLog s1)) = nBackfill (pInfo (cLog st))"
    using mk by (simp_all add: same_log_def same_files_def)
  have M: "1 \<le> mxFrame ?h" using assms(5) by simp
  obtain it where it: "walIteratorInit True (shm (cLog st)) (mxFrame ?h) (nBackfill (pInfo (cLog st))) = Inr it"
    using iterator_all [OF assms(1) M assms(2-4)] by blast
  have rd: "\<forall>(p, f) \<in> set (iterator_pages it). nBackfill (pInfo (cLog s1)) < f \<and> f \<le> mxFrame ?h \<longrightarrow>
      walFrameOffset f n + 24 + n \<le> length (pWalFd (cLog s1))"
    using iterator_frame_le [OF assms(1) M assms(2-4) it] frame_in_file [OF _ _ assms(10)] by (auto simp: s1)
  have sz: "unat (nPage ?h) * n \<le> length (pDbFd s1) + 65536 + mxFrame (hdr (pWal (cLog s1))) * n" using assms(9) by (simp add: s1)
  have sa: "aSalt (live (cLog s1)) = aSalt (hdr (pWal (cLog s1)))" using assms(8) by (simp add: s1)
  obtain s2 where b: "ckpt_backfill s1 it n (mxFrame ?h) (nPage ?h) fl mf = (s2, SQLITE_OK)" "free s2" "nBackfill (pInfo (cLog s2)) = mxFrame ?h"
    using backfill_free [OF m(2) sa sz rd] by blast
  have nf: "next_fault (cLog s1) = ((SQLITE_OK, 0), cLog s1)" using m(2) by (simp add: free_def)
  have "ckpt_copy st xb fl mf = (s2, xb, SQLITE_OK, False)"
    using m(1) assms(5,6) it b(1) lock_free [OF m(2), of 0 1 xb] by (simp add: ckpt_copy_def Let_def s1 nf)
  then show ?thesis using b by blast
qed

lemma checkpoint_free:
  assumes "free st" "index_ok (shm (cLog st)) m ps" "mxFrame (hdr (pWal (cLog st))) \<le> length ps" "0xFFFFFFFF \<notin> set ps" "0 \<notin> set ps"
    and "walPagesize (pWal (cLog st)) = n" "nBackfill (pInfo (cLog st)) \<le> mxFrame (hdr (pWal (cLog st)))"
    and "aSalt (live (cLog st)) = aSalt (hdr (pWal (cLog st)))"
    and "unat (nPage (hdr (pWal (cLog st)))) * n \<le> length (pDbFd st) + 65536 + mxFrame (hdr (pWal (cLog st))) * n"
    and "walFrameOffset (mxFrame (hdr (pWal (cLog st))) + 1) n \<le> length (pWalFd (cLog st))"
  shows "\<exists>st'. walCheckpoint st eMode xBusy sync_flags salt1 mallocFailed = (st', SQLITE_OK) \<and>
    nBackfill (pInfo (cLog st')) = mxFrame (hdr (pWal (cLog st')))"
proof -
  have "\<exists>s1. (if nBackfill (pInfo (cLog st)) < mxFrame (hdr (pWal (cLog st)))
             then ckpt_copy st xBusy sync_flags mallocFailed else (st, xBusy, SQLITE_OK, False)) = (s1, xBusy, SQLITE_OK, False) \<and>
      free s1 \<and> pWal (cLog s1) = pWal (cLog st) \<and> nBackfill (pInfo (cLog s1)) = mxFrame (hdr (pWal (cLog st)))"
  proof (cases "nBackfill (pInfo (cLog st)) < mxFrame (hdr (pWal (cLog st)))")
    case True
    obtain s1 where s1: "ckpt_copy st xBusy sync_flags mallocFailed = (s1, xBusy, SQLITE_OK, False)" "free s1"
      "nBackfill (pInfo (cLog s1)) = mxFrame (hdr (pWal (cLog st)))"
      using copy_free [OF assms(2-5) True assms(6,1,8-10)] by blast
    from copy_effect [OF assms(2-5) True assms(6) s1(1)] have "pWal (cLog s1) = pWal (cLog st)"
      by (auto simp: ckpt_effect_def Let_def same_log_def)
    then show ?thesis using s1 True by simp
  next
    case False
    then show ?thesis using assms(1,7) by simp
  qed
  then obtain s1 where s1: "(if nBackfill (pInfo (cLog st)) < mxFrame (hdr (pWal (cLog st)))
             then ckpt_copy st xBusy sync_flags mallocFailed else (st, xBusy, SQLITE_OK, False)) = (s1, xBusy, SQLITE_OK, False)"
    "free s1" "pWal (cLog s1) = pWal (cLog st)" "nBackfill (pInfo (cLog s1)) = mxFrame (hdr (pWal (cLog st)))" by blast
  have fl: "faults (walRestartHdr (cLog s1) salt1) = []" using s1(2) by (simp add: free_def walRestartHdr_def walIndexWriteHdr_def Let_def)
  have "\<exists>st'. ckpt_restart s1 xBusy eMode salt1 = (st', SQLITE_OK) \<and> nBackfill (pInfo (cLog st')) = mxFrame (hdr (pWal (cLog st')))"
  proof (cases "eMode = 3")
    case True
    have "sqlite3OsTruncate (walRestartHdr (cLog s1) salt1) 0 = ((walRestartHdr (cLog s1) salt1)\<lparr>pWalFd := []\<rparr>, SQLITE_OK)"
      using fl by (simp add: sqlite3OsTruncate_def)
    then have "ckpt_restart s1 xBusy eMode salt1 = (s1\<lparr>cLog := (walRestartHdr (cLog s1) salt1)\<lparr>pWalFd := []\<rparr>\<rparr>, SQLITE_OK)"
      using True s1(3,4) lock_free [OF s1(2), of 1 4 xBusy] by (simp add: ckpt_restart_def)
    then show ?thesis by (simp add: walRestartHdr_def Let_def walIndexWriteHdr_def)
  next
    case False
    then have "ckpt_restart s1 xBusy eMode salt1 = (s1, SQLITE_OK)"
      using s1(3,4) lock_free [OF s1(2), of 1 4 xBusy] by (simp add: ckpt_restart_def)
    then show ?thesis using s1(3,4) by simp
  qed
  then show ?thesis using s1 by (simp add: walCheckpoint_def)
qed

text \<open>
  C6. Without faults, interrupts and other readers a checkpoint completes: it returns SQLITE_OK,
  every page of the database is in the database file as a reader would have found it before, the
  whole log counts as copied, and the database file is synced.
\<close>

theorem checkpoint_completes:
  assumes "free st" "index_ok (shm (cLog st)) m ps" "mxFrame (hdr (pWal (cLog st))) \<le> length ps" "0xFFFFFFFF \<notin> set ps" "0 \<notin> set ps"
    and "walPagesize (pWal (cLog st)) = n" "nBackfill (pInfo (cLog st)) \<le> mxFrame (hdr (pWal (cLog st)))"
    and "aSalt (live (cLog st)) = aSalt (hdr (pWal (cLog st)))"
    and "unat (nPage (hdr (pWal (cLog st)))) * n \<le> length (pDbFd st) + 65536 + mxFrame (hdr (pWal (cLog st))) * n"
    and "walFrameOffset (mxFrame (hdr (pWal (cLog st))) + 1) n \<le> length (pWalFd (cLog st))"
  shows "\<exists>st'. walCheckpoint st eMode xBusy sync_flags salt1 mallocFailed = (st', SQLITE_OK) \<and>
    (\<forall>p. p \<noteq> 0 \<and> p \<le> nPage (hdr (pWal (cLog st))) \<longrightarrow>
       bytes_at (pDbFd st') (page_off n p) n = snd (snd (readDbPage (fresh_reader st) False n p))) \<and>
    nBackfill (pInfo (cLog st')) = mxFrame (hdr (pWal (cLog st'))) \<and>
    (nBackfill (pInfo (cLog st)) < mxFrame (live (cLog st)) \<and> mxFrame (live (cLog st)) = mxFrame (hdr (pWal (cLog st))) \<and>
       CKPT_SYNC_FLAGS sync_flags \<noteq> 0 \<longrightarrow> dbSynced st' = pDbFd st')"
proof -
  obtain st' where c: "walCheckpoint st eMode xBusy sync_flags salt1 mallocFailed = (st', SQLITE_OK)"
    "nBackfill (pInfo (cLog st')) = mxFrame (hdr (pWal (cLog st')))"
    using checkpoint_free [OF assms] by blast
  obtain s1 xb1 k where E: "ckpt_effect ps n sync_flags k st s1" "pDbFd st' = pDbFd s1" "dbSynced st' = dbSynced s1"
    "same_log s1 st' \<and> nBackfill (pInfo (cLog st')) = nBackfill (pInfo (cLog s1)) \<or> restarted_log salt1 s1 st'"
    by (rule checkpoint_parts [OF c(1) assms(6,2-5)]) blast
  have l1: "pWal (cLog s1) = pWal (cLog st)" "shm (cLog s1) = shm (cLog st)"
    using E(1) by (simp_all add: ckpt_effect_def Let_def same_log_def)
  have i: "index_ok (shm (cLog st')) m ps" "mxFrame (hdr (pWal (cLog st'))) \<le> length ps" "walPagesize (pWal (cLog st')) = n"
    using E(4) l1 assms(2,3,6) by (auto simp: same_log_def restarted_log_def)
  have "bytes_at (pDbFd st') (page_off n p) n = snd (snd (readDbPage (fresh_reader st) False n p))"
    if "p \<noteq> 0" "p \<le> nPage (hdr (pWal (cLog st)))" for p
  proof -
    have "\<not> nBackfill (pInfo (cLog st')) < newest (\<lambda>f. ps ! (f - 1) = p) (mxFrame (hdr (pWal (cLog st'))))"
      using newest_le c(2) by (simp add: not_less)
    then have "snd (snd (readDbPage (fresh_reader st') False n p)) = bytes_at (pDbFd st') (page_off n p) n"
      using read_fresh [OF i refl] by simp
    then show ?thesis using checkpoint_view [OF c(1) assms(2-6,10) that] by simp
  qed
  moreover have "dbSynced st' = pDbFd st'"
    if "nBackfill (pInfo (cLog st)) < mxFrame (live (cLog st))" "mxFrame (live (cLog st)) = mxFrame (hdr (pWal (cLog st)))" "CKPT_SYNC_FLAGS sync_flags \<noteq> 0"
  proof -
    have "mxFrame (hdr (pWal (cLog st))) \<le> nBackfill (pInfo (cLog s1))"
      using E(4) c(2) l1(1) by (auto simp: same_log_def restarted_log_def)
    then have "nBackfill (pInfo (cLog s1)) \<noteq> nBackfill (pInfo (cLog st))" "k = mxFrame (live (cLog st))"
      using that E(1) by (auto simp: ckpt_effect_def Let_def)
    then show ?thesis using E(1-3) that by (simp add: ckpt_effect_def Let_def)
  qed
  ultimately show ?thesis using c by blast
qed

theorem checkpoint_completes_witness:
  "\<exists>wi st'. walCheckpoint (small_ckpt wi [0, 0, 0, 0, 0]) 1 [] 8 [1, 2, 3, 4] False = (st', SQLITE_OK) \<and>
     bytes_at (pDbFd st') 0 512 = snd (snd (readDbPage (fresh_reader (small_ckpt wi [0, 0, 0, 0, 0])) False 512 1))"
proof -
  obtain wi where wi: "index_ok wi 0 [1]" using small_index by blast
  let ?st = "small_ckpt wi [0, 0, 0, 0, 0]"
  have i: "index_ok (shm (cLog ?st)) 0 [1]" using wi by (simp add: small_ckpt_simps)
  have "[0, 0, 0, 0, 0] = replicate 5 (0 :: nat)" by (simp add: numeral_eq_Suc)
  then have z: "([0, 0, 0, 0, 0] :: nat list) ! j = 0" if "j < 5" for j
    using that by (simp only: nth_replicate)
  have f: "free ?st" using z by (simp add: free_def small_ckpt_def)
  have "\<exists>st'. walCheckpoint ?st 1 [] 8 [1, 2, 3, 4] False = (st', SQLITE_OK) \<and>
    (\<forall>p. p \<noteq> 0 \<and> p \<le> nPage (hdr (pWal (cLog ?st))) \<longrightarrow>
       bytes_at (pDbFd st') (page_off 512 p) 512 = snd (snd (readDbPage (fresh_reader ?st) False 512 p))) \<and>
    nBackfill (pInfo (cLog st')) = mxFrame (hdr (pWal (cLog st'))) \<and>
    (nBackfill (pInfo (cLog ?st)) < mxFrame (live (cLog ?st)) \<and> mxFrame (live (cLog ?st)) = mxFrame (hdr (pWal (cLog ?st))) \<and>
       CKPT_SYNC_FLAGS 8 \<noteq> 0 \<longrightarrow> dbSynced st' = pDbFd st')"
    by (rule checkpoint_completes [OF f i]) (simp_all add: small_ckpt_simps walFrameOffset_def)
  then obtain st' where c: "walCheckpoint ?st 1 [] 8 [1, 2, 3, 4] False = (st', SQLITE_OK)"
    and p: "\<forall>p. p \<noteq> 0 \<and> p \<le> nPage (hdr (pWal (cLog ?st))) \<longrightarrow>
       bytes_at (pDbFd st') (page_off 512 p) 512 = snd (snd (readDbPage (fresh_reader ?st) False 512 p))" by blast
  have "bytes_at (pDbFd st') (page_off 512 1) 512 = snd (snd (readDbPage (fresh_reader ?st) False 512 1))"
    using p [rule_format, of 1] by (simp add: small_ckpt_simps)
  then show ?thesis using c by auto
qed

end
