(* ===== verification/Spec2Isabelle.thy ===== *)
theory Spec2Isabelle
  imports Prelude Varint Rowset Bitvec Text_Bytes Int_Text Record_Format Hash_Table
    Wal_Frame Wal_Index Wal_Sort Wal_Log Wal_Recover Wal_Tx Wal_Checkpoint
begin

text \<open>
  Slung stores module data in SQLite, which the repository carries as one C file
  (\<open>lib/sqlite/sqlite3.c\<close>).
\<close>

end
